(* ===== verification/Prelude.thy ===== *)
theory Prelude
  imports Main "HOL-Library.Word"
begin

text \<open>
  The prelude of the xv6 development: the machine types, the outcome monad in which every
  kernel operation is written, its weakest-precondition calculus, and the generic lemmas on
  lists and words that the component theories share.

  A kernel operation is a function from the state to an \<open>outcome\<close>:
  \<^item> \<open>Ok a s\<close>: the C function returned \<open>a\<close> and left the state \<open>s\<close>;
  \<^item> \<open>Panic m\<close>: it called \<^verbatim>\<open>panic(m)\<close>, which never returns;
  \<^item> \<open>Sleep c s\<close>: it called \<^verbatim>\<open>sleep\<close> on the channel \<open>c\<close>, the state being \<open>s\<close> when
    \<^verbatim>\<open>sched()\<close> switches away;
  \<^item> \<open>Diverge\<close>: it entered a loop that never ends.
\<close>

unbundle bit_operations_syntax

named_theorems kprog \<open>definitions of the monad's combinators and of the kernel operations\<close>
named_theorems wp_rules \<open>weakest-precondition equations\<close>

subsection \<open>Machine types\<close>

type_synonym u8 = "8 word"
type_synonym u16 = "16 word"
type_synonym u32 = "32 word"

text \<open>A C \<^verbatim>\<open>int\<close> is a \<open>32 word\<close> read through \<open>sint\<close>.\<close>

type_synonym i32 = "32 word"

subsection \<open>Addresses that only serve as identities\<close>

text \<open>
  Sleep channels (\<^verbatim>\<open>void *chan\<close>) and lock addresses are used by the code only for
  comparison. Each is a datatype with one constructor per kind of object whose address is
  taken, indexed by the object's position in its table (or by its address, for pipes, which
  live in pages of their own).
\<close>

datatype slock = SL_buf nat | SL_inode nat

datatype kchan =
    Ch_proc nat            \<comment> \<open>a \<^verbatim>\<open>struct proc *\<close>: wait\<close>
  | Ch_mailbox nat         \<comment> \<open>\<^verbatim>\<open>&mailboxes[i]\<close>\<close>
  | Ch_pipe_nread u32      \<comment> \<open>\<^verbatim>\<open>&p->nread\<close>\<close>
  | Ch_pipe_nwrite u32     \<comment> \<open>\<^verbatim>\<open>&p->nwrite\<close>\<close>
  | Ch_ticks               \<comment> \<open>\<^verbatim>\<open>&ticks\<close>\<close>
  | Ch_log                 \<comment> \<open>\<^verbatim>\<open>&log\<close>\<close>
  | Ch_sleeplock slock     \<comment> \<open>a \<^verbatim>\<open>struct sleeplock *\<close>\<close>
  | Ch_buf nat             \<comment> \<open>a \<^verbatim>\<open>struct buf *\<close>: iderw\<close>
  | Ch_input               \<comment> \<open>\<^verbatim>\<open>&input.r\<close>\<close>

datatype lockid =
    LK_kmem | LK_ptable | LK_mailbox nat | LK_pipe u32 | LK_bcache | LK_log | LK_icache
  | LK_ftable | LK_ticks | LK_cons | LK_ide | LK_sleep slock

subsection \<open>The outcome monad\<close>

datatype ('a, 's) outcome = Ok 'a 's | Panic string | Sleep kchan 's | Diverge

type_synonym ('s, 'a) kprog = "'s \<Rightarrow> ('a, 's) outcome"

definition kreturn :: "'a \<Rightarrow> ('s, 'a) kprog" where
  "kreturn a = (\<lambda>s. Ok a s)"

definition kbind :: "('s, 'a) kprog \<Rightarrow> ('a \<Rightarrow> ('s, 'b) kprog) \<Rightarrow> ('s, 'b) kprog" where
  "kbind m f = (\<lambda>s. case m s of
       Ok a s' \<Rightarrow> f a s' | Panic e \<Rightarrow> Panic e | Sleep c s' \<Rightarrow> Sleep c s' | Diverge \<Rightarrow> Diverge)"

definition kgets :: "('s \<Rightarrow> 'a) \<Rightarrow> ('s, 'a) kprog" where
  "kgets f = (\<lambda>s. Ok (f s) s)"

definition kmodify :: "('s \<Rightarrow> 's) \<Rightarrow> ('s, unit) kprog" where
  "kmodify f = (\<lambda>s. Ok () (f s))"

definition kpanic :: "string \<Rightarrow> ('s, 'a) kprog" where
  "kpanic e = (\<lambda>s. Panic e)"

definition kwhen :: "bool \<Rightarrow> ('s, unit) kprog \<Rightarrow> ('s, unit) kprog" where
  "kwhen b m = (if b then m else kreturn ())"

text \<open>A \<^verbatim>\<open>for\<close> loop over the elements of a list whose body has no early exit.\<close>

primrec kfor :: "'x list \<Rightarrow> ('x \<Rightarrow> ('s, unit) kprog) \<Rightarrow> ('s, unit) kprog" where
  "kfor [] f = kreturn ()"
| "kfor (x # xs) f = kbind (f x) (\<lambda>_. kfor xs f)"

text \<open>A sequence of statements.\<close>

primrec kseq :: "('s, unit) kprog list \<Rightarrow> ('s, unit) kprog" where
  "kseq [] = kreturn ()"
| "kseq (m # ms) = kbind m (\<lambda>_. kseq ms)"

lemmas kprog_defs [kprog] = kreturn_def kbind_def kgets_def kmodify_def kpanic_def kwhen_def

subsection \<open>Weakest preconditions\<close>

text \<open>
  \<open>wp m Q s\<close>: from \<open>s\<close>, the operation \<open>m\<close> returns normally (it neither panics nor sleeps nor
  diverges) and its result and final state satisfy \<open>Q\<close>: total correctness.
\<close>

definition wp :: "('s, 'a) kprog \<Rightarrow> ('a \<Rightarrow> 's \<Rightarrow> bool) \<Rightarrow> 's \<Rightarrow> bool" where
  "wp m Q s = (case m s of Ok a s' \<Rightarrow> Q a s' | _ \<Rightarrow> False)"

lemma wp_Ok: "wp m Q s \<longleftrightarrow> (\<exists>a s'. m s = Ok a s' \<and> Q a s')"
  by (auto simp: wp_def split: outcome.splits)

lemma wp_return [wp_rules, simp]: "wp (kreturn a) Q s = Q a s"
  by (simp add: wp_def kreturn_def)

lemma wp_bind [wp_rules, simp]: "wp (kbind m f) Q s = wp m (\<lambda>a. wp (f a) Q) s"
  by (simp add: wp_def kbind_def split: outcome.splits)

lemma wp_gets [wp_rules, simp]: "wp (kgets f) Q s = Q (f s) s"
  by (simp add: wp_def kgets_def)

lemma wp_modify [wp_rules, simp]: "wp (kmodify f) Q s = Q () (f s)"
  by (simp add: wp_def kmodify_def)

lemma wp_panic [wp_rules, simp]: "wp (kpanic e) Q s = False"
  by (simp add: wp_def kpanic_def)

lemma wp_when [wp_rules, simp]: "wp (kwhen b m) Q s = (if b then wp m Q s else Q () s)"
  by (simp add: kwhen_def)

lemma wp_if [wp_rules]: "wp (if b then m else n) Q s = (if b then wp m Q s else wp n Q s)"
  by simp

lemma wp_mono: "wp m Q s \<Longrightarrow> (\<And>a s'. Q a s' \<Longrightarrow> R a s') \<Longrightarrow> wp m R s"
  by (auto simp: wp_Ok)

lemma wp_conj: "wp m (\<lambda>a s. Q a s \<and> R a s) s \<longleftrightarrow> wp m Q s \<and> wp m R s"
  by (auto simp: wp_Ok)

lemma wp_kfor:
  assumes "I [] s" and "\<And>done x todo t. xs = done @ x # todo \<Longrightarrow> I done t \<Longrightarrow>
      wp (f x) (\<lambda>_. I (done @ [x])) t"
  shows "wp (kfor xs f) (\<lambda>_. I xs) s"
proof -
  have "wp (kfor ys f) (\<lambda>_. I xs) t" if "xs = pre @ ys" "I pre t" for pre ys t
    using that
  proof (induction ys arbitrary: pre t)
    case (Cons y ys)
    have "wp (f y) (\<lambda>_. I (pre @ [y])) t"
      using Cons.prems assms(2) by blast
    then show ?case
      using Cons.IH[of "pre @ [y]"] Cons.prems(1) by (auto elim: wp_mono)
  qed simp
  from this[of "[]" xs s] show ?thesis using assms(1) by simp
qed

text \<open>Running sequences of operations.\<close>

lemma kbind_Ok [simp]: "m s = Ok a s' \<Longrightarrow> kbind m f s = f a s'"
  by (simp add: kbind_def)

lemma kbind_Panic [simp]: "m s = Panic e \<Longrightarrow> kbind m f s = Panic e"
  by (simp add: kbind_def)

lemma kbind_Sleep [simp]: "m s = Sleep c s' \<Longrightarrow> kbind m f s = Sleep c s'"
  by (simp add: kbind_def)

lemma kbind_Diverge [simp]: "m s = Diverge \<Longrightarrow> kbind m f s = Diverge"
  by (simp add: kbind_def)

lemma kbind_assoc: "kbind (kbind m f) g = kbind m (\<lambda>x. kbind (f x) g)"
  by (auto simp: kbind_def fun_eq_iff split: outcome.splits)

text \<open>
  Recursive operations terminate with the help of what their earlier steps establish: the
  congruence rule hands the equation \<open>m s = Ok a s'\<close> to the termination proof.
\<close>

lemma kbind_cong [fundef_cong]:
  assumes "m s = m' s'" and "\<And>a t. m' s' = Ok a t \<Longrightarrow> f a t = f' a t"
  shows "kbind m f s = kbind m' f' s'"
  using assms by (auto simp: kbind_def split: outcome.splits)

lemma krun_simps [simp]:
  "kreturn a s = Ok a s" "kgets h s = Ok (h s) s" "kmodify u s = Ok () (u s)"
  "kpanic e s = Panic e"
  by (simp_all add: kprog)

subsection \<open>Lists\<close>

text \<open>
  The table scans of the kernel (\<^verbatim>\<open>for(p = tab; p < &tab[N]; p++) if(P(p)) ...\<close>) stop at the
  first index that satisfies a test.
\<close>

fun find_index :: "('a \<Rightarrow> bool) \<Rightarrow> 'a list \<Rightarrow> nat option" where
  "find_index P [] = None"
| "find_index P (x # xs) = (if P x then Some 0 else map_option Suc (find_index P xs))"

lemma find_index_Some:
  "find_index P xs = Some i \<longleftrightarrow> i < length xs \<and> P (xs ! i) \<and> (\<forall>j<i. \<not> P (xs ! j))"
proof (induction xs arbitrary: i)
  case (Cons x xs)
  show ?case
  proof (cases i)
    case 0
    then show ?thesis by auto
  next
    case (Suc k)
    have "(\<forall>j<Suc k. \<not> P ((x # xs) ! j)) \<longleftrightarrow> \<not> P x \<and> (\<forall>j<k. \<not> P (xs ! j))"
      by (auto simp: less_Suc_eq_0_disj)
    then show ?thesis using Suc Cons.IH[of k] by auto
  qed
qed simp

lemma find_index_None: "find_index P xs = None \<longleftrightarrow> (\<forall>x \<in> set xs. \<not> P x)"
  by (induction xs) auto

lemma find_index_SomeD:
  assumes "find_index P xs = Some i"
  shows "i < length xs" and "P (xs ! i)" and "j < i \<Longrightarrow> \<not> P (xs ! j)"
  using assms by (auto simp: find_index_Some)

lemma find_index_ex: "x \<in> set xs \<Longrightarrow> P x \<Longrightarrow> \<exists>i. find_index P xs = Some i"
  using find_index_None[of P xs] by (cases "find_index P xs") auto

text \<open>Updating one entry of a table in place.\<close>

definition upd_at :: "nat \<Rightarrow> ('a \<Rightarrow> 'a) \<Rightarrow> 'a list \<Rightarrow> 'a list" where
  "upd_at i f xs = (if i < length xs then xs[i := f (xs ! i)] else xs)"

lemma length_upd_at [simp]: "length (upd_at i f xs) = length xs"
  by (simp add: upd_at_def)

lemma nth_upd_at: "j < length xs \<Longrightarrow> upd_at i f xs ! j = (if i = j then f (xs ! j) else xs ! j)"
  by (auto simp: upd_at_def)

lemma nth_upd_at_same [simp]: "i < length xs \<Longrightarrow> upd_at i f xs ! i = f (xs ! i)"
  by (simp add: nth_upd_at)

lemma upd_at_upd_at [simp]: "upd_at i f (upd_at i g xs) = upd_at i (\<lambda>x. f (g x)) xs"
  by (simp add: upd_at_def)

lemma upd_at_id [simp]: "upd_at i (\<lambda>x. x) xs = xs"
  by (simp add: upd_at_def)

lemma upd_at_cong: "(i < length xs \<Longrightarrow> f (xs ! i) = g (xs ! i)) \<Longrightarrow> upd_at i f xs = upd_at i g xs"
  by (simp add: upd_at_def)

lemma map_upd_at [simp]: "(\<And>x. f (g x) = f x) \<Longrightarrow> map f (upd_at i g xs) = map f xs"
  by (auto simp: upd_at_def intro!: nth_equalityI) (metis nth_list_update)

lemma nth_upd_at_field: "(\<And>x. f (g x) = f x) \<Longrightarrow> f (upd_at i g xs ! j) = f (xs ! j)"
  by (cases "i = j") (auto simp: upd_at_def)

lemma nth_upd_at_other [simp]: "i \<noteq> j \<Longrightarrow> upd_at i f xs ! j = xs ! j"
  by (simp add: upd_at_def)

subsection \<open>Words\<close>

lemma sint_u32: "sint (x :: u32) = (if uint x < 2147483648 then uint x else uint x - 4294967296)"
proof -
  have m: "uint x = sint x mod 4294967296"
    using uint_sint[of x] by (simp add: take_bit_eq_mod)
  have r: "- 2147483648 \<le> sint x" "sint x < 2147483648"
    using sint_ge[of x] sint_lt[of x] by simp_all
  show ?thesis
  proof (cases "0 \<le> sint x")
    case True
    then have "uint x = sint x" using m r by simp
    then show ?thesis using r by simp
  next
    case False
    have "uint x = (sint x + 4294967296) mod 4294967296" using m by simp
    also have "\<dots> = sint x + 4294967296" using False r by (intro mod_pos_pos_trivial) simp_all
    finally show ?thesis using r by simp
  qed
qed

lemma sint_unat: "0 \<le> sint (x :: u32) \<Longrightarrow> sint x = int (unat x)"
  using unsigned_less[of x, where 'a = int] by (simp add: sint_u32 split: if_splits)

lemma sint_unat_iff:
  assumes "unat (x :: u32) < 2147483648"
  shows "sint x = int (unat x)"
proof -
  have "uint x < 2147483648" using assms uint_nat[of x] by linarith
  then show ?thesis by (simp add: sint_u32)
qed

lemma unat_of_sint:
  assumes "0 \<le> sint (x :: u32)"
  shows "unat x < 2147483648"
proof -
  have "sint x < 2147483648" using sint_lt[of x] by simp
  then show ?thesis using sint_unat[OF assms] by linarith
qed

lemma unat_sint_bound: "sint (x :: u32) < int n \<Longrightarrow> 0 \<le> sint x \<Longrightarrow> unat x < n"
  using sint_unat[of x] by linarith

lemma sint_less_unat:
  assumes "0 \<le> sint (a :: u32)" "0 \<le> sint (b :: u32)"
  shows "sint a < sint b \<longleftrightarrow> unat a < unat b" "sint a \<le> sint b \<longleftrightarrow> unat a \<le> unat b"
  unfolding sint_unat[OF assms(1)] sint_unat[OF assms(2)] by (rule of_nat_less_iff, rule of_nat_le_iff)

lemma unat_u16_bound: "unat (v :: u16) < 65536"
  using unsigned_less[of v, where 'a = nat] by simp

lemma unat_u32_bound: "unat (v :: u32) < 4294967296"
  using unsigned_less[of v, where 'a = nat] by simp

lemma unat_ucast_u16_u32 [simp]: "unat (ucast (v :: u16) :: u32) = unat v"
  using unat_u16_bound[of v] by (simp add: unsigned_ucast_eq take_bit_nat_eq_self_iff)

lemma unat_of_nat_u16: "n < 65536 \<Longrightarrow> unat (of_nat n :: u16) = n"
  by (simp add: unat_of_nat)

lemma unat_of_nat_u32: "n < 4294967296 \<Longrightarrow> unat (of_nat n :: u32) = n"
  by (simp add: unat_of_nat)

end
