(* ===== verification/Rand.thy ===== *)
theory Rand
  imports Prelude
begin

text \<open>
  The pseudo-random generator of the lottery scheduler (\<^verbatim>\<open>src/rand.c\<close>): a 16-bit linear
  feedback shift register, and rejection sampling on top of it. On the i386 target
  \<^verbatim>\<open>long\<close> and \<^verbatim>\<open>unsigned long\<close> have 32 bits. The static variable \<^verbatim>\<open>lfsr\<close> is an argument and
  a result.
\<close>

definition lfsr_init :: u16 where
  "lfsr_init = 0xACE1"

definition rand :: "u16 \<Rightarrow> u16" where
  "rand lfsr =
     (let b = (drop_bit 0 lfsr XOR drop_bit 2 lfsr XOR drop_bit 3 lfsr XOR drop_bit 5 lfsr) AND 1
      in drop_bit 1 lfsr OR push_bit 15 b)"

text \<open>The loop's condition: a value above the largest multiple of \<open>num_bins\<close> is drawn again.\<close>

definition rejected :: "u32 \<Rightarrow> u32 \<Rightarrow> bool" where
  "rejected num_bins result = (result \<ge> 65536 - (65536 mod num_bins))"

text \<open>The \<^verbatim>\<open>do ... while\<close> loop; \<open>None\<close> is a loop that never ends.\<close>

partial_function (option) random_loop :: "u32 \<Rightarrow> u16 \<Rightarrow> (u32 \<times> u16) option" where
  "random_loop num_bins lfsr =
     (let lfsr' = rand lfsr; result = ucast lfsr' :: u32
      in if rejected num_bins result then random_loop num_bins lfsr'
         else Some (result, lfsr'))"

definition random_at_most :: "u32 \<Rightarrow> u16 \<Rightarrow> (u32 \<times> u16) option" where
  "random_at_most mx lfsr =
     (if sint mx \<le> 0 then Some (0, lfsr)
      else (let num_bins = mx + 1
            in case random_loop num_bins lfsr of
                 None \<Rightarrow> None
               | Some (result, lfsr') \<Rightarrow> Some (result mod num_bins, lfsr')))"

subsection \<open>The register\<close>

lemma bit_rand_low: "n < 15 \<Longrightarrow> bit (rand l) n = bit l (Suc n)"
  by (auto simp: rand_def Let_def bit_simps)

lemma bit_rand_15:
  "bit (rand l) 15 \<longleftrightarrow> ((bit l 0 \<noteq> bit l 2) \<noteq> (bit l 3 \<noteq> bit l 5))"
proof -
  have "\<not> bit l 16" by (auto dest: bit_imp_le_length)
  then show ?thesis by (auto simp: rand_def Let_def bit_simps)
qed

lemma rand_eqD: "rand a = rand b \<Longrightarrow> a = b"
proof (rule bit_word_eqI)
  fix n assume eq: "rand a = rand b" and n: "n < LENGTH(16)"
  have hi: "bit a (Suc k) = bit b (Suc k)" if "k < 15" for k
    using bit_rand_low[OF that, of a] bit_rand_low[OF that, of b] eq by simp
  have "bit a 0 = bit b 0"
    using bit_rand_15[of a] bit_rand_15[of b] eq hi[of 1] hi[of 2] hi[of 4]
    by (auto simp: numeral_2_eq_2 numeral_3_eq_3 eval_nat_numeral)
  with hi n show "bit a n = bit b n" by (cases n) auto
qed

lemma inj_rand: "inj rand"
  by (rule injI) (rule rand_eqD)

lemma bij_rand: "bij rand"
  using inj_rand by (simp add: bij_def finite_UNIV_inj_surj)

lemma rand_0 [simp]: "rand 0 = 0"
  by (simp add: rand_def)

lemma rand_eq_0 [simp]: "rand l = 0 \<longleftrightarrow> l = 0"
  using rand_eqD[of l 0] by auto

lemma bit_rand_funpow:
  "n + k < 16 \<Longrightarrow> bit ((rand ^^ k) l) n = bit l (n + k)"
  by (induction k arbitrary: n) (simp_all add: bit_rand_low)

lemma bit_rand_history:
  "n < 16 \<Longrightarrow> bit ((rand ^^ 16) l) n = bit ((rand ^^ Suc n) l) 15"
proof -
  assume n: "n < 16"
  have "(rand ^^ 16) l = (rand ^^ (15 - n)) ((rand ^^ Suc n) l)"
    using n by (simp only: funpow_add[THEN fun_cong, unfolded o_apply, symmetric]) simp
  moreover have "bit ((rand ^^ (15 - n)) ((rand ^^ Suc n) l)) n = bit ((rand ^^ Suc n) l) 15"
    using n bit_rand_funpow[of n "15 - n" "(rand ^^ Suc n) l"] by simp
  ultimately show ?thesis by simp
qed

text \<open>Of seventeen successive values, one is below \<open>2^15\<close>: sixteen ones feed back a zero.\<close>

lemma rand_small_within_17: "\<exists>k \<in> {1..17}. \<not> bit ((rand ^^ k) l) 15"
proof (rule ccontr)
  assume "\<not> ?thesis"
  then have all: "bit ((rand ^^ k) l) 15" if "1 \<le> k" "k \<le> 17" for k using that by auto
  have ones: "bit ((rand ^^ 16) l) n" if "n < 16" for n
    using bit_rand_history[OF that] all[of "Suc n"] that by simp
  have "bit (rand ((rand ^^ 16) l)) 15" using all[of 17] by (simp add: eval_nat_numeral)
  then show False using bit_rand_15 ones by (metis (no_types, lifting) numeral_less_iff semiring_norm(68,76,78,79,80,81) zero_less_numeral)
qed

subsection \<open>The sampling loop\<close>

abbreviation accepted :: "u32 \<Rightarrow> u16 \<Rightarrow> bool" where
  "accepted num_bins v \<equiv> \<not> rejected num_bins (ucast v)"

lemma random_loop_first_accepted:
  assumes "accepted nb ((rand ^^ Suc k) l)" and "\<forall>j<k. \<not> accepted nb ((rand ^^ Suc j) l)"
  shows "random_loop nb l = Some (ucast ((rand ^^ Suc k) l), (rand ^^ Suc k) l)"
  using assms
proof (induction k arbitrary: l)
  case 0
  then show ?case by (simp add: random_loop.simps[of nb l] Let_def)
next
  case (Suc k)
  have "\<not> accepted nb (rand l)" using Suc.prems(2) by force
  moreover have "random_loop nb (rand l) = Some (ucast ((rand ^^ Suc k) (rand l)), (rand ^^ Suc k) (rand l))"
  proof (rule Suc.IH)
    show "accepted nb ((rand ^^ Suc k) (rand l))"
      using Suc.prems(1) by (metis comp_apply funpow.simps(2) funpow_swap1)
    show "\<forall>j<k. \<not> accepted nb ((rand ^^ Suc j) (rand l))"
      using Suc.prems(2) by (metis (no_types, lifting) Suc_less_eq comp_apply funpow.simps(2) funpow_swap1)
  qed
  ultimately show ?case
    by (simp add: random_loop.simps[of nb l] Let_def funpow_swap1)
qed

lemma random_loop_Some:
  assumes "random_loop nb l = Some (r, l')"
  shows "accepted nb l'" and "r = ucast l'" and "\<exists>k. l' = (rand ^^ Suc k) l"
proof -
  have "accepted nb (snd r') \<and> fst r' = ucast (snd r') \<and> (\<exists>k. snd r' = (rand ^^ Suc k) l)"
    if "random_loop nb l = Some r'" for nb l r'
    using that
  proof (induction rule: random_loop.raw_induct [rotated 1, consumes 1])
    case (1 rl nb l r')
    show ?case
    proof (cases "accepted nb (rand l)")
      case True
      then show ?thesis using 1(2) by (auto simp: Let_def intro!: exI[of _ 0])
    next
      case False
      then have "rl nb (rand l) = Some r'" using 1(2) by (simp add: Let_def)
      from 1(1)[OF this] show ?thesis
        by (metis comp_apply funpow.simps(2) funpow_swap1)
    qed
  qed
  from this[OF assms] show "accepted nb l'" "r = ucast l'" "\<exists>k. l' = (rand ^^ Suc k) l" by auto
qed

lemma unat_threshold:
  "unat (65536 - (65536 mod nb) :: u32) = 65536 - (65536 mod unat nb)" for nb :: u32
proof -
  have m: "unat ((65536 :: u32) mod nb) = 65536 mod unat nb"
    by (simp add: unat_mod)
  have "65536 mod nb \<le> (65536 :: u32)"
    unfolding word_le_nat_alt m by simp
  then show ?thesis by (simp add: unat_sub m)
qed

lemma accepted_iff: "accepted nb v \<longleftrightarrow> unat v < 65536 - (65536 mod unat nb)"
  by (simp add: rejected_def word_le_nat_alt unat_threshold not_le)

lemma threshold_half:
  assumes "0 < n" "n \<le> (65536::nat)"
  shows "32768 < 65536 - 65536 mod n"
proof -
  have r: "65536 mod n < n" using assms by simp
  have "65536 = 65536 div n * n + 65536 mod n" by simp
  moreover have "1 \<le> 65536 div n" using assms by (simp add: div_greater_zero_iff Suc_le_eq)
  then have "n \<le> 65536 div n * n" by simp
  ultimately have "65536 mod n \<le> 65536 - n" by linarith
  with r show ?thesis by linarith
qed

lemma small_of_not_bit15: "\<not> bit v 15 \<Longrightarrow> unat v < 32768" for v :: u16
proof -
  assume "\<not> bit v 15"
  then have "even (unat v div 32768)"
    using bit_iff_odd[of "unat v" 15] by (simp add: bit_unsigned_iff)
  moreover have "unat v div 32768 < 2" using unat_u16_bound[of v] by simp
  ultimately have "unat v div 32768 = 0" using less_2_cases by fastforce
  then show ?thesis by simp
qed

lemma accepted_within_17:
  assumes "0 < unat nb" "unat nb \<le> 65536"
  obtains k where "k < 17" "accepted nb ((rand ^^ Suc k) l)" "\<forall>j<k. \<not> accepted nb ((rand ^^ Suc j) l)"
proof -
  obtain i where i: "i \<in> {1..17}" "\<not> bit ((rand ^^ i) l) 15"
    using rand_small_within_17 by blast
  then have "accepted nb ((rand ^^ Suc (i - 1)) l)"
    using small_of_not_bit15[of "(rand ^^ i) l"] threshold_half[OF assms]
    unfolding accepted_iff by (cases i) auto
  then have ex: "\<exists>j. accepted nb ((rand ^^ Suc j) l)" by blast
  let ?k = "LEAST j. accepted nb ((rand ^^ Suc j) l)"
  have "?k \<le> i - 1" using \<open>accepted nb ((rand ^^ Suc (i - 1)) l)\<close> by (rule Least_le)
  show ?thesis
  proof (rule that[of ?k])
    show "?k < 17" using \<open>?k \<le> i - 1\<close> i(1) by auto
    show "accepted nb ((rand ^^ Suc ?k) l)" using ex by (rule LeastI_ex)
    show "\<forall>j<?k. \<not> accepted nb ((rand ^^ Suc j) l)" using not_less_Least by blast
  qed
qed

lemma random_loop_never_returns:
  assumes "65536 < unat nb"
  shows "random_loop nb l = None"
proof (rule ccontr)
  assume "random_loop nb l \<noteq> None"
  then obtain r l' where "random_loop nb l = Some (r, l')" by auto
  from random_loop_Some(1)[OF this] show False
    using assms by (simp add: accepted_iff)
qed

lemma random_returns:
  assumes "sint mx < 65536"
  shows "\<exists>r k. k \<le> 17 \<and> random_at_most mx l = Some (r, (rand ^^ k) l)
           \<and> 0 \<le> sint r \<and> sint r \<le> max 0 (sint mx)"
proof (cases "sint mx \<le> 0")
  case True
  then show ?thesis by (intro exI[of _ 0]) (simp add: random_at_most_def)
next
  case False
  then have mx: "unat mx < 65536" and u: "sint mx = int (unat mx)"
    using assms unat_sint_bound[of mx 65536] sint_unat[of mx] by simp_all
  have nb: "unat (mx + 1) = unat mx + 1"
    using mx by (simp add: unat_word_ariths)
  obtain k where k: "k < 17" "accepted (mx + 1) ((rand ^^ Suc k) l)"
      "\<forall>j<k. \<not> accepted (mx + 1) ((rand ^^ Suc j) l)"
    using accepted_within_17[of "mx + 1" l] nb mx by auto
  let ?v = "(rand ^^ Suc k) l"
  let ?r = "ucast ?v mod (mx + 1)"
  have "random_at_most mx l = Some (?r, ?v)"
    using False random_loop_first_accepted[OF k(2,3)] by (simp add: random_at_most_def Let_def)
  moreover have "unat ?r < unat mx + 1"
    using nb by (simp only: unat_mod) simp
  then have "0 \<le> sint ?r \<and> sint ?r \<le> sint mx"
    using mx u sint_unat_iff[of ?r] by linarith
  ultimately show ?thesis using k(1) by (intro exI[of _ ?r] exI[of _ "Suc k"]) auto
qed

lemma random_at_most_diverges:
  assumes "65536 \<le> sint mx"
  shows "random_at_most mx l = None"
proof -
  have "65536 \<le> unat mx" using assms sint_unat[of mx] by linarith
  moreover have "unat (mx + 1) = unat mx + 1"
    using assms unat_of_sint[of mx] by (simp add: unat_word_ariths)
  ultimately have "65536 < unat (mx + 1)" by simp
  then show ?thesis
    using assms random_loop_never_returns[of "mx + 1" l] by (simp add: random_at_most_def Let_def)
qed

subsection \<open>Properties\<close>

text \<open>
  C12. For every bound below 65536 (negative ones included) \<open>random_at_most\<close> returns, after at
  most 17 calls of \<open>rand\<close>, a value between 0 and the bound (0 for a bound that is not positive).
\<close>

theorem random_at_most_returns:
  assumes "sint mx < 65536"
  shows "\<exists>r k. k \<le> 17 \<and> random_at_most mx l = Some (r, (rand ^^ k) l)
           \<and> 0 \<le> sint r \<and> sint r \<le> max 0 (sint mx)"
  using assms by (rule random_returns)

theorem random_at_most_returns_witness:
  "\<exists>r k. k \<le> 17 \<and> random_at_most 9 lfsr_init = Some (r, (rand ^^ k) lfsr_init)
      \<and> 0 \<le> sint r \<and> sint r \<le> max 0 (sint (9 :: u32))"
  by (rule random_at_most_returns) simp

lemma card_residue_class:
  assumes "r < (n::nat)"
  shows "card {x. x < q * n \<and> x mod n = r} = q"
proof -
  have "{x. x < q * n \<and> x mod n = r} = (\<lambda>i. i * n + r) ` {..<q}" (is "?L = ?R")
  proof
    show "?L \<subseteq> ?R"
    proof
      fix x assume "x \<in> ?L"
      then have "x = x div n * n + r" "x div n < q" using assms
        by (auto simp: div_less_iff_less_mult)
      then show "x \<in> ?R" by blast
    qed
    show "?R \<subseteq> ?L"
    proof
      fix x assume "x \<in> ?R"
      then obtain i where i: "i < q" "x = i * n + r" by auto
      have "i * n + r < Suc i * n" using assms by simp
      also have "\<dots> \<le> q * n" using i(1) by (intro mult_le_mono1) simp
      finally show "x \<in> ?L" using i assms by simp
    qed
  qed
  moreover have "inj_on (\<lambda>i. i * n + r) {..<q}" using assms by (auto intro: inj_onI)
  ultimately show ?thesis by (simp add: card_image)
qed

text \<open>
  C13. Rejection sampling is unbiased over the 16-bit values: every residue has the same number
  of accepted values, \<open>65536 div n\<close>.
\<close>

theorem rejection_unbiased:
  assumes "0 < unat nb" "unat nb \<le> 65536" "r < unat nb"
  shows "card {v :: u16. \<not> rejected nb (ucast v) \<and> unat v mod unat nb = r} = 65536 div unat nb"
proof -
  define n where "n = unat nb"
  define q where "q = 65536 div n"
  let ?A = "{v :: u16. \<not> rejected nb (ucast v) \<and> unat v mod n = r}"
  have thr: "65536 - 65536 mod n = q * n"
    unfolding q_def by (rule minus_mod_eq_div_mult)
  have acc: "\<not> rejected nb (ucast v) \<longleftrightarrow> unat v < q * n" for v :: u16
    by (simp only: accepted_iff n_def[symmetric] thr)
  have qn: "q * n \<le> 65536" unfolding q_def by (rule div_times_less_eq_dividend)
  have B: "unat ` ?A = {x. x < q * n \<and> x mod n = r}" (is "_ = ?B")
  proof
    show "unat ` ?A \<subseteq> ?B" unfolding acc by blast
    show "?B \<subseteq> unat ` ?A"
    proof
      fix x assume x: "x \<in> ?B"
      then have "x < q * n" by blast
      then have "x < 65536" using qn by (rule less_le_trans)
      then have u: "unat (of_nat x :: u16) = x" by (rule unat_of_nat_u16)
      have "unat (of_nat x :: u16) < q * n \<and> unat (of_nat x :: u16) mod n = r"
        unfolding u using x by blast
      then have "of_nat x \<in> ?A" unfolding acc by (rule CollectI)
      then have "unat (of_nat x :: u16) \<in> unat ` ?A" by (rule imageI)
      then show "x \<in> unat ` ?A" unfolding u .
    qed
  qed
  have I: "inj_on unat ?A" by (rule inj_on_subset[OF inj_unsigned]) simp
  have "card ?A = card (unat ` ?A)" using card_image[OF I] by simp
  also have "\<dots> = q"
    unfolding B using assms(3) by (intro card_residue_class) (simp only: n_def)
  finally show ?thesis unfolding q_def n_def .
qed

theorem rejection_unbiased_witness:
  "card {v :: u16. \<not> rejected 10 (ucast v) \<and> unat v mod unat (10 :: u32) = 3} = 65536 div unat (10 :: u32)"
  by (rule rejection_unbiased) simp_all

end
