(* ===== verification/Cstring.thy ===== *)
theory Cstring
  imports Prelude
begin

text \<open>
  Byte-addressed memory and the routines of \<^verbatim>\<open>src/string.c\<close>. A pointer is a \<open>u32\<close>, memory a
  function from addresses to bytes, pointer arithmetic wraps as on the machine. A routine that
  writes memory returns the new memory.
\<close>

type_synonym mem = "u32 \<Rightarrow> u8"

subsection \<open>Words in memory\<close>

definition load32 :: "mem \<Rightarrow> u32 \<Rightarrow> u32" where
  "load32 m a = ucast (m a) OR push_bit 8 (ucast (m (a + 1)))
     OR push_bit 16 (ucast (m (a + 2))) OR push_bit 24 (ucast (m (a + 3)))"

definition store32 :: "mem \<Rightarrow> u32 \<Rightarrow> u32 \<Rightarrow> mem" where
  "store32 m a v = m(a := ucast v, a + 1 := ucast (drop_bit 8 v),
     a + 2 := ucast (drop_bit 16 v), a + 3 := ucast (drop_bit 24 v))"

text \<open>The bytes of a range.\<close>

definition bytes :: "mem \<Rightarrow> u32 \<Rightarrow> nat \<Rightarrow> u8 list" where
  "bytes m a n = map (\<lambda>i. m (a + of_nat i)) [0..<n]"

subsection \<open>string.c\<close>

fun stosb :: "mem \<Rightarrow> u32 \<Rightarrow> u8 \<Rightarrow> nat \<Rightarrow> mem" where
  "stosb m addr data 0 = m"
| "stosb m addr data (Suc cnt) = stosb (m(addr := data)) (addr + 1) data cnt"

fun stosl :: "mem \<Rightarrow> u32 \<Rightarrow> u32 \<Rightarrow> nat \<Rightarrow> mem" where
  "stosl m addr data 0 = m"
| "stosl m addr data (Suc cnt) = stosl (store32 m addr data) (addr + 4) data cnt"

definition memset :: "mem \<Rightarrow> u32 \<Rightarrow> u32 \<Rightarrow> u32 \<Rightarrow> mem" where
  "memset m dst c n =
     (if dst mod 4 = 0 \<and> n mod 4 = 0
      then (let c = c AND 0xFF
            in stosl m dst (push_bit 24 c OR push_bit 16 c OR push_bit 8 c OR c) (unat (n div 4)))
      else stosb m dst (ucast c) (unat n))"

fun memcmp_loop :: "mem \<Rightarrow> u32 \<Rightarrow> u32 \<Rightarrow> nat \<Rightarrow> int" where
  "memcmp_loop m s1 s2 0 = 0"
| "memcmp_loop m s1 s2 (Suc n) =
     (if m s1 \<noteq> m s2 then uint (m s1) - uint (m s2) else memcmp_loop m (s1 + 1) (s2 + 1) n)"

definition memcmp :: "mem \<Rightarrow> u32 \<Rightarrow> u32 \<Rightarrow> u32 \<Rightarrow> int" where
  "memcmp m v1 v2 n = memcmp_loop m v1 v2 (unat n)"

fun copy_up :: "mem \<Rightarrow> u32 \<Rightarrow> u32 \<Rightarrow> nat \<Rightarrow> mem" where
  "copy_up m d s 0 = m"
| "copy_up m d s (Suc n) = copy_up (m(d := m s)) (d + 1) (s + 1) n"

fun copy_down :: "mem \<Rightarrow> u32 \<Rightarrow> u32 \<Rightarrow> nat \<Rightarrow> mem" where
  "copy_down m d s 0 = m"
| "copy_down m d s (Suc n) = copy_down (m(d - 1 := m (s - 1))) (d - 1) (s - 1) n"

definition memmove :: "mem \<Rightarrow> u32 \<Rightarrow> u32 \<Rightarrow> u32 \<Rightarrow> mem" where
  "memmove m dst src n =
     (if src < dst \<and> src + n > dst then copy_down m (dst + n) (src + n) (unat n)
      else copy_up m dst src (unat n))"

definition memcpy :: "mem \<Rightarrow> u32 \<Rightarrow> u32 \<Rightarrow> u32 \<Rightarrow> mem" where
  "memcpy m dst src n = memmove m dst src n"

fun strncmp_loop :: "mem \<Rightarrow> u32 \<Rightarrow> u32 \<Rightarrow> nat \<Rightarrow> int" where
  "strncmp_loop m p q 0 = 0"
| "strncmp_loop m p q (Suc n) =
     (if m p \<noteq> 0 \<and> m p = m q then strncmp_loop m (p + 1) (q + 1) n else uint (m p) - uint (m q))"

definition strncmp :: "mem \<Rightarrow> u32 \<Rightarrow> u32 \<Rightarrow> u32 \<Rightarrow> int" where
  "strncmp m p q n = strncmp_loop m p q (unat n)"

fun strncpy_loop :: "mem \<Rightarrow> u32 \<Rightarrow> u32 \<Rightarrow> nat \<Rightarrow> mem" where
  "strncpy_loop m s t 0 = m"
| "strncpy_loop m s t (Suc n) =
     (if m t \<noteq> 0 then strncpy_loop (m(s := m t)) (s + 1) (t + 1) n
      else stosb (m(s := m t)) (s + 1) 0 n)"

definition strncpy :: "mem \<Rightarrow> u32 \<Rightarrow> u32 \<Rightarrow> i32 \<Rightarrow> mem" where
  "strncpy m s t n = (if sint n \<le> 0 then m else strncpy_loop m s t (unat n))"

fun safestrcpy_loop :: "mem \<Rightarrow> u32 \<Rightarrow> u32 \<Rightarrow> nat \<Rightarrow> mem" where
  "safestrcpy_loop m s t 0 = m(s := 0)"
| "safestrcpy_loop m s t (Suc n) =
     (if m t \<noteq> 0 then safestrcpy_loop (m(s := m t)) (s + 1) (t + 1) n
      else (m(s := m t))(s + 1 := 0))"

definition safestrcpy :: "mem \<Rightarrow> u32 \<Rightarrow> u32 \<Rightarrow> i32 \<Rightarrow> mem" where
  "safestrcpy m s t n = (if sint n \<le> 0 then m else safestrcpy_loop m s t (unat n - 1))"

partial_function (option) strlen_loop :: "mem \<Rightarrow> u32 \<Rightarrow> i32 \<Rightarrow> i32 option" where
  "strlen_loop m s n = (if m (s + n) \<noteq> 0 then strlen_loop m s (n + 1) else Some n)"

definition strlen :: "mem \<Rightarrow> u32 \<Rightarrow> i32 option" where
  "strlen m s = strlen_loop m s 0"

subsection \<open>Ranges\<close>

text \<open>\<open>a - base < n\<close> says that \<open>a\<close> lies in the \<open>n\<close> bytes from \<open>base\<close>, wrap-around included.\<close>

lemma in_range_Suc:
  fixes a d :: u32
  assumes "n < 4294967295"
  shows "unat (a - d) < Suc n \<longleftrightarrow> a = d \<or> unat (a - (d + 1)) < n"
proof (cases "a = d")
  case False
  then have "unat (a - d) \<noteq> 0" by (simp add: unat_eq_0)
  have "a - (d + 1) = (a - d) - 1" by simp
  then have "unat (a - (d + 1)) = unat (a - d) - 1"
    using \<open>unat (a - d) \<noteq> 0\<close> by (metis One_nat_def unat_minus_one unat_0)
  then show ?thesis using False \<open>unat (a - d) \<noteq> 0\<close> by linarith
qed simp

lemma load32_store32_same [simp]: "load32 (store32 m a v) a = v"
proof (rule bit_word_eqI)
  fix n assume "n < LENGTH(32)"
  then consider "n < 8" | "8 \<le> n" "n < 16" | "16 \<le> n" "n < 24" | "24 \<le> n" "n < 32" by force
  then show "bit (load32 (store32 m a v) a) n = bit v n"
    by cases (auto simp: load32_def store32_def bit_simps)
qed

lemma stosb_apply:
  "n < 4294967296 \<Longrightarrow> stosb m d c n a = (if unat (a - d) < n then c else m a)"
proof (induction n arbitrary: m d)
  case (Suc n)
  have "stosb m d c (Suc n) a = (if unat (a - (d + 1)) < n then c else (m(d := c)) a)"
    using Suc by simp
  then show ?case using in_range_Suc[of n a d] Suc.prems by auto
qed simp

lemma stosb_add: "stosb m d c (n + k) = stosb (stosb m d c n) (d + of_nat n) c k"
  by (induction n arbitrary: m d) (simp_all add: algebra_simps)

lemma stosl_stosb:
  assumes "\<And>m a. store32 m a w = stosb m a c 4"
  shows "stosl m d w k = stosb m d c (4 * k)"
proof (induction k arbitrary: m d)
  case (Suc k)
  have "stosl m d w (Suc k) = stosb (stosb m d c 4) (d + 4) c (4 * k)"
    using Suc by (simp add: assms)
  also have "\<dots> = stosb m d c (4 + 4 * k)"
    using stosb_add[of m d c 4 "4 * k"] by simp
  finally show ?case by simp
qed simp

lemma fill_word_bytes:
  fixes c :: u32
  defines "w \<equiv> push_bit 24 (c AND 0xFF) OR push_bit 16 (c AND 0xFF) OR push_bit 8 (c AND 0xFF) OR (c AND 0xFF)"
  shows "store32 m a w = stosb m a (ucast c) 4"
proof -
  have m8: "(0xFF :: u32) = mask 8" by (simp add: mask_eq_exp_minus_1)
  have "(ucast w :: u8) = ucast c" "(ucast (drop_bit 8 w) :: u8) = ucast c"
    "(ucast (drop_bit 16 w) :: u8) = ucast c" "(ucast (drop_bit 24 w) :: u8) = ucast c"
    by (rule bit_word_eqI; auto simp: w_def m8 bit_simps)+
  then show ?thesis by (simp add: store32_def eval_nat_numeral algebra_simps)
qed

lemma memset_stosb: "memset m dst c n = stosb m dst (ucast c) (unat n)"
proof (cases "dst mod 4 = 0 \<and> n mod 4 = 0")
  case True
  have n4: "4 * unat (n div 4) = unat n"
  proof -
    have "unat (n mod 4) = unat n mod 4" by (simp add: unat_mod)
    then have "unat n mod 4 = 0" using True by simp
    moreover have "unat (n div 4) = unat n div 4" by (simp add: unat_div)
    ultimately show ?thesis by (metis dvd_eq_mod_eq_0 dvd_mult_div_cancel)
  qed
  show ?thesis
    using True stosl_stosb[OF fill_word_bytes, of m dst c "unat (n div 4)"]
    by (simp add: memset_def Let_def n4)
next
  case False
  show ?thesis unfolding memset_def by (rule if_not_P[OF False])
qed

lemma copy_up_apply:
  assumes "n < 4294967296" "unat (d - s) = 0 \<or> n \<le> unat (d - s)"
  shows "copy_up m d s n a = (if unat (a - d) < n then m (s + (a - d)) else m a)"
  using assms
proof (induction n arbitrary: m d s)
  case (Suc n)
  have IH: "copy_up (m(d := m s)) (d + 1) (s + 1) n a
      = (if unat (a - (d + 1)) < n then (m(d := m s)) (s + 1 + (a - (d + 1))) else (m(d := m s)) a)"
    using Suc.prems by (intro Suc.IH) auto
  have e: "s + 1 + (a - (d + 1)) = s + (a - d)" by simp
  show ?case
  proof (cases "a = d")
    case True
    have "unat (a - (d + 1)) = 4294967295"
      using True by (simp add: unsigned_minus_1_eq_mask mask_eq_exp_minus_1)
    then show ?thesis using IH True Suc.prems(1) by simp
  next
    case False
    have r: "unat (a - d) < Suc n \<longleftrightarrow> unat (a - (d + 1)) < n"
      using False in_range_Suc[of n a d] Suc.prems(1) by simp
    have "(m(d := m s)) (s + (a - d)) = m (s + (a - d))" if "unat (a - d) < Suc n"
    proof (cases "s + (a - d) = d")
      case True
      then have "a - d = d - s" by (simp add: algebra_simps)
      then have "s = d" using that Suc.prems(2) by (auto simp: unat_eq_0)
      then show ?thesis by simp
    qed simp
    then show ?thesis using IH r False unfolding e by simp
  qed
qed simp

lemma copy_down_apply:
  assumes "n < 4294967296" "unat (s - d) = 0 \<or> n \<le> unat (s - d)"
  shows "copy_down m d s n a = (if unat (a - (d - of_nat n)) < n then m (s - d + a) else m a)"
  using assms
proof (induction n arbitrary: m d s)
  case (Suc n)
  let ?m = "m(d - 1 := m (s - 1))"
  have IH: "copy_down ?m (d - 1) (s - 1) n a
      = (if unat (a - (d - 1 - of_nat n)) < n then ?m (s - 1 - (d - 1) + a) else ?m a)"
    using Suc.prems by (intro Suc.IH) auto
  have e: "s - 1 - (d - 1) + a = s - d + a" "d - of_nat (Suc n) = d - 1 - of_nat n" by (simp_all add: algebra_simps)
  let ?b = "d - 1 - of_nat n"
  show ?case
  proof (cases "a = d - 1")
    case True
    have "unat (a - ?b) = n" using True Suc.prems(1) by (simp add: unat_of_nat_u32)
    then show ?thesis using IH True unfolding e by simp
  next
    case False
    have "unat (a - ?b) \<noteq> n"
    proof
      assume "unat (a - ?b) = n"
      then have "a - ?b = of_nat n" by (metis of_nat_unat ucast_id)
      then show False using False by (simp add: algebra_simps)
    qed
    then have r: "unat (a - ?b) < Suc n \<longleftrightarrow> unat (a - ?b) < n" by linarith
    have "?m (s - d + a) = m (s - d + a)" if lt: "unat (a - ?b) < n"
    proof (cases "s - d + a = d - 1")
      case True
      have sd: "s - d = of_nat n - (a - ?b)" using True by (simp add: algebra_simps)
      have "a - ?b \<le> of_nat n"
        using lt Suc.prems(1) by (simp add: word_le_nat_alt unat_of_nat_u32)
      then have "unat (of_nat n - (a - ?b) :: u32) = unat (of_nat n :: u32) - unat (a - ?b)"
        by (rule unat_sub)
      moreover have "unat (of_nat n :: u32) = n" using Suc.prems(1) by (intro unat_of_nat_u32) simp
      ultimately have "unat (s - d) \<le> n" unfolding sd by linarith
      then have "s = d" using Suc.prems(2) by (auto simp: unat_eq_0)
      then show ?thesis by simp
    qed simp
    then show ?thesis using IH r False unfolding e by simp
  qed
qed simp

lemma range_no_wrap:
  fixes d s :: u32
  assumes "d < s" "unat s + n \<le> 4294967296"
  shows "n \<le> unat (d - s)"
proof -
  have "unat (d - s) = unat d + 4294967296 - unat s"
    using assms(1) by (simp add: unat_sub_if_size word_less_nat_alt wsst_TYs(3))
  then show ?thesis using assms(2) by linarith
qed

text \<open>
  C14. \<open>memmove\<close> copies correctly for every overlap of source and destination: afterwards each
  byte of the destination is the byte the source held before the call, and no other byte has
  changed. (Neither range may run past the top of the address space.)
\<close>

theorem memmove_correct:
  assumes "unat src + unat n < 4294967296" "unat dst + unat n \<le> 4294967296"
  shows "memmove m dst src n = (\<lambda>a. if a - dst < n then m (src + (a - dst)) else m a)"
proof
  fix a
  have n: "unat n < 4294967296" by (rule unat_u32_bound)
  have sn: "unat (src + n) = unat src + unat n" using assms(1) by (simp add: unat_word_ariths)
  show "memmove m dst src n a = (if a - dst < n then m (src + (a - dst)) else m a)"
  proof (cases "src < dst \<and> src + n > dst")
    case True
    have "unat n \<le> unat (src + n - (dst + n))"
      using range_no_wrap[of src dst "unat n"] True assms(2) by simp
    from copy_down_apply[OF n disjI2[OF this], of m a]
    show ?thesis using True by (simp add: memmove_def word_less_nat_alt algebra_simps)
  next
    case False
    have "unat (dst - src) = 0 \<or> unat n \<le> unat (dst - src)"
    proof (cases "src \<le> dst")
      case True
      have "unat (dst - src) = unat dst - unat src" using True by (rule unat_sub)
      then show ?thesis using True False sn by (auto simp: word_less_nat_alt word_le_nat_alt not_less)
    next
      case F: False
      then show ?thesis using range_no_wrap[of dst src "unat n"] assms(1) by simp
    qed
    from copy_up_apply[OF n this, of m a]
    have "copy_up m dst src (unat n) a = (if a - dst < n then m (src + (a - dst)) else m a)"
      by (simp only: word_less_nat_alt)
    moreover have "memmove m dst src n = copy_up m dst src (unat n)"
      unfolding memmove_def by (rule if_not_P[OF False])
    ultimately show ?thesis by (simp only:)
  qed
qed

theorem memmove_correct_witness:
  "memmove (\<lambda>a. ucast a) 102 100 8 = (\<lambda>a. if a - 102 < 8 then ucast (100 + (a - 102)) else ucast a)"
  by (rule memmove_correct) simp_all

text \<open>
  C15. \<open>memset\<close> fills exactly the range with the low byte of its argument, whichever of its two
  loops (words or bytes) the alignment selects.
\<close>

theorem memset_correct:
  "memset m dst c n = (\<lambda>a. if a - dst < n then ucast c else m a)"
  by (rule ext) (simp add: memset_stosb stosb_apply unat_u32_bound word_less_nat_alt)

subsection \<open>Strings\<close>

text \<open>The C string at the front of a byte array: the bytes before the first NUL.\<close>

definition cstr :: "u8 list \<Rightarrow> u8 list" where
  "cstr xs = takeWhile (\<lambda>c. c \<noteq> 0) xs"

lemma length_bytes [simp]: "length (bytes m a n) = n"
  by (simp add: bytes_def)

lemma nth_bytes [simp]: "i < n \<Longrightarrow> bytes m a n ! i = m (a + of_nat i)"
  by (simp add: bytes_def)

lemma bytes_0 [simp]: "bytes m a 0 = []"
  by (simp add: bytes_def)

lemma bytes_Suc: "bytes m a (Suc n) = m a # bytes m (a + 1) n"
  by (rule nth_equalityI) (auto simp: nth_Cons algebra_simps split: nat.splits)

lemma bytes_cong: "(\<And>i. i < n \<Longrightarrow> m (a + of_nat i) = m' (a + of_nat i)) \<Longrightarrow> bytes m a n = bytes m' a n"
  by (simp add: bytes_def)

lemma cstr_Cons [simp]: "cstr (x # xs) = (if x = 0 then [] else x # cstr xs)" "cstr [] = []"
  by (simp_all add: cstr_def)

lemma uint_u8_eq: "uint (x :: u8) = uint y \<longleftrightarrow> x = y"
  by (rule iffI) (simp_all add: word_uint_eqI)

lemma strncmp_loop_zero: "strncmp_loop m p q n = 0 \<longleftrightarrow> cstr (bytes m p n) = cstr (bytes m q n)"
proof (induction n arbitrary: p q)
  case (Suc n)
  have z: "uint x \<noteq> 0" if "x \<noteq> 0" for x :: u8
    using that uint_u8_eq[of x 0] by simp
  show ?case using Suc[of "p + 1" "q + 1"] by (auto simp: bytes_Suc uint_u8_eq dest: z)
qed simp

text \<open>
  \<open>strncmp\<close> returns 0 exactly when the two strings, cut at \<open>n\<close> bytes or at their NUL, are equal.
\<close>

lemma strncmp_zero_iff:
  "strncmp m p q n = 0 \<longleftrightarrow> cstr (bytes m p (unat n)) = cstr (bytes m q (unat n))"
  by (simp add: strncmp_def strncmp_loop_zero)

text \<open>Two ranges of \<open>n\<close> bytes do not meet.\<close>

definition disjoint_ranges :: "u32 \<Rightarrow> u32 \<Rightarrow> nat \<Rightarrow> bool" where
  "disjoint_ranges s t n \<longleftrightarrow> (\<forall>i<n. \<forall>j<n. s + of_nat i \<noteq> t + of_nat j)"

lemma disjoint_ranges_Suc:
  assumes "disjoint_ranges s t (Suc n)"
  shows "disjoint_ranges (s + 1) (t + 1) n" "s \<noteq> t" "i < n \<Longrightarrow> s \<noteq> t + 1 + of_nat i"
proof -
  have d: "s + of_nat i \<noteq> t + of_nat j" if "i < Suc n" "j < Suc n" for i j
    using assms that by (simp add: disjoint_ranges_def)
  show "disjoint_ranges (s + 1) (t + 1) n"
    using d[of "Suc _" "Suc _"] by (simp add: disjoint_ranges_def add.assoc)
  show "s \<noteq> t" using d[of 0 0] by simp
  show "i < n \<Longrightarrow> s \<noteq> t + 1 + of_nat i" using d[of 0 "Suc i"] by (simp add: add.assoc)
qed

lemma stosb_bytes: "n < 4294967296 \<Longrightarrow> bytes (stosb m a c n) a n = replicate n c"
  by (rule nth_equalityI) (simp_all add: stosb_apply unat_of_nat_u32)

lemma stosb_below: "n < 4294967295 \<Longrightarrow> stosb m (s + 1) c n s = m s"
  by (simp add: stosb_apply unsigned_minus_1_eq_mask mask_eq_exp_minus_1)

lemma strncpy_loop_outside:
  "n < 4294967296 \<Longrightarrow> \<not> unat (a - s) < n \<Longrightarrow> strncpy_loop m s t n a = m a"
proof (induction n arbitrary: m s t)
  case (Suc n)
  then have "a \<noteq> s" "\<not> unat (a - (s + 1)) < n" using in_range_Suc[of n a s] by auto
  then show ?case using Suc.prems(1) Suc.IH[of "s + 1"] by (simp add: stosb_apply)
qed simp

lemma strncpy_loop_bytes:
  assumes "n < 4294967296" "disjoint_ranges s t n"
  shows "bytes (strncpy_loop m s t n) s n =
    (let c = cstr (bytes m t n) in c @ replicate (n - length c) 0)"
  using assms
proof (induction n arbitrary: m s t)
  case (Suc n)
  note dj = disjoint_ranges_Suc[OF Suc.prems(2)]
  have out: "unat (s - (s + 1)) = 4294967295"
    by (simp add: unsigned_minus_1_eq_mask mask_eq_exp_minus_1)
  show ?case
  proof (cases "m t = 0")
    case True
    have "bytes (stosb (m(s := 0)) (s + 1) 0 n) (s + 1) n = replicate n 0"
      using Suc.prems(1) by (intro stosb_bytes) simp
    then show ?thesis using True Suc.prems(1) by (simp add: bytes_Suc stosb_below)
  next
    case False
    let ?m = "m(s := m t)"
    have src: "bytes ?m (t + 1) n = bytes m (t + 1) n"
      by (rule bytes_cong) (use dj(3) in auto)
    have "bytes (strncpy_loop ?m (s + 1) (t + 1) n) (s + 1) n =
        (let c = cstr (bytes ?m (t + 1) n) in c @ replicate (n - length c) 0)"
      using Suc.prems(1) dj(1) by (intro Suc.IH) simp_all
    moreover have "strncpy_loop ?m (s + 1) (t + 1) n s = ?m s"
      using Suc.prems(1) out by (intro strncpy_loop_outside) auto
    ultimately show ?thesis using False by (simp add: bytes_Suc src Let_def)
  qed
qed simp

lemma unat_i32_pos: "0 < sint (n :: i32) \<Longrightarrow> 0 < unat n \<and> unat n < 2147483648"
  using unat_of_sint[of n] unat_sint_bound[of n] by (auto simp: unat_gt_0)

text \<open>
  C17. \<open>strncpy\<close> into a range that does not meet the source writes exactly \<open>n\<close> bytes: the source
  string cut at \<open>n\<close> bytes, then NULs up to \<open>n\<close>; no byte outside the range changes.
\<close>

theorem strncpy_correct:
  assumes "0 < sint n" "disjoint_ranges s t (unat n)"
  shows "bytes (strncpy m s t n) s (unat n) =
      (let c = cstr (bytes m t (unat n)) in c @ replicate (unat n - length c) 0) \<and>
    (\<forall>a. unat n \<le> unat (a - s) \<longrightarrow> strncpy m s t n a = m a)"
proof -
  have n: "unat n < 4294967296" using unat_i32_pos[OF assms(1)] by simp
  have c: "strncpy m s t n = strncpy_loop m s t (unat n)" using assms(1) by (simp add: strncpy_def)
  show ?thesis
    unfolding c using strncpy_loop_bytes[OF n assms(2)] strncpy_loop_outside[OF n] by simp
qed

lemma bytes_numeral [simp]:
  "bytes m a 3 = [m a, m (a + 1), m (a + 2)]" "bytes m a 2 = [m a, m (a + 1)]"
  by (simp_all add: numeral_eq_Suc bytes_Suc add.assoc)

lemma disjoint_demo: "disjoint_ranges 50 100 3"
  unfolding disjoint_ranges_def numeral_3_eq_3 by (simp add: All_less_Suc)

theorem strncpy_correct_witness:
  "bytes (strncpy (\<lambda>a. if a = 100 then 7 else if a = 102 then 9 else 0) 50 100 3) 50 3 = [7, 0, 0]"
proof -
  have "unat (3 :: i32) = 3" "replicate 2 (0 :: u8) = [0, 0]" by (simp, simp only: numeral_2_eq_2 replicate.simps)
  then show ?thesis
    using strncpy_correct[of 3 50 100 "\<lambda>a. if a = 100 then 7 else if a = 102 then 9 else 0"] disjoint_demo
    by (simp add: Let_def)
qed

lemma safestrcpy_loop_outside:
  "n < 4294967295 \<Longrightarrow> \<not> unat (a - s) < Suc n \<Longrightarrow> safestrcpy_loop m s t n a = m a"
proof (induction n arbitrary: m s t)
  case (Suc n)
  then have "a \<noteq> s" "\<not> unat (a - (s + 1)) < Suc n"
    using in_range_Suc[of "Suc n" a s] by auto
  then show ?case using Suc.prems(1) Suc.IH[of "s + 1"] by auto
qed auto

lemma safestrcpy_loop_bytes:
  assumes "n < 4294967295" "disjoint_ranges s t (Suc n)"
  shows "cstr (bytes (safestrcpy_loop m s t n) s (Suc n)) = cstr (bytes m t n)"
  using assms
proof (induction n arbitrary: m s t)
  case 0
  then show ?case by (simp add: bytes_Suc)
next
  case (Suc n)
  note dj = disjoint_ranges_Suc[OF Suc.prems(2)]
  have out: "unat (s - (s + 1)) = 4294967295"
    by (simp add: unsigned_minus_1_eq_mask mask_eq_exp_minus_1)
  show ?case
  proof (cases "m t = 0")
    case True
    then show ?thesis by (simp add: bytes_Suc)
  next
    case False
    let ?m = "m(s := m t)"
    have src: "bytes ?m (t + 1) n = bytes m (t + 1) n"
    proof (rule bytes_cong)
      fix i assume "i < n"
      then have "s \<noteq> t + 1 + of_nat i" by (intro dj(3)) simp
      then show "?m (t + 1 + of_nat i) = m (t + 1 + of_nat i)" by simp
    qed
    have "cstr (bytes (safestrcpy_loop ?m (s + 1) (t + 1) n) (s + 1) (Suc n)) = cstr (bytes ?m (t + 1) n)"
      using Suc.prems(1) dj(1) by (intro Suc.IH) simp_all
    moreover have "safestrcpy_loop ?m (s + 1) (t + 1) n s = ?m s"
      using Suc.prems(1) out by (intro safestrcpy_loop_outside) auto
    ultimately show ?thesis using False by (simp add: bytes_Suc[of _ s] bytes_Suc[of _ t] src)
  qed
qed

text \<open>
  C18. \<open>safestrcpy\<close> always leaves a NUL-terminated string: it is the source string cut at \<open>n - 1\<close>
  bytes, and no byte outside the \<open>n\<close> bytes of the destination changes.
\<close>

theorem safestrcpy_terminates_string:
  assumes "0 < sint n" "disjoint_ranges s t (unat n)"
  shows "cstr (bytes (safestrcpy m s t n) s (unat n)) = cstr (bytes m t (unat n - 1)) \<and>
    length (cstr (bytes (safestrcpy m s t n) s (unat n))) < unat n \<and>
    (\<forall>a. unat n \<le> unat (a - s) \<longrightarrow> safestrcpy m s t n a = m a)"
proof -
  define k where "k = unat n - 1"
  have k: "unat n = Suc k" "k < 4294967295" using unat_i32_pos[OF assms(1)] unfolding k_def by linarith+
  have c: "safestrcpy m s t n = safestrcpy_loop m s t k"
    using assms(1) by (simp add: safestrcpy_def k_def)
  have "length (cstr (bytes m t k)) \<le> k" by (metis cstr_def length_bytes length_takeWhile_le)
  then show ?thesis
    using safestrcpy_loop_bytes[OF k(2), of s t m] safestrcpy_loop_outside[OF k(2)] assms(2)
    unfolding c k(1) by simp
qed

theorem safestrcpy_terminates_string_witness:
  "cstr (bytes (safestrcpy (\<lambda>a. if a < 200 then 7 else 0) 50 100 3) 50 3) = [7, 7]"
proof -
  have "unat (3 :: i32) = 3" by simp
  then show ?thesis
    using safestrcpy_terminates_string[of 3 50 100 "\<lambda>a. if a < 200 then 7 else 0"] disjoint_demo
    by simp
qed

lemma strlen_loop_Some:
  assumes "m (s + n + of_nat k) = 0" "\<forall>j<k. m (s + n + of_nat j) \<noteq> 0"
  shows "strlen_loop m s n = Some (n + of_nat k)"
  using assms
proof (induction k arbitrary: n)
  case 0
  then show ?case by (simp add: strlen_loop.simps)
next
  case (Suc k)
  have "m (s + n) \<noteq> 0" using Suc.prems(2) by force
  moreover have "m (s + (n + 1) + of_nat j) \<noteq> 0" if "j < k" for j
    using Suc.prems(2)[rule_format, of "Suc j"] that by (simp add: ac_simps)
  then have "strlen_loop m s (n + 1) = Some (n + 1 + of_nat k)"
    using Suc.prems(1) by (intro Suc.IH) (simp_all add: ac_simps)
  ultimately show ?case by (subst strlen_loop.simps) (simp add: ac_simps)
qed

lemma strlen_first_NUL:
  "m (s + of_nat k) = 0 \<Longrightarrow> \<forall>j<k. m (s + of_nat j) \<noteq> 0 \<Longrightarrow> strlen m s = Some (of_nat k)"
  using strlen_loop_Some[of m s 0 k] by (simp add: strlen_def)

end
