(* ===== verification/Spinlock.thy ===== *)
theory Spinlock
  imports Prelude
begin

text \<open>
  Spin locks and interrupt nesting (\<^verbatim>\<open>src/spinlock.c\<close>, \<^verbatim>\<open>src/spinlock.h\<close>, and \<^verbatim>\<open>mycpu\<close> of
  \<^verbatim>\<open>src/proc.c\<close>) on a machine with several CPUs.

  An operation runs on the CPU whose local APIC id is its first argument; \<open>eflags\<close> holds the
  flags register of each CPU under that id. \<open>acquire\<close> and \<open>release\<close> are split where another
  CPU can interleave: before the atomic \<^verbatim>\<open>xchg\<close>, after it, and before the store that frees the
  lock. \<open>acquire\<close> itself, run with no other CPU moving, diverges on a lock that is taken.
\<close>

subsection \<open>Data\<close>

text \<open>
  Of \<^verbatim>\<open>struct cpu\<close> the fields that the locks use. The nesting depth is an integer without bound: it is the
  number of locks held and of open \<^verbatim>\<open>pushcli\<close> calls, far below \<open>2 ^ 31\<close>.
\<close>

record cpu =
  cpu_apicid :: u8
  cpu_started :: u32
  cpu_ncli :: int
  cpu_intena :: u32

record spinlock =
  sl_locked :: u32
  sl_name :: string
  sl_cpu :: "nat option"
  sl_pcs :: "u32 list"

record mach =
  cpus :: "cpu list"
  eflags :: "u8 \<Rightarrow> u32"
  locks :: "lockid \<Rightarrow> spinlock"
  stack :: "u32 \<Rightarrow> u32"

definition FL_IF :: u32 where "FL_IF = 0x200"

definition KERNBASE :: u32 where "KERNBASE = 0x80000000"

subsection \<open>Operations\<close>

definition mycpu :: "u8 \<Rightarrow> (mach, nat) kprog" where
  "mycpu a =
     kbind (kgets (\<lambda>m. eflags m a)) (\<lambda>f.
     if f AND FL_IF \<noteq> 0 then kpanic ''mycpu called with interrupts enabled\<newline>''
     else kbind (kgets (\<lambda>m. find_index (\<lambda>c. cpu_apicid c = a) (cpus m))) (\<lambda>r.
     case r of Some i \<Rightarrow> kreturn i | None \<Rightarrow> kpanic ''unknown apicid\<newline>''))"

definition cpuid :: "u8 \<Rightarrow> (mach, nat) kprog" where
  "cpuid a = mycpu a"

definition cli :: "u8 \<Rightarrow> (mach, unit) kprog" where
  "cli a = kmodify (\<lambda>m. m\<lparr>eflags := (eflags m)(a := eflags m a AND NOT FL_IF)\<rparr>)"

definition sti :: "u8 \<Rightarrow> (mach, unit) kprog" where
  "sti a = kmodify (\<lambda>m. m\<lparr>eflags := (eflags m)(a := eflags m a OR FL_IF)\<rparr>)"

definition pushcli :: "u8 \<Rightarrow> (mach, unit) kprog" where
  "pushcli a =
     kbind (kgets (\<lambda>m. eflags m a)) (\<lambda>f.
     kbind (cli a) (\<lambda>_.
     kbind (mycpu a) (\<lambda>i.
     kbind (kgets (\<lambda>m. cpu_ncli (cpus m ! i))) (\<lambda>n.
     kbind (kwhen (n = 0) (kmodify (\<lambda>m. m\<lparr>cpus := upd_at i (\<lambda>c. c\<lparr>cpu_intena := f AND FL_IF\<rparr>) (cpus m)\<rparr>))) (\<lambda>_.
     kmodify (\<lambda>m. m\<lparr>cpus := upd_at i (\<lambda>c. c\<lparr>cpu_ncli := cpu_ncli c + 1\<rparr>) (cpus m)\<rparr>))))))"

definition popcli :: "u8 \<Rightarrow> (mach, unit) kprog" where
  "popcli a =
     kbind (kgets (\<lambda>m. eflags m a)) (\<lambda>f.
     if f AND FL_IF \<noteq> 0 then kpanic ''popcli - interruptible''
     else
     kbind (mycpu a) (\<lambda>i.
     kbind (kmodify (\<lambda>m. m\<lparr>cpus := upd_at i (\<lambda>c. c\<lparr>cpu_ncli := cpu_ncli c - 1\<rparr>) (cpus m)\<rparr>)) (\<lambda>_.
     kbind (kgets (\<lambda>m. cpus m ! i)) (\<lambda>c.
     if cpu_ncli c < 0 then kpanic ''popcli''
     else kwhen (cpu_ncli c = 0 \<and> cpu_intena c \<noteq> 0) (sti a)))))"

definition holding :: "u8 \<Rightarrow> lockid \<Rightarrow> (mach, bool) kprog" where
  "holding a l =
     kbind (pushcli a) (\<lambda>_.
     kbind (mycpu a) (\<lambda>i.
     kbind (kgets (\<lambda>m. sl_locked (locks m l) \<noteq> 0 \<and> sl_cpu (locks m l) = Some i)) (\<lambda>r.
     kbind (popcli a) (\<lambda>_.
     kreturn r))))"

definition initlock :: "lockid \<Rightarrow> string \<Rightarrow> (mach, unit) kprog" where
  "initlock l nm = kmodify (\<lambda>m. m\<lparr>locks := (locks m)(l := (locks m l)\<lparr>sl_name := nm, sl_locked := 0, sl_cpu := None\<rparr>)\<rparr>)"

text \<open>The frame-pointer walk: \<open>rd\<close> reads the word at an address.\<close>

fun caller_pcs :: "(u32 \<Rightarrow> u32) \<Rightarrow> nat \<Rightarrow> u32 \<Rightarrow> u32 list" where
  "caller_pcs rd 0 ebp = []"
| "caller_pcs rd (Suc n) ebp =
     (if ebp = 0 \<or> ebp < KERNBASE \<or> ebp = 0xffffffff then replicate (Suc n) 0
      else rd (ebp + 4) # caller_pcs rd n (rd ebp))"

definition getcallerpcs :: "(u32 \<Rightarrow> u32) \<Rightarrow> u32 \<Rightarrow> u32 list" where
  "getcallerpcs rd v = caller_pcs rd 10 (v - 8)"

text \<open>\<open>acquire\<close> in the pieces another CPU can come between.\<close>

definition acquire_enter :: "u8 \<Rightarrow> lockid \<Rightarrow> (mach, unit) kprog" where
  "acquire_enter a l =
     kbind (pushcli a) (\<lambda>_.
     kbind (holding a l) (\<lambda>h.
     if h then kpanic ''acquire'' else kreturn ()))"

definition xchg_locked :: "lockid \<Rightarrow> u32 \<Rightarrow> (mach, u32) kprog" where
  "xchg_locked l v =
     kbind (kgets (\<lambda>m. sl_locked (locks m l))) (\<lambda>old.
     kbind (kmodify (\<lambda>m. m\<lparr>locks := (locks m)(l := (locks m l)\<lparr>sl_locked := v\<rparr>)\<rparr>)) (\<lambda>_.
     kreturn old))"

definition acquire_done :: "u8 \<Rightarrow> u32 \<Rightarrow> lockid \<Rightarrow> (mach, unit) kprog" where
  "acquire_done a frame l =
     kbind (mycpu a) (\<lambda>i.
     kmodify (\<lambda>m. m\<lparr>locks := (locks m)(l := (locks m l)\<lparr>sl_cpu := Some i,
                          sl_pcs := getcallerpcs (stack m) frame\<rparr>)\<rparr>))"

definition acquire :: "u8 \<Rightarrow> u32 \<Rightarrow> lockid \<Rightarrow> (mach, unit) kprog" where
  "acquire a frame l =
     kbind (acquire_enter a l) (\<lambda>_.
     kbind (xchg_locked l 1) (\<lambda>old.
     if old \<noteq> 0 then (\<lambda>m. Diverge) else acquire_done a frame l))"

definition release_begin :: "u8 \<Rightarrow> lockid \<Rightarrow> (mach, unit) kprog" where
  "release_begin a l =
     kbind (holding a l) (\<lambda>h.
     if \<not> h then kpanic ''release''
     else kmodify (\<lambda>m. m\<lparr>locks := (locks m)(l := (locks m l)\<lparr>sl_pcs := (sl_pcs (locks m l))[0 := 0],
                              sl_cpu := None\<rparr>)\<rparr>))"

definition release_end :: "u8 \<Rightarrow> lockid \<Rightarrow> (mach, unit) kprog" where
  "release_end a l =
     kbind (kmodify (\<lambda>m. m\<lparr>locks := (locks m)(l := (locks m l)\<lparr>sl_locked := 0\<rparr>)\<rparr>)) (\<lambda>_.
     popcli a)"

definition release :: "u8 \<Rightarrow> lockid \<Rightarrow> (mach, unit) kprog" where
  "release a l = kbind (release_begin a l) (\<lambda>_. release_end a l)"

lemmas spin_defs = mycpu_def cli_def sti_def pushcli_def popcli_def holding_def
  acquire_enter_def xchg_locked_def acquire_done_def acquire_def release_begin_def
  release_end_def release_def

subsection \<open>Flags\<close>

lemma bit_FL_IF [simp]: "bit FL_IF n \<longleftrightarrow> n = 9"
proof -
  have f: "FL_IF = 2 ^ 9" by (simp add: FL_IF_def)
  show ?thesis unfolding f bit_exp_iff possible_bit_word by auto
qed

lemma and_FL_IF [simp]: "f AND FL_IF \<noteq> 0 \<longleftrightarrow> bit f 9" "f AND FL_IF = 0 \<longleftrightarrow> \<not> bit f 9"
proof -
  have "f AND FL_IF = (if bit f 9 then FL_IF else 0)"
    by (rule bit_word_eqI) (auto simp: bit_simps)
  then show "f AND FL_IF \<noteq> 0 \<longleftrightarrow> bit f 9" "f AND FL_IF = 0 \<longleftrightarrow> \<not> bit f 9"
    by (simp_all add: FL_IF_def)
qed

lemma bit_cli [simp]: "\<not> bit (f AND NOT FL_IF) 9"
  by (simp add: bit_simps)

lemma bit_sti [simp]: "bit (f OR FL_IF) 9"
  by (simp add: bit_simps)

lemma cli_idem [simp]: "\<not> bit f 9 \<Longrightarrow> f AND NOT FL_IF = f"
  by (rule bit_word_eqI) (auto simp: bit_simps)

lemma cli_sti [simp]: "bit f 9 \<Longrightarrow> (f AND NOT FL_IF) OR FL_IF = f"
  by (rule bit_word_eqI) (auto simp: bit_simps)

subsection \<open>The operations run\<close>

abbreviation cpu_of :: "mach \<Rightarrow> u8 \<Rightarrow> nat option" where
  "cpu_of m a \<equiv> find_index (\<lambda>c. cpu_apicid c = a) (cpus m)"

abbreviation ncli_of :: "mach \<Rightarrow> u8 \<Rightarrow> int" where
  "ncli_of m a \<equiv> cpu_ncli (cpus m ! the (cpu_of m a))"

lemma find_index_map_cong:
  "map f xs = map f ys \<Longrightarrow> find_index (\<lambda>x. f x = a) xs = find_index (\<lambda>x. f x = a) ys"
proof (induction xs arbitrary: ys)
  case (Cons x xs)
  then show ?case by (cases ys) auto
qed auto

lemma cpu_of_upd [simp]:
  assumes "\<And>c. cpu_apicid (g c) = cpu_apicid c"
  shows "find_index (\<lambda>c. cpu_apicid c = a) (upd_at i g xs) = find_index (\<lambda>c. cpu_apicid c = a) xs"
  by (rule find_index_map_cong) (simp add: assms)

lemma mycpu_run: "\<not> bit (eflags m a) 9 \<Longrightarrow> cpu_of m a = Some i \<Longrightarrow> mycpu a m = Ok i m"
  by (simp add: mycpu_def)

lemma pushcli_run:
  assumes "cpu_of m a = Some i"
  shows "pushcli a m = Ok () (m\<lparr>eflags := (eflags m)(a := eflags m a AND NOT FL_IF),
      cpus := upd_at i (\<lambda>c. c\<lparr>
          cpu_intena := (if cpu_ncli c = 0 then eflags m a AND FL_IF else cpu_intena c),
          cpu_ncli := cpu_ncli c + 1\<rparr>) (cpus m)\<rparr>)"
  using find_index_SomeD(1)[OF assms] assms
  by (auto simp: pushcli_def cli_def mycpu_run kwhen_def intro!: upd_at_cong arg_cong[of _ _ "\<lambda>c. m\<lparr>eflags := _, cpus := c\<rparr>"])

lemma popcli_run:
  assumes "cpu_of m a = Some i" "\<not> bit (eflags m a) 9" "0 < cpu_ncli (cpus m ! i)"
  shows "popcli a m = Ok () (m\<lparr>
      cpus := upd_at i (\<lambda>c. c\<lparr>cpu_ncli := cpu_ncli c - 1\<rparr>) (cpus m),
      eflags := (if cpu_ncli (cpus m ! i) = 1 \<and> cpu_intena (cpus m ! i) \<noteq> 0
                 then (eflags m)(a := eflags m a OR FL_IF) else eflags m)\<rparr>)"
  using find_index_SomeD(1)[OF assms(1)] assms
  by (simp add: popcli_def sti_def mycpu_run kwhen_def)

lemma holding_run:
  assumes "cpu_of m a = Some i" "\<not> bit (eflags m a) 9" "0 < cpu_ncli (cpus m ! i)"
  shows "holding a l m = Ok (sl_locked (locks m l) \<noteq> 0 \<and> sl_cpu (locks m l) = Some i) m"
proof -
  have i: "i < length (cpus m)" using assms(1) by (rule find_index_SomeD)
  have "upd_at i (\<lambda>c. c\<lparr>cpu_intena := (if cpu_ncli c = 0 then eflags m a AND FL_IF else cpu_intena c)\<rparr>) (cpus m) = cpus m"
    using assms(3) i by (simp add: upd_at_def)
  then show ?thesis using assms i
    by (simp add: holding_def pushcli_run mycpu_run popcli_run)
qed

lemma acquire_enter_run:
  assumes "cpu_of m a = Some i" "0 \<le> cpu_ncli (cpus m ! i)" "sl_cpu (locks m l) \<noteq> Some i"
  shows "acquire_enter a l m = Ok () (m\<lparr>eflags := (eflags m)(a := eflags m a AND NOT FL_IF),
      cpus := upd_at i (\<lambda>c. c\<lparr>
          cpu_intena := (if cpu_ncli c = 0 then eflags m a AND FL_IF else cpu_intena c),
          cpu_ncli := cpu_ncli c + 1\<rparr>) (cpus m)\<rparr>)"
  using assms find_index_SomeD(1)[OF assms(1)]
  by (simp add: acquire_enter_def pushcli_run holding_run)

lemma acquire_done_run:
  assumes "cpu_of m a = Some i" "\<not> bit (eflags m a) 9"
  shows "acquire_done a fr l m = Ok () (m\<lparr>locks := (locks m)(l := (locks m l)\<lparr>sl_cpu := Some i,
           sl_pcs := getcallerpcs (stack m) fr\<rparr>)\<rparr>)"
  using assms by (simp add: acquire_done_def mycpu_run)

lemma release_begin_run:
  assumes "cpu_of m a = Some i" "\<not> bit (eflags m a) 9" "0 < cpu_ncli (cpus m ! i)"
    "sl_locked (locks m l) \<noteq> 0" "sl_cpu (locks m l) = Some i"
  shows "release_begin a l m = Ok () (m\<lparr>locks := (locks m)(l := (locks m l)\<lparr>
           sl_pcs := (sl_pcs (locks m l))[0 := 0], sl_cpu := None\<rparr>)\<rparr>)"
  using assms by (simp add: release_begin_def holding_run)

lemma release_end_run:
  assumes "cpu_of m a = Some i" "\<not> bit (eflags m a) 9" "0 < cpu_ncli (cpus m ! i)"
  shows "release_end a l m = Ok () (m\<lparr>
      locks := (locks m)(l := (locks m l)\<lparr>sl_locked := 0\<rparr>),
      cpus := upd_at i (\<lambda>c. c\<lparr>cpu_ncli := cpu_ncli c - 1\<rparr>) (cpus m),
      eflags := (if cpu_ncli (cpus m ! i) = 1 \<and> cpu_intena (cpus m ! i) \<noteq> 0
                 then (eflags m)(a := eflags m a OR FL_IF) else eflags m)\<rparr>)"
  using assms by (simp add: release_end_def popcli_run)

subsection \<open>Several CPUs\<close>

text \<open>
  Where each CPU is in the lock code, and (a ghost list) which locks it has acquired and not
  yet begun to release, the most recent first.
\<close>

datatype spin_pc = Running | Spinning lockid | Taken lockid | Freeing lockid

record spin_sys =
  sys_mach :: mach
  pc :: "u8 \<Rightarrow> spin_pc"
  owns :: "u8 \<Rightarrow> lockid list"

text \<open>
  One step of one CPU. \<open>flags\<close> is anything the CPU does to its interrupt flag while it is in no
  critical section (\<^verbatim>\<open>sti\<close>, a trap, a return to user space).
\<close>

inductive spin_step :: "spin_sys \<Rightarrow> spin_sys \<Rightarrow> bool" where
  enter: "pc s a = Running \<Longrightarrow> acquire_enter a l (sys_mach s) = Ok () m \<Longrightarrow>
     spin_step s (s\<lparr>sys_mach := m, pc := (pc s)(a := Spinning l)\<rparr>)"
| spin: "pc s a = Spinning l \<Longrightarrow> xchg_locked l 1 (sys_mach s) = Ok old m \<Longrightarrow> old \<noteq> 0 \<Longrightarrow>
     spin_step s (s\<lparr>sys_mach := m\<rparr>)"
| take: "pc s a = Spinning l \<Longrightarrow> xchg_locked l 1 (sys_mach s) = Ok 0 m \<Longrightarrow>
     spin_step s (s\<lparr>sys_mach := m, pc := (pc s)(a := Taken l)\<rparr>)"
| got: "pc s a = Taken l \<Longrightarrow> acquire_done a fr l (sys_mach s) = Ok () m \<Longrightarrow>
     spin_step s (s\<lparr>sys_mach := m, pc := (pc s)(a := Running), owns := (owns s)(a := l # owns s a)\<rparr>)"
| free: "pc s a = Running \<Longrightarrow> release_begin a l (sys_mach s) = Ok () m \<Longrightarrow>
     spin_step s (s\<lparr>sys_mach := m, pc := (pc s)(a := Freeing l), owns := (owns s)(a := remove1 l (owns s a))\<rparr>)"
| freed: "pc s a = Freeing l \<Longrightarrow> release_end a l (sys_mach s) = Ok () m \<Longrightarrow>
     spin_step s (s\<lparr>sys_mach := m, pc := (pc s)(a := Running)\<rparr>)"
| flags: "pc s a = Running \<Longrightarrow> cpu_of (sys_mach s) a = Some i \<Longrightarrow> cpu_ncli (cpus (sys_mach s) ! i) = 0 \<Longrightarrow>
     spin_step s (s\<lparr>sys_mach := (sys_mach s)\<lparr>eflags := (eflags (sys_mach s))(a := f)\<rparr>\<rparr>)"

text \<open>At boot \<^verbatim>\<open>initlock\<close> has freed every lock and no CPU has disabled interrupts through \<open>pushcli\<close>.\<close>

definition spin_init :: "spin_sys \<Rightarrow> bool" where
  "spin_init s \<longleftrightarrow> distinct (map cpu_apicid (cpus (sys_mach s)))
     \<and> (\<forall>c \<in> set (cpus (sys_mach s)). cpu_ncli c = 0)
     \<and> (\<forall>l. sl_locked (locks (sys_mach s) l) = 0 \<and> sl_cpu (locks (sys_mach s) l) = None)
     \<and> (\<forall>a. pc s a = Running \<and> owns s a = [])"

inductive spin_reach :: "spin_sys \<Rightarrow> bool" where
  init: "spin_init s \<Longrightarrow> spin_reach s"
| step: "spin_reach s \<Longrightarrow> spin_step s t \<Longrightarrow> spin_reach t"

text \<open>
  The invariant. A CPU \<open>has\<close> a lock between its successful \<^verbatim>\<open>xchg\<close> and the store that frees it.
\<close>

definition has :: "spin_sys \<Rightarrow> u8 \<Rightarrow> lockid \<Rightarrow> bool" where
  "has s a l \<longleftrightarrow> pc s a = Taken l \<or> l \<in> set (owns s a) \<or> pc s a = Freeing l"

text \<open>The nesting depth \<^verbatim>\<open>ncli\<close> counts the locks a CPU owns and the one it is working on.\<close>

definition depth :: "spin_sys \<Rightarrow> u8 \<Rightarrow> int" where
  "depth s a = int (length (owns s a)) + (if pc s a = Running then 0 else 1)"

definition spin_count :: "spin_sys \<Rightarrow> bool" where
  "spin_count s \<longleftrightarrow> (\<forall>i < length (cpus (sys_mach s)).
     cpu_ncli (cpus (sys_mach s) ! i) = depth s (cpu_apicid (cpus (sys_mach s) ! i)))"

definition spin_inv :: "spin_sys \<Rightarrow> bool" where
  "spin_inv s \<longleftrightarrow> distinct (map cpu_apicid (cpus (sys_mach s)))
     \<and> (\<forall>a b l. has s a l \<longrightarrow> has s b l \<longrightarrow> a = b)
     \<and> (\<forall>l. sl_locked (locks (sys_mach s) l) \<noteq> 0 \<longleftrightarrow> (\<exists>a. has s a l))
     \<and> (\<forall>a l. l \<in> set (owns s a) \<longrightarrow> cpu_of (sys_mach s) a \<noteq> None
           \<and> sl_cpu (locks (sys_mach s) l) = cpu_of (sys_mach s) a)
     \<and> (\<forall>l i. sl_cpu (locks (sys_mach s) l) = Some i \<longrightarrow>
           i < length (cpus (sys_mach s)) \<and> l \<in> set (owns s (cpu_apicid (cpus (sys_mach s) ! i))))
     \<and> (\<forall>a. distinct (owns s a))
     \<and> (\<forall>a l. pc s a = Taken l \<or> pc s a = Freeing l \<longrightarrow> l \<notin> set (owns s a))
     \<and> (\<forall>a. pc s a \<noteq> Running \<or> owns s a \<noteq> [] \<longrightarrow> cpu_of (sys_mach s) a \<noteq> None \<and> \<not> bit (eflags (sys_mach s) a) 9)
     \<and> spin_count s"

lemma mycpu_Ok: "mycpu a m = Ok i m' \<Longrightarrow> m' = m \<and> cpu_of m a = Some i \<and> \<not> bit (eflags m a) 9"
  by (auto simp: mycpu_def kbind_def split: if_splits option.splits)

lemma kbind_eq_Ok: "kbind m f s = Ok b t \<longleftrightarrow> (\<exists>a s'. m s = Ok a s' \<and> f a s' = Ok b t)"
  by (auto simp: kbind_def split: outcome.splits)

lemma pushcli_Ok: "pushcli a m = Ok u m' \<Longrightarrow> \<exists>i. cpu_of m a = Some i"
  by (auto simp: pushcli_def kbind_eq_Ok cli_def dest!: mycpu_Ok)

lemma holding_Ok: "holding a l m = Ok u m' \<Longrightarrow> \<exists>i. cpu_of m a = Some i"
  by (auto simp: holding_def kbind_eq_Ok dest!: pushcli_Ok)

lemma acquire_enter_Ok:
  assumes "acquire_enter a l m = Ok u m'"
  obtains i where "cpu_of m a = Some i"
  using assms by (auto simp: acquire_enter_def kbind_eq_Ok dest!: pushcli_Ok)

lemma acquire_done_Ok:
  assumes "acquire_done a fr l m = Ok u m'"
  obtains i where "cpu_of m a = Some i" "\<not> bit (eflags m a) 9"
  using assms by (auto simp: acquire_done_def kbind_eq_Ok dest!: mycpu_Ok)

lemma release_begin_Ok:
  assumes "release_begin a l m = Ok u m'"
  obtains i where "cpu_of m a = Some i"
  using assms by (auto simp: release_begin_def kbind_eq_Ok dest!: holding_Ok)

lemma release_end_Ok:
  assumes "release_end a l m = Ok u m'"
  obtains i where "cpu_of m a = Some i" "\<not> bit (eflags m a) 9"
  using assms by (auto simp: release_end_def popcli_def kbind_eq_Ok dest!: mycpu_Ok split: if_splits)

lemma cpu_of_inj: "cpu_of m a = Some i \<Longrightarrow> cpu_of m b = Some i \<Longrightarrow> a = b"
  by (auto simp: find_index_Some)

lemma holding_value:
  assumes "holding a l m = Ok h m'"
  shows "\<exists>i. cpu_of m a = Some i \<and> (h \<longleftrightarrow> sl_locked (locks m l) \<noteq> 0 \<and> sl_cpu (locks m l) = Some i)"
proof -
  obtain i where i: "cpu_of m a = Some i" using holding_Ok[OF assms] by blast
  show ?thesis using assms i
    by (auto simp: holding_def kbind_eq_Ok pushcli_run dest!: mycpu_Ok)
qed

lemma cpu_of_apicid: "cpu_of m a = Some i \<Longrightarrow> i < length (cpus m) \<and> cpu_apicid (cpus m ! i) = a"
  by (auto simp: find_index_Some)

lemma apicid_upd [simp]: "cpu_apicid (upd_at i (\<lambda>c. c\<lparr>cpu_intena := f c, cpu_ncli := g c\<rparr>) xs ! j) = cpu_apicid (xs ! j)"
  "cpu_apicid (upd_at i (\<lambda>c. c\<lparr>cpu_ncli := g c\<rparr>) xs ! j) = cpu_apicid (xs ! j)"
  by (simp_all add: nth_upd_at_field)

lemma apicid_nth_eq:
  assumes "distinct (map cpu_apicid (cpus m))" "i < length (cpus m)" "j < length (cpus m)"
  shows "cpu_apicid (cpus m ! i) = cpu_apicid (cpus m ! j) \<longleftrightarrow> i = j"
  using assms nth_eq_iff_index_eq[of "map cpu_apicid (cpus m)" i j] by auto

lemma spin_invD:
  assumes "spin_inv s"
  shows "distinct (map cpu_apicid (cpus (sys_mach s)))"
    and "has s a l \<Longrightarrow> has s b l \<Longrightarrow> a = b"
    and "sl_locked (locks (sys_mach s) l) \<noteq> 0 \<longleftrightarrow> (\<exists>a. has s a l)"
    and "l \<in> set (owns s a) \<Longrightarrow> cpu_of (sys_mach s) a \<noteq> None \<and> sl_cpu (locks (sys_mach s) l) = cpu_of (sys_mach s) a"
    and "sl_cpu (locks (sys_mach s) l) = Some i \<Longrightarrow>
           i < length (cpus (sys_mach s)) \<and> l \<in> set (owns s (cpu_apicid (cpus (sys_mach s) ! i)))"
    and "distinct (owns s a)"
    and "pc s a = Taken l \<or> pc s a = Freeing l \<Longrightarrow> l \<notin> set (owns s a)"
    and "pc s a \<noteq> Running \<or> owns s a \<noteq> [] \<Longrightarrow> cpu_of (sys_mach s) a \<noteq> None \<and> \<not> bit (eflags (sys_mach s) a) 9"
    and "spin_count s"
  using assms unfolding spin_inv_def by blast+

lemma spin_invI:
  assumes "distinct (map cpu_apicid (cpus (sys_mach s)))"
    and "\<And>a b l. has s a l \<Longrightarrow> has s b l \<Longrightarrow> a = b"
    and "\<And>l. sl_locked (locks (sys_mach s) l) \<noteq> 0 \<longleftrightarrow> (\<exists>a. has s a l)"
    and "\<And>a l. l \<in> set (owns s a) \<Longrightarrow> cpu_of (sys_mach s) a \<noteq> None \<and> sl_cpu (locks (sys_mach s) l) = cpu_of (sys_mach s) a"
    and "\<And>l i. sl_cpu (locks (sys_mach s) l) = Some i \<Longrightarrow>
           i < length (cpus (sys_mach s)) \<and> l \<in> set (owns s (cpu_apicid (cpus (sys_mach s) ! i)))"
    and "\<And>a. distinct (owns s a)"
    and "\<And>a l. pc s a = Taken l \<or> pc s a = Freeing l \<Longrightarrow> l \<notin> set (owns s a)"
    and "\<And>a. pc s a \<noteq> Running \<or> owns s a \<noteq> [] \<Longrightarrow> cpu_of (sys_mach s) a \<noteq> None \<and> \<not> bit (eflags (sys_mach s) a) 9"
    and "spin_count s"
  shows "spin_inv s"
  using assms unfolding spin_inv_def by blast

lemma spin_inv_ncli:
  assumes "spin_inv s" "cpu_of (sys_mach s) a = Some i"
  shows "cpu_ncli (cpus (sys_mach s) ! i) = depth s a"
  using spin_invD(9)[OF assms(1)] cpu_of_apicid[OF assms(2)] by (simp add: spin_count_def)

lemma spin_count_same:
  "spin_count s \<Longrightarrow> cpus (sys_mach t) = cpus (sys_mach s) \<Longrightarrow> depth t = depth s \<Longrightarrow> spin_count t"
  by (simp add: spin_count_def)

lemma spin_count_upd:
  assumes "spin_inv s" "cpu_of (sys_mach s) a = Some i"
    and "cpus (sys_mach t) = upd_at i f (cpus (sys_mach s))" "\<And>c. cpu_apicid (f c) = cpu_apicid c"
    and "\<And>b. b \<noteq> a \<Longrightarrow> depth t b = depth s b" "cpu_ncli (f (cpus (sys_mach s) ! i)) = depth t a"
  shows "spin_count t"
proof -
  have "cpu_ncli (upd_at i f (cpus (sys_mach s)) ! j) = depth t (cpu_apicid (cpus (sys_mach s) ! j))"
    if j: "j < length (cpus (sys_mach s))" for j
  proof (cases "i = j")
    case True
    then show ?thesis using cpu_of_apicid[OF assms(2)] assms(6) by simp
  next
    case False
    then have "cpu_apicid (cpus (sys_mach s) ! j) \<noteq> a"
      using cpu_of_apicid[OF assms(2)] apicid_nth_eq[OF spin_invD(1)[OF assms(1)], of i j] j by auto
    then show ?thesis using False assms(5) spin_invD(9)[OF assms(1)] j by (simp add: spin_count_def)
  qed
  then show ?thesis by (simp add: spin_count_def assms(3,4) nth_upd_at_field)
qed

lemma spin_inv_owner:
  assumes "spin_inv s" "cpu_of (sys_mach s) a = Some i" "sl_cpu (locks (sys_mach s) l) = Some i"
  shows "l \<in> set (owns s a)"
  using spin_invD(5)[OF assms(1,3)] cpu_of_apicid[OF assms(2)] by simp

lemma enter_inv:
  assumes inv: "spin_inv s" and pc: "pc s a = Running" and ok: "acquire_enter a l (sys_mach s) = Ok () m"
  shows "spin_inv (s\<lparr>sys_mach := m, pc := (pc s)(a := Spinning l)\<rparr>)" (is "spin_inv ?t")
proof -
  obtain i where i: "cpu_of (sys_mach s) a = Some i" using ok by (rule acquire_enter_Ok)
  have n: "cpu_ncli (cpus (sys_mach s) ! i) = int (length (owns s a))" using spin_inv_ncli[OF inv i] pc by (simp add: depth_def)
  have il: "i < length (cpus (sys_mach s))" "cpu_apicid (cpus (sys_mach s) ! i) = a" using cpu_of_apicid[OF i] by auto
  have "sl_cpu (locks (sys_mach s) l) \<noteq> Some i"
  proof
    assume c: "sl_cpu (locks (sys_mach s) l) = Some i"
    then have "sl_locked (locks (sys_mach s) l) \<noteq> 0"
      using spin_invD(3)[OF inv, of l] spin_inv_owner[OF inv i c] by (auto simp: has_def)
    then show False using ok i n c il
      by (auto simp: acquire_enter_def pushcli_run holding_run)
  qed
  then have m: "m = (sys_mach s)\<lparr>eflags := (eflags (sys_mach s))(a := eflags (sys_mach s) a AND NOT FL_IF),
      cpus := upd_at i (\<lambda>c. c\<lparr>
          cpu_intena := (if cpu_ncli c = 0 then eflags (sys_mach s) a AND FL_IF else cpu_intena c),
          cpu_ncli := cpu_ncli c + 1\<rparr>) (cpus (sys_mach s))\<rparr>"
    using ok acquire_enter_run[OF i] n by simp
  have h: "has ?t = has s" using pc by (auto simp: has_def fun_eq_iff)
  have "spin_count ?t" 
    by (rule spin_count_upd[where f = "\<lambda>c. c\<lparr>
          cpu_intena := (if cpu_ncli c = 0 then eflags (sys_mach s) a AND FL_IF else cpu_intena c),
          cpu_ncli := cpu_ncli c + 1\<rparr>", OF inv i]) (use n pc in \<open>simp_all add: m depth_def\<close>)
  then show ?thesis
    unfolding spin_inv_def h
    using spin_invD[OF inv] i pc
    by (auto simp: m)
qed

lemma spin_inv_stay:
  assumes inv: "spin_inv s" and pc: "pc s a = Spinning l" and ok: "xchg_locked l 1 (sys_mach s) = Ok old m" "old \<noteq> 0"
  shows "spin_inv (s\<lparr>sys_mach := m\<rparr>)" (is "spin_inv ?t")
proof -
  have m: "m = (sys_mach s)\<lparr>locks := (locks (sys_mach s))(l := (locks (sys_mach s) l)\<lparr>sl_locked := 1\<rparr>)\<rparr>"
    and z: "sl_locked (locks (sys_mach s) l) \<noteq> 0"
    using ok by (auto simp: xchg_locked_def)
  have h: "has ?t = has s" by (auto simp: has_def fun_eq_iff)
  have "spin_count ?t" by (rule spin_count_same[OF spin_invD(9)[OF inv]]) (simp_all add: m depth_def fun_eq_iff)
  then show ?thesis
    unfolding spin_inv_def h using spin_invD[OF inv] z by (auto simp: m)
qed

lemma take_inv:
  assumes inv: "spin_inv s" and pc: "pc s a = Spinning l" and ok: "xchg_locked l 1 (sys_mach s) = Ok 0 m"
  shows "spin_inv (s\<lparr>sys_mach := m, pc := (pc s)(a := Taken l)\<rparr>)" (is "spin_inv ?t")
proof -
  have m: "m = (sys_mach s)\<lparr>locks := (locks (sys_mach s))(l := (locks (sys_mach s) l)\<lparr>sl_locked := 1\<rparr>)\<rparr>"
    and z: "sl_locked (locks (sys_mach s) l) = 0"
    using ok by (auto simp: xchg_locked_def)
  have nh: "\<not> has s b l" for b using spin_invD(3)[OF inv, of l] z by auto
  have h: "has ?t = (\<lambda>b k. has s b k \<or> b = a \<and> k = l)" using pc by (auto simp: has_def fun_eq_iff)
  have no: "l \<notin> set (owns s b)" for b using nh[of b] by (simp add: has_def)
  then have "sl_cpu (locks (sys_mach s) l) = None"
    using spin_invD(5)[OF inv, of l] by (cases "sl_cpu (locks (sys_mach s) l)") auto
  moreover have "spin_count ?t"
    by (rule spin_count_same[OF spin_invD(9)[OF inv]]) (use pc in \<open>auto simp: m depth_def fun_eq_iff\<close>)
  ultimately show ?thesis
    unfolding spin_inv_def h
    using spin_invD[OF inv] pc nh z no
    by (auto simp: m)
qed

lemma got_inv:
  assumes inv: "spin_inv s" and pc: "pc s a = Taken l" and ok: "acquire_done a fr l (sys_mach s) = Ok () m"
  shows "spin_inv (s\<lparr>sys_mach := m, pc := (pc s)(a := Running), owns := (owns s)(a := l # owns s a)\<rparr>)" (is "spin_inv ?t")
proof -
  obtain i where i: "cpu_of (sys_mach s) a = Some i" and b: "\<not> bit (eflags (sys_mach s) a) 9"
    using ok by (rule acquire_done_Ok)
  have il: "i < length (cpus (sys_mach s))" "cpu_apicid (cpus (sys_mach s) ! i) = a" using cpu_of_apicid[OF i] by auto
  have m: "m = (sys_mach s)\<lparr>locks := (locks (sys_mach s))(l := (locks (sys_mach s) l)\<lparr>sl_cpu := Some i,
           sl_pcs := getcallerpcs (stack (sys_mach s)) fr\<rparr>)\<rparr>"
    using ok acquire_done_run[OF i b] by simp
  have h: "has ?t = has s" using pc by (auto simp: has_def fun_eq_iff)
  have no: "l \<notin> set (owns s b)" for b
    using spin_invD(2)[OF inv, of a l b] spin_invD(7)[OF inv, of a l] pc by (auto simp: has_def)
  have c: "spin_count ?t"
    by (rule spin_count_same[OF spin_invD(9)[OF inv]]) (use pc in \<open>auto simp: m depth_def fun_eq_iff\<close>)
  show ?thesis
  proof (rule spin_invI)
    fix k j assume "sl_cpu (locks (sys_mach ?t) k) = Some j"
    then show "j < length (cpus (sys_mach ?t)) \<and> k \<in> set (owns ?t (cpu_apicid (cpus (sys_mach ?t) ! j)))"
      using spin_invD(5)[OF inv, of k j] il by (auto simp: m split: if_splits)
  qed (use h c spin_invD(1-4,6-8)[OF inv] i b pc no in \<open>auto simp: m split: if_splits\<close>)
qed

lemma free_inv:
  assumes inv: "spin_inv s" and pc: "pc s a = Running" and ok: "release_begin a l (sys_mach s) = Ok () m"
  shows "spin_inv (s\<lparr>sys_mach := m, pc := (pc s)(a := Freeing l), owns := (owns s)(a := remove1 l (owns s a))\<rparr>)" (is "spin_inv ?t")
proof -
  obtain i where i: "cpu_of (sys_mach s) a = Some i" and c: "sl_locked (locks (sys_mach s) l) \<noteq> 0" "sl_cpu (locks (sys_mach s) l) = Some i"
    using ok by (auto simp: release_begin_def kbind_eq_Ok split: if_splits dest!: holding_value)
  have il: "i < length (cpus (sys_mach s))" "cpu_apicid (cpus (sys_mach s) ! i) = a" using cpu_of_apicid[OF i] by auto
  have l: "l \<in> set (owns s a)" by (rule spin_inv_owner[OF inv i c(2)])
  have e: "\<not> bit (eflags (sys_mach s) a) 9" using spin_invD(8)[OF inv, of a] l by force
  have n: "0 < cpu_ncli (cpus (sys_mach s) ! i)" using spin_inv_ncli[OF inv i] l by (cases "owns s a") (auto simp: depth_def)
  have m: "m = (sys_mach s)\<lparr>locks := (locks (sys_mach s))(l := (locks (sys_mach s) l)\<lparr>
           sl_pcs := (sl_pcs (locks (sys_mach s) l))[0 := 0], sl_cpu := None\<rparr>)\<rparr>"
    using ok release_begin_run[OF i e n c] by simp
  have h: "has ?t = has s" using pc l spin_invD(6)[OF inv, of a] by (auto simp: has_def fun_eq_iff)
  have no: "b \<noteq> a \<Longrightarrow> l \<notin> set (owns s b)" for b
    using spin_invD(2)[OF inv, of a l b] l by (auto simp: has_def)
  have "Suc (length (remove1 l (owns s a))) = length (owns s a)"
    using l length_pos_if_in_set[OF l] by (simp add: length_remove1)
  then have len: "int (length (remove1 l (owns s a))) + 1 = int (length (owns s a))"
    by linarith
  have "spin_count ?t"
    by (rule spin_count_same[OF spin_invD(9)[OF inv]]) (use pc len in \<open>auto simp: m depth_def fun_eq_iff\<close>)
  then show ?thesis
    unfolding spin_inv_def h
    using spin_invD(1-8)[OF inv] i c e pc no
    by (auto simp: m)
qed

lemma freed_inv:
  assumes inv: "spin_inv s" and pc: "pc s a = Freeing l" and ok: "release_end a l (sys_mach s) = Ok () m"
  shows "spin_inv (s\<lparr>sys_mach := m, pc := (pc s)(a := Running)\<rparr>)" (is "spin_inv ?t")
proof -
  obtain i where i: "cpu_of (sys_mach s) a = Some i" and e: "\<not> bit (eflags (sys_mach s) a) 9"
    using ok by (rule release_end_Ok)
  have il: "i < length (cpus (sys_mach s))" "cpu_apicid (cpus (sys_mach s) ! i) = a" using cpu_of_apicid[OF i] by auto
  have n: "cpu_ncli (cpus (sys_mach s) ! i) = int (length (owns s a)) + 1" using spin_inv_ncli[OF inv i] pc by (simp add: depth_def)
  have m: "m = (sys_mach s)\<lparr>
      locks := (locks (sys_mach s))(l := (locks (sys_mach s) l)\<lparr>sl_locked := 0\<rparr>),
      cpus := upd_at i (\<lambda>c. c\<lparr>cpu_ncli := cpu_ncli c - 1\<rparr>) (cpus (sys_mach s)),
      eflags := (if owns s a = [] \<and> cpu_intena (cpus (sys_mach s) ! i) \<noteq> 0
                 then (eflags (sys_mach s))(a := eflags (sys_mach s) a OR FL_IF) else eflags (sys_mach s))\<rparr>"
    using ok release_end_run[OF i e] n by simp
  have only: "has s b l \<longleftrightarrow> b = a" for b
    using spin_invD(2)[OF inv, of a l b] pc by (auto simp: has_def)
  have h: "has ?t = (\<lambda>b k. has s b k \<and> k \<noteq> l)"
    using pc only spin_invD(7)[OF inv, of a l] by (auto simp: has_def fun_eq_iff)
  have no: "l \<notin> set (owns s b)" for b
    using only[of b] spin_invD(7)[OF inv, of a l] pc by (auto simp: has_def)
  have u: "sl_cpu (locks (sys_mach s) l) = None"
    using spin_invD(5)[OF inv, of l] no by (cases "sl_cpu (locks (sys_mach s) l)") auto
  have "spin_count ?t" 
    by (rule spin_count_upd[where f = "\<lambda>c. c\<lparr>cpu_ncli := cpu_ncli c - 1\<rparr>", OF inv i]) (use n pc in \<open>simp_all add: m depth_def\<close>)
  then show ?thesis
    unfolding spin_inv_def h
    using spin_invD(1-8)[OF inv] i e pc no u
    by (auto simp: m)
qed


lemma flags_inv:
  assumes inv: "spin_inv s" and pc: "pc s a = Running" and i: "cpu_of (sys_mach s) a = Some i"
    and n: "cpu_ncli (cpus (sys_mach s) ! i) = 0"
  shows "spin_inv (s\<lparr>sys_mach := (sys_mach s)\<lparr>eflags := (eflags (sys_mach s))(a := f)\<rparr>\<rparr>)" (is "spin_inv ?t")
proof -
  have o: "owns s a = []" using spin_inv_ncli[OF inv i] n pc by (simp add: depth_def)
  have h: "has ?t = has s" by (auto simp: has_def fun_eq_iff)
  have c: "spin_count ?t" by (rule spin_count_same[OF spin_invD(9)[OF inv]]) (simp_all add: depth_def fun_eq_iff)
  show ?thesis
    by (rule spin_invI) (use h c spin_invD(1-8)[OF inv] o pc in auto)
qed

lemma spin_init_inv: "spin_init s \<Longrightarrow> spin_inv s"
  by (auto simp: spin_init_def spin_inv_def has_def spin_count_def depth_def)

lemma spin_step_inv: "spin_step s t \<Longrightarrow> spin_inv s \<Longrightarrow> spin_inv t"
  by (induction rule: spin_step.induct)
    (simp_all add: enter_inv spin_inv_stay take_inv got_inv free_inv freed_inv flags_inv)

lemma spin_reach_inv: "spin_reach s \<Longrightarrow> spin_inv s"
  by (induction rule: spin_reach.induct) (blast intro: spin_init_inv spin_step_inv)+

text \<open>
  C4. Mutual exclusion: in every reachable state of the machine at most one CPU is between
  the \<^verbatim>\<open>xchg\<close> that takes a lock and the store that frees it, the lock word is then non-zero, and
  that CPU runs with interrupts disabled.
\<close>

theorem spinlock_mutual_exclusion:
  assumes "spin_reach s" "has s a l" "has s b l"
  shows "a = b \<and> sl_locked (locks (sys_mach s) l) \<noteq> 0 \<and> \<not> bit (eflags (sys_mach s) a) 9"
proof -
  have inv: "spin_inv s" using assms(1) by (rule spin_reach_inv)
  have "pc s a \<noteq> Running \<or> owns s a \<noteq> []" using assms(2) by (auto simp: has_def)
  then show ?thesis using spin_invD(2)[OF inv assms(2,3)] spin_invD(3)[OF inv, of l]
      spin_invD(8)[OF inv, of a] assms(2) by blast
qed

definition demo_mach :: mach where
  "demo_mach = \<lparr>cpus = [\<lparr>cpu_apicid = 0, cpu_started = 1, cpu_ncli = 0, cpu_intena = 0\<rparr>,
                       \<lparr>cpu_apicid = 4, cpu_started = 1, cpu_ncli = 0, cpu_intena = 0\<rparr>],
     eflags = (\<lambda>_. FL_IF), locks = (\<lambda>_. \<lparr>sl_locked = 0, sl_name = ''lock'', sl_cpu = None, sl_pcs = replicate 10 0\<rparr>),
     stack = (\<lambda>_. 0)\<rparr>"

definition demo_sys :: spin_sys where
  "demo_sys = \<lparr>sys_mach = demo_mach, pc = (\<lambda>_. Running), owns = (\<lambda>_. [])\<rparr>"

lemma demo_taken: "\<exists>s. spin_reach s \<and> has s 4 LK_ptable"
proof -
  have r0: "spin_reach demo_sys"
    by (rule spin_reach.init) (simp add: spin_init_def demo_sys_def demo_mach_def)
  obtain m where m: "acquire_enter 4 LK_ptable demo_mach = Ok () m" "locks m = locks demo_mach"
    using acquire_enter_run[where m = demo_mach and a = 4 and i = 1 and l = LK_ptable] by (simp add: demo_mach_def)
  have r: "spin_reach (demo_sys\<lparr>sys_mach := m, pc := (pc demo_sys)(4 := Spinning LK_ptable)\<rparr>)" (is "spin_reach ?s1")
    by (rule spin_reach.step[OF r0 spin_step.enter]) (simp_all add: demo_sys_def m(1))
  have "xchg_locked LK_ptable 1 (sys_mach ?s1) = Ok 0 (m\<lparr>locks := (locks m)(LK_ptable := (locks m LK_ptable)\<lparr>sl_locked := 1\<rparr>)\<rparr>)"
    using m(2) by (simp add: xchg_locked_def demo_mach_def)
  then have "spin_step ?s1 (?s1\<lparr>sys_mach := m\<lparr>locks := (locks m)(LK_ptable := (locks m LK_ptable)\<lparr>sl_locked := 1\<rparr>)\<rparr>,
      pc := (pc ?s1)(4 := Taken LK_ptable)\<rparr>)" (is "spin_step _ ?s2")
    by (rule spin_step.take[rotated]) simp
  with r have "spin_reach ?s2" by (rule spin_reach.step)
  moreover have "has ?s2 4 LK_ptable" by (simp add: has_def)
  ultimately show ?thesis by blast
qed

theorem spinlock_mutual_exclusion_witness:
  "\<exists>s. spin_reach s \<and> has s 4 LK_ptable \<and> sl_locked (locks (sys_mach s) LK_ptable) \<noteq> 0
       \<and> \<not> bit (eflags (sys_mach s) 4) 9"
proof -
  obtain s where "spin_reach s" "has s 4 LK_ptable" using demo_taken by blast
  with spinlock_mutual_exclusion[OF this this(2)] show ?thesis by blast
qed

subsection \<open>Sequential use\<close>

text \<open>
  C20. An \<open>acquire\<close> of a free lock followed by the matching \<open>release\<close> returns, frees the lock, and
  leaves the interrupt flag and the nesting depth of the CPU as they were, whatever the depth.
\<close>

theorem acquire_release_restores:
  assumes "cpu_of m a = Some i" "0 \<le> cpu_ncli (cpus m ! i)"
    and "0 < cpu_ncli (cpus m ! i) \<Longrightarrow> \<not> bit (eflags m a) 9"
    and "sl_locked (locks m l) = 0" "sl_cpu (locks m l) = None"
  shows "\<exists>m'. kbind (acquire a fr l) (\<lambda>_. release a l) m = Ok () m'
     \<and> eflags m' = eflags m \<and> cpu_ncli (cpus m' ! i) = cpu_ncli (cpus m ! i)
     \<and> sl_locked (locks m' l) = 0 \<and> sl_cpu (locks m' l) = None"
proof -
  have il: "i < length (cpus m)" using assms(1) by (rule find_index_SomeD)
  have "bit (eflags m a) 9 \<Longrightarrow> cpu_ncli (cpus m ! i) = 0" using assms(2,3) by linarith
  then show ?thesis
    using assms il
    by (cases "bit (eflags m a) 9")
      (simp_all add: acquire_def release_def acquire_enter_run xchg_locked_def acquire_done_run
        release_begin_run release_end_run)
qed

theorem acquire_release_restores_witness:
  "\<exists>m'. kbind (acquire 4 0 LK_log) (\<lambda>_. release 4 LK_log) demo_mach = Ok () m'
     \<and> eflags m' = eflags demo_mach \<and> cpu_ncli (cpus m' ! 1) = cpu_ncli (cpus demo_mach ! 1)
     \<and> sl_locked (locks m' LK_log) = 0 \<and> sl_cpu (locks m' LK_log) = None"
  by (rule acquire_release_restores) (simp_all add: demo_mach_def)

subsection \<open>The interface the rest of the kernel uses\<close>

text \<open>
  The kernel's other components use locks through what one CPU can observe: the set of locks
  it holds. The laws: taking a lock that is not held adds it, taking a held one panics, and
  the same for giving one back.
\<close>

locale lock_iface =
  fixes acq :: "lockid \<Rightarrow> ('s, unit) kprog" and rel :: "lockid \<Rightarrow> ('s, unit) kprog"
    and hset :: "'s \<Rightarrow> lockid set" and inv :: "'s \<Rightarrow> bool"
  assumes acq_free: "inv s \<Longrightarrow> l \<notin> hset s \<Longrightarrow> \<exists>t. acq l s = Ok () t \<and> inv t \<and> hset t = insert l (hset s)"
    and acq_held: "inv s \<Longrightarrow> l \<in> hset s \<Longrightarrow> acq l s = Panic ''acquire''"
    and rel_held: "inv s \<Longrightarrow> l \<in> hset s \<Longrightarrow> \<exists>t. rel l s = Ok () t \<and> inv t \<and> hset t = hset s - {l}"
    and rel_free: "inv s \<Longrightarrow> l \<notin> hset s \<Longrightarrow> rel l s = Panic ''release''"
begin

lemma wp_acq: "inv s \<Longrightarrow> l \<notin> hset s \<Longrightarrow> wp (acq l) (\<lambda>_ t. inv t \<and> hset t = insert l (hset s)) s"
  using acq_free by (fastforce simp: wp_Ok)

lemma wp_rel: "inv s \<Longrightarrow> l \<in> hset s \<Longrightarrow> wp (rel l) (\<lambda>_ t. inv t \<and> hset t = hset s - {l}) s"
  using rel_held by (fastforce simp: wp_Ok)

text \<open>A critical section whose body keeps the locks balanced is itself balanced.\<close>

lemma critical_section:
  assumes "inv s" "l \<notin> hset s"
    and body: "\<And>t. inv t \<Longrightarrow> hset t = insert l (hset s) \<Longrightarrow> wp body (\<lambda>_ u. inv u \<and> hset u = hset t) t"
  shows "wp (kbind (acq l) (\<lambda>_. kbind body (\<lambda>_. rel l))) (\<lambda>_ t. inv t \<and> hset t = hset s) s"
proof -
  have "wp (rel l) (\<lambda>_ t. inv t \<and> hset t = hset s) u" if "inv u" "hset u = insert l (hset s)" for u
    by (rule wp_mono[OF wp_rel]) (use that assms(2) in auto)
  then show ?thesis
    by (auto intro!: wp_mono[OF wp_acq[OF assms(1,2)]] wp_mono[OF body])
qed

end

text \<open>The interface on the real locks, as one CPU of an otherwise quiet machine sees them.\<close>

definition held_by :: "u8 \<Rightarrow> mach \<Rightarrow> lockid set" where
  "held_by a m = {l. sl_locked (locks m l) \<noteq> 0 \<and> sl_cpu (locks m l) = cpu_of m a}"

definition quiet :: "u8 \<Rightarrow> mach \<Rightarrow> bool" where
  "quiet a m \<longleftrightarrow> cpu_of m a \<noteq> None \<and> finite (held_by a m)
     \<and> ncli_of m a = int (card (held_by a m))
     \<and> (held_by a m \<noteq> {} \<longrightarrow> \<not> bit (eflags m a) 9)
     \<and> (\<forall>l. sl_locked (locks m l) = 0 \<longrightarrow> sl_cpu (locks m l) = None)
     \<and> (\<forall>l. sl_locked (locks m l) \<noteq> 0 \<longrightarrow> l \<in> held_by a m)"

lemma quiet_acquire:
  assumes "quiet a m" "l \<notin> held_by a m"
  shows "\<exists>t. acquire a fr l m = Ok () t \<and> quiet a t \<and> held_by a t = insert l (held_by a m)"
proof -
  obtain i where i: "cpu_of m a = Some i" using assms(1) by (auto simp: quiet_def)
  have il: "i < length (cpus m)" using i by (rule find_index_SomeD)
  have l0: "sl_locked (locks m l) = 0" "sl_cpu (locks m l) = None" using assms by (auto simp: quiet_def)
  have n: "cpu_ncli (cpus m ! i) = int (card (held_by a m))" using assms(1) i by (simp add: quiet_def)
  let ?t = "m\<lparr>eflags := (eflags m)(a := eflags m a AND NOT FL_IF),
      cpus := upd_at i (\<lambda>c. c\<lparr>
          cpu_intena := (if cpu_ncli c = 0 then eflags m a AND FL_IF else cpu_intena c),
          cpu_ncli := cpu_ncli c + 1\<rparr>) (cpus m),
      locks := (locks m)(l := (locks m l)\<lparr>sl_locked := 1, sl_cpu := Some i,
           sl_pcs := getcallerpcs (stack m) fr\<rparr>)\<rparr>"
  have "acquire a fr l m = Ok () ?t"
    using i n l0 by (simp add: acquire_def acquire_enter_run xchg_locked_def acquire_done_run)
  moreover have h: "held_by a ?t = insert l (held_by a m)"
    using i by (auto simp: held_by_def)
  moreover have "quiet a ?t"
    unfolding quiet_def h using assms i il n by (auto simp: quiet_def held_by_def)
  ultimately show ?thesis by blast
qed

lemma quiet_release:
  assumes "quiet a m" "l \<in> held_by a m"
  shows "\<exists>t. release a l m = Ok () t \<and> quiet a t \<and> held_by a t = held_by a m - {l}"
proof -
  obtain i where i: "cpu_of m a = Some i" using assms(1) by (auto simp: quiet_def)
  have il: "i < length (cpus m)" using i by (rule find_index_SomeD)
  have l1: "sl_locked (locks m l) \<noteq> 0" "sl_cpu (locks m l) = Some i" using assms(2) i by (auto simp: held_by_def)
  have fin: "finite (held_by a m)" and e: "\<not> bit (eflags m a) 9" using assms by (auto simp: quiet_def)
  have n: "cpu_ncli (cpus m ! i) = int (card (held_by a m))" using assms(1) i by (simp add: quiet_def)
  have pos: "0 < card (held_by a m)" using fin assms(2) card_gt_0_iff by blast
  have dec: "int (card (held_by a m - {l})) = int (card (held_by a m)) - 1"
    using assms(2) fin pos by (simp add: card_Diff_singleton)
  let ?c = "upd_at i (\<lambda>c. c\<lparr>cpu_ncli := cpu_ncli c - 1\<rparr>) (cpus m)"
  let ?l = "(locks m)(l := (locks m l)\<lparr>sl_pcs := (sl_pcs (locks m l))[0 := 0], sl_cpu := None, sl_locked := 0\<rparr>)"
  let ?e = "if cpu_ncli (cpus m ! i) = 1 \<and> cpu_intena (cpus m ! i) \<noteq> 0
                 then (eflags m)(a := eflags m a OR FL_IF) else eflags m"
  let ?t = "m\<lparr>locks := ?l, cpus := ?c, eflags := ?e\<rparr>"
  have "release a l m = Ok () ?t"
    using i il e n l1 pos by (simp add: release_def release_begin_run release_end_run)
  moreover have h: "held_by a ?t = held_by a m - {l}"
    using i by (auto simp: held_by_def)
  moreover have "card (held_by a m) = 1 \<Longrightarrow> held_by a m - {l} = {}"
    using assms(2) by (auto simp: card_1_singleton_iff)
  then have "quiet a ?t"
    unfolding quiet_def h using assms i il n dec fin e by (auto simp: quiet_def held_by_def)
  ultimately show ?thesis by blast
qed

lemma quiet_panics:
  assumes "quiet a m"
  shows "l \<in> held_by a m \<Longrightarrow> acquire a fr l m = Panic ''acquire''"
    and "l \<notin> held_by a m \<Longrightarrow> release a l m = Panic ''release''"
proof -
  obtain i where i: "cpu_of m a = Some i" using assms by (auto simp: quiet_def)
  have il: "i < length (cpus m)" using i by (rule find_index_SomeD)
  have n: "0 \<le> cpu_ncli (cpus m ! i)" using assms i by (simp add: quiet_def)
  show "acquire a fr l m = Panic ''acquire''" if "l \<in> held_by a m"
    using that i il n by (simp add: acquire_def acquire_enter_def pushcli_run holding_run held_by_def)
  show "release a l m = Panic ''release''" if "l \<notin> held_by a m"
    using that i il n
    by (simp add: release_def release_begin_def holding_def pushcli_run mycpu_run popcli_run held_by_def)
qed

interpretation real_locks: lock_iface "acquire a fr" "release a" "held_by a" "quiet a" for a fr
  by unfold_locales (rule quiet_acquire quiet_release quiet_panics; assumption)+

text \<open>
  The base of the kernel state: the locks this CPU holds, most recent first. The other
  components are written over these two operations.
\<close>

record klocks =
  held :: "lockid list"

definition lk_acquire :: "lockid \<Rightarrow> ('z klocks_scheme, unit) kprog" where
  "lk_acquire l s = (if l \<in> set (held s) then Panic ''acquire'' else Ok () (s\<lparr>held := l # held s\<rparr>))"

definition lk_release :: "lockid \<Rightarrow> ('z klocks_scheme, unit) kprog" where
  "lk_release l s = (if l \<in> set (held s) then Ok () (s\<lparr>held := remove1 l (held s)\<rparr>) else Panic ''release'')"

text \<open>\<open>initlock\<close> leaves the lock free, whoever held it.\<close>

definition lk_init :: "lockid \<Rightarrow> ('z klocks_scheme, unit) kprog" where
  "lk_init l s = Ok () (s\<lparr>held := removeAll l (held s)\<rparr>)"

lemma lk_run [simp]:
  "l \<notin> set (held s) \<Longrightarrow> lk_acquire l s = Ok () (s\<lparr>held := l # held s\<rparr>)"
  "l \<in> set (held s) \<Longrightarrow> lk_acquire l s = Panic ''acquire''"
  "l \<in> set (held s) \<Longrightarrow> lk_release l s = Ok () (s\<lparr>held := remove1 l (held s)\<rparr>)"
  "l \<notin> set (held s) \<Longrightarrow> lk_release l s = Panic ''release''"
  "lk_init l s = Ok () (s\<lparr>held := removeAll l (held s)\<rparr>)"
  by (simp_all add: lk_acquire_def lk_release_def lk_init_def)

lemma wp_lk_acquire [wp_rules, simp]:
  "wp (lk_acquire l) Q s \<longleftrightarrow> l \<notin> set (held s) \<and> Q () (s\<lparr>held := l # held s\<rparr>)"
  by (simp add: wp_def lk_acquire_def)

lemma wp_lk_release [wp_rules, simp]:
  "wp (lk_release l) Q s \<longleftrightarrow> l \<in> set (held s) \<and> Q () (s\<lparr>held := remove1 l (held s)\<rparr>)"
  by (simp add: wp_def lk_release_def)

interpretation kernel_locks: lock_iface lk_acquire lk_release "\<lambda>s. set (held s)" "\<lambda>s. distinct (held s)"
  by unfold_locales (auto simp: lk_acquire_def lk_release_def)

definition lock_rel :: "u8 \<Rightarrow> mach \<Rightarrow> 'z klocks_scheme \<Rightarrow> bool" where
  "lock_rel a m s \<longleftrightarrow> quiet a m \<and> distinct (held s) \<and> set (held s) = held_by a m"

fun outcome_rel :: "('s \<Rightarrow> 't \<Rightarrow> bool) \<Rightarrow> ('a, 's) outcome \<Rightarrow> ('a, 't) outcome \<Rightarrow> bool" where
  "outcome_rel R (Ok x s) (Ok y t) = (x = y \<and> R s t)"
| "outcome_rel R (Panic e) (Panic e') = (e = e')"
| "outcome_rel R (Sleep c s) (Sleep c' t) = (c = c' \<and> R s t)"
| "outcome_rel R Diverge Diverge = True"
| "outcome_rel R _ _ = False"

text \<open>
  C5. The kernel's view of its locks refines to the real spin locks: from related states
  (the held list enumerates the locks this CPU holds) both \<open>acquire\<close>s and both \<open>release\<close>s agree,
  on success with related states and on panic with the same message.
\<close>

theorem spinlock_refines:
  assumes "lock_rel a m s"
  shows "outcome_rel (lock_rel a) (acquire a fr l m) (lk_acquire l s)
       \<and> outcome_rel (lock_rel a) (release a l m) (lk_release l s)"
proof -
  have R: "quiet a m" "distinct (held s)" "set (held s) = held_by a m" using assms by (auto simp: lock_rel_def)
  have "outcome_rel (lock_rel a) (acquire a fr l m) (lk_acquire l s)"
  proof (cases "l \<in> held_by a m")
    case True
    then show ?thesis using R real_locks.acq_held[of a m l fr] by (simp add: lk_acquire_def)
  next
    case False
    then show ?thesis using R real_locks.acq_free[of a m l fr]
      by (auto simp: lk_acquire_def lock_rel_def)
  qed
  moreover have "outcome_rel (lock_rel a) (release a l m) (lk_release l s)"
  proof (cases "l \<in> held_by a m")
    case True
    then show ?thesis using R real_locks.rel_held[of a m l]
      by (auto simp: lk_release_def lock_rel_def)
  next
    case False
    then show ?thesis using R real_locks.rel_free[of a m l] by (simp add: lk_release_def)
  qed
  ultimately show ?thesis ..
qed

theorem spinlock_refines_witness:
  "outcome_rel (lock_rel 4) (acquire 4 0 LK_log demo_mach) (lk_acquire LK_log \<lparr>held = []\<rparr>)
   \<and> outcome_rel (lock_rel 4) (release 4 LK_log demo_mach) (lk_release LK_log \<lparr>held = []\<rparr>)"
  by (rule spinlock_refines) (simp add: lock_rel_def quiet_def held_by_def demo_mach_def)

end
