(* ===== verification/Kalloc.thy ===== *)
theory Kalloc
  imports Cstring Spinlock
begin

text \<open>
  The physical page allocator, \<^verbatim>\<open>src/kalloc.c\<close>. The free list is threaded through the free pages
  themselves: the first word of a free page (\<^verbatim>\<open>struct run\<close>) is the address of the next one.
  \<open>kmem_inv\<close> relates that list in memory to a list of distinct page addresses, on which
  \<open>kalloc\<close> and \<open>kfree\<close> are pop and push.
\<close>

subsection \<open>Constants\<close>

definition PGSIZE :: u32 where "PGSIZE = 4096"
definition PHYSTOP :: u32 where "PHYSTOP = 0xE000000"
definition PGROUNDUP :: "u32 \<Rightarrow> u32" where "PGROUNDUP sz = (sz + PGSIZE - 1) AND NOT (PGSIZE - 1)"
definition PGROUNDDOWN :: "u32 \<Rightarrow> u32" where "PGROUNDDOWN a = a AND NOT (PGSIZE - 1)"
definition V2P :: "u32 \<Rightarrow> u32" where "V2P a = a - KERNBASE"
definition P2V :: "u32 \<Rightarrow> u32" where "P2V a = a + KERNBASE"

subsection \<open>State\<close>

text \<open>
  Kernel memory, the linker's symbol \<open>end\<close> (a parameter of the model: no operation writes it),
  and the fields of \<^verbatim>\<open>kmem\<close>.
\<close>

record kmem = klocks +
  kmemory :: mem
  kend :: u32
  use_lock :: bool
  freelist :: u32

subsection \<open>Operations\<close>

definition kfree :: "u32 \<Rightarrow> ('z kmem_scheme, unit) kprog" where
  "kfree v = kbind (kgets id) (\<lambda>s.
     if v mod PGSIZE \<noteq> 0 \<or> v < kend s \<or> V2P v \<ge> PHYSTOP then kpanic ''kfree''
     else kseq [
       kmodify (\<lambda>s. s\<lparr>kmemory := memset (kmemory s) v 1 PGSIZE\<rparr>),
       kwhen (use_lock s) (lk_acquire LK_kmem),
       kmodify (\<lambda>s. s\<lparr>kmemory := store32 (kmemory s) v (freelist s)\<rparr>),
       kmodify (\<lambda>s. s\<lparr>freelist := v\<rparr>),
       kwhen (use_lock s) (lk_release LK_kmem)])"

definition kalloc :: "('z kmem_scheme, u32) kprog" where
  "kalloc = kbind (kgets use_lock) (\<lambda>ul.
     kbind (kwhen ul (lk_acquire LK_kmem)) (\<lambda>_.
     kbind (kgets freelist) (\<lambda>r.
     kbind (kwhen (r \<noteq> 0) (kmodify (\<lambda>s. s\<lparr>freelist := load32 (kmemory s) r\<rparr>))) (\<lambda>_.
     kbind (kwhen ul (lk_release LK_kmem)) (\<lambda>_.
     kreturn r)))))"

lemma kfree_OkD: "kfree v s = Ok () s' \<Longrightarrow> v mod PGSIZE = 0 \<and> kend s \<le> v \<and> V2P v < PHYSTOP"
  by (simp add: kfree_def not_le not_less split: if_splits)

text \<open>A page that \<open>kfree\<close> accepts leaves room for another page above it.\<close>

lemma kfree_range:
  assumes "V2P v < PHYSTOP"
  shows "unat v < 0x8E000000" "unat (v + PGSIZE) = unat v + 4096"
proof -
  have "v - 0x80000000 < 0xE000000" using assms by (simp add: V2P_def KERNBASE_def PHYSTOP_def)
  then have b: "unat (v - 0x80000000) < 0xE000000" by (simp add: word_less_nat_alt)
  have "unat v = unat ((v - 0x80000000) + 0x80000000)" by simp
  also have "\<dots> \<le> unat (v - 0x80000000) + 0x80000000"
    using unat_plus_if'[of "v - 0x80000000" "0x80000000"] by (simp split: if_splits)
  finally show u: "unat v < 0x8E000000" using b by linarith
  show "unat (v + PGSIZE) = unat v + 4096"
    using u by (simp add: unat_plus_if' PGSIZE_def)
qed

text \<open>
  \<^verbatim>\<open>for(; p + PGSIZE <= vend; p += PGSIZE) kfree(p)\<close>: the address may wrap around, but \<open>kfree\<close>
  panics before it does.
\<close>

function freerange_loop :: "u32 \<Rightarrow> u32 \<Rightarrow> ('z kmem_scheme, unit) kprog" where
  "freerange_loop p vend s =
     (if p + PGSIZE \<le> vend then kbind (kfree p) (\<lambda>_ s'. freerange_loop (p + PGSIZE) vend s') s
      else Ok () s)"
  by pat_completeness auto
termination
proof (relation "measure (\<lambda>(p, vend, s). 4294967296 - unat p)")
  fix p vend :: u32 and s s' :: "'z kmem_scheme" and a :: unit
  assume "p + PGSIZE \<le> vend" "kfree p s = Ok a s'"
  then have "V2P p < PHYSTOP" using kfree_OkD[of p s s'] by simp
  from kfree_range[OF this]
  show "((p + PGSIZE, vend, s'), (p, vend, s)) \<in> measure (\<lambda>(p, vend, s). 4294967296 - unat p)"
    by simp
qed simp

declare freerange_loop.simps [simp del]

definition freerange :: "u32 \<Rightarrow> u32 \<Rightarrow> ('z kmem_scheme, unit) kprog" where
  "freerange vstart vend = freerange_loop (PGROUNDUP vstart) vend"

definition kinit1 :: "u32 \<Rightarrow> u32 \<Rightarrow> ('z kmem_scheme, unit) kprog" where
  "kinit1 vstart vend = kseq [lk_init LK_kmem, kmodify (\<lambda>s. s\<lparr>use_lock := False\<rparr>), freerange vstart vend]"

definition kinit2 :: "u32 \<Rightarrow> u32 \<Rightarrow> ('z kmem_scheme, unit) kprog" where
  "kinit2 vstart vend = kseq [freerange vstart vend, kmodify (\<lambda>s. s\<lparr>use_lock := True\<rparr>)]"

subsection \<open>The free list in memory\<close>

text \<open>\<open>is_chain m p fl\<close>: from \<open>p\<close>, the \<^verbatim>\<open>next\<close> pointers visit the pages \<open>fl\<close> and end at the null pointer.\<close>

fun is_chain :: "mem \<Rightarrow> u32 \<Rightarrow> u32 list \<Rightarrow> bool" where
  "is_chain m p [] = (p = 0)"
| "is_chain m p (v # fl) = (p = v \<and> v \<noteq> 0 \<and> is_chain m (load32 m v) fl)"

text \<open>The pages \<open>kfree\<close> accepts.\<close>

definition page_ok :: "'z kmem_scheme \<Rightarrow> u32 \<Rightarrow> bool" where
  "page_ok s v \<longleftrightarrow> v mod PGSIZE = 0 \<and> kend s \<le> v \<and> V2P v < PHYSTOP"

text \<open>Locking is possible: the allocator's lock is not already held by this CPU.\<close>

definition can_lock :: "'z kmem_scheme \<Rightarrow> bool" where
  "can_lock s \<longleftrightarrow> (use_lock s \<longrightarrow> LK_kmem \<notin> set (held s))"

definition kmem_inv :: "u32 list \<Rightarrow> 'z kmem_scheme \<Rightarrow> bool" where
  "kmem_inv fl s \<longleftrightarrow> is_chain (kmemory s) (freelist s) fl \<and> distinct fl \<and>
     (\<forall>v\<in>set fl. page_ok s v) \<and> can_lock s \<and> 0 < kend s"

lemma kmem_invD:
  assumes "kmem_inv fl s"
  shows "is_chain (kmemory s) (freelist s) fl" "distinct fl" "v \<in> set fl \<Longrightarrow> page_ok s v"
    "can_lock s" "0 < kend s"
  using assms by (auto simp: kmem_inv_def)

lemma is_chain_unique: "is_chain m p fl \<Longrightarrow> is_chain m p fl' \<Longrightarrow> fl = fl'"
proof (induction fl arbitrary: p fl')
  case Nil
  then show ?case by (cases fl') auto
next
  case (Cons v fl)
  then show ?case by (cases fl') auto
qed

text \<open>Two aligned pages are equal or do not meet: the page an address lies in.\<close>

abbreviation pageno :: "u32 \<Rightarrow> nat" where "pageno a \<equiv> unat a div 4096"

lemma aligned_unat: "v mod PGSIZE = 0 \<longleftrightarrow> unat v mod 4096 = 0"
proof -
  have "unat (v mod PGSIZE) = unat v mod 4096" by (simp add: unat_mod_distrib PGSIZE_def)
  then show ?thesis by (metis unat_eq_zero)
qed

lemma unat_page_add:
  assumes "v mod PGSIZE = 0" "unat k < 4096"
  shows "unat (v + k) = unat v + unat k"
proof -
  have "4096 dvd unat v" using assms(1) by (simp add: aligned_unat dvd_eq_mod_eq_0)
  then obtain q where q: "unat v = 4096 * q" by (auto elim: dvdE)
  then have "q < 1048576" using unat_u32_bound[of v] by linarith
  then have "unat v + unat k < 4294967296" using q assms(2) by linarith
  then show ?thesis by (simp add: unat_plus_if')
qed

lemma pageno_add: "v mod PGSIZE = 0 \<Longrightarrow> unat k < 4096 \<Longrightarrow> pageno (v + k) = pageno v"
  using unat_page_add[of v k] aligned_unat[of v] by (simp add: div_add1_eq)

lemma pageno_in: "v mod PGSIZE = 0 \<Longrightarrow> unat (a - v) < 4096 \<Longrightarrow> pageno a = pageno v"
  using pageno_add[of v "a - v"] by simp

lemma pageno_eq: "v mod PGSIZE = 0 \<Longrightarrow> w mod PGSIZE = 0 \<Longrightarrow> pageno v = pageno w \<Longrightarrow> v = w"
  unfolding aligned_unat by (metis mult_div_mod_eq word_unat_eq_iff)

lemma load32_cong:
  assumes "\<And>k. unat k < 4 \<Longrightarrow> m (a + k) = m' (a + k)"
  shows "load32 m a = load32 m' a"
  using assms[of 0] assms[of 1] assms[of 2] assms[of 3] by (simp add: load32_def)

text \<open>What \<open>kfree\<close> leaves in memory: junk in the page, the link in its first word.\<close>

definition junk :: "mem \<Rightarrow> u32 \<Rightarrow> u32 \<Rightarrow> mem" where
  "junk m v nxt = store32 (memset m v 1 PGSIZE) v nxt"

lemma store32_outside:
  assumes "v mod PGSIZE = 0" "pageno a \<noteq> pageno v"
  shows "store32 m v w a = m a"
proof -
  have "a \<noteq> v + k" if "unat k < 4096" for k using pageno_add[OF assms(1) that] assms(2) by auto
  from this[of 0] this[of 1] this[of 2] this[of 3] show ?thesis by (simp add: store32_def)
qed

lemma memset_apply: "memset m dst c n a = (if a - dst < n then ucast c else m a)"
  using stosb_apply[of "unat n" m dst "ucast c" a] unat_u32_bound[of n]
  by (simp add: memset_stosb word_less_nat_alt)

lemma junk_outside:
  assumes "v mod PGSIZE = 0" "pageno a \<noteq> pageno v"
  shows "junk m v nxt a = m a"
  using assms pageno_in[of v a]
  by (auto simp: junk_def store32_outside memset_apply word_less_nat_alt PGSIZE_def)

lemma load32_junk_same: "load32 (junk m v nxt) v = nxt"
  by (simp add: junk_def)

lemma load32_junk_other:
  assumes "v mod PGSIZE = 0" "w mod PGSIZE = 0" "v \<noteq> w"
  shows "load32 (junk m v nxt) w = load32 m w"
proof (rule load32_cong)
  fix k :: u32 assume "unat k < 4"
  then have "pageno (w + k) \<noteq> pageno v" using pageno_add[OF assms(2)] pageno_eq[OF assms(1,2)] assms(3) by force
  then show "junk m v nxt (w + k) = m (w + k)" by (rule junk_outside[OF assms(1)])
qed

lemma is_chain_junk:
  assumes "is_chain m p fl" "v mod PGSIZE = 0" "v \<notin> set fl" "\<forall>w\<in>set fl. w mod PGSIZE = 0"
  shows "is_chain (junk m v nxt) p fl"
  using assms by (induction fl arbitrary: p) (auto simp: load32_junk_other)

subsection \<open>What the operations do\<close>

lemma kfree_run:
  assumes "can_lock s"
  shows "kfree v s = (if page_ok s v
     then Ok () (s\<lparr>kmemory := junk (kmemory s) v (freelist s), freelist := v\<rparr>) else Panic ''kfree'')"
  using assms by (auto simp: kfree_def page_ok_def can_lock_def junk_def kwhen_def not_le not_less)

lemma kalloc_run:
  assumes "can_lock s"
  shows "kalloc s = Ok (freelist s)
     (if freelist s = 0 then s else s\<lparr>freelist := load32 (kmemory s) (freelist s)\<rparr>)"
  using assms by (auto simp: kalloc_def can_lock_def kwhen_def)

lemma page_ok_frame [simp]:
  "page_ok (s\<lparr>kmemory := m\<rparr>) v = page_ok s v" "page_ok (s\<lparr>freelist := p\<rparr>) v = page_ok s v"
  "page_ok (s\<lparr>use_lock := b\<rparr>) v = page_ok s v" "page_ok (s\<lparr>held := h\<rparr>) v = page_ok s v"
  by (simp_all add: page_ok_def)

lemma can_lock_frame [simp]:
  "can_lock (s\<lparr>kmemory := m\<rparr>) = can_lock s" "can_lock (s\<lparr>freelist := p\<rparr>) = can_lock s"
  by (simp_all add: can_lock_def)

lemma page_ok_nonzero: "page_ok s v \<Longrightarrow> 0 < kend s \<Longrightarrow> v \<noteq> 0"
  by (auto simp: page_ok_def)

lemma kfree_push:
  assumes "kmem_inv fl s" "page_ok s v" "v \<notin> set fl"
  shows "kfree v s = Ok () (s\<lparr>kmemory := junk (kmemory s) v (freelist s), freelist := v\<rparr>)"
    and "kmem_inv (v # fl) (s\<lparr>kmemory := junk (kmemory s) v (freelist s), freelist := v\<rparr>)"
proof -
  note i = kmem_invD[OF assms(1)]
  show "kfree v s = Ok () (s\<lparr>kmemory := junk (kmemory s) v (freelist s), freelist := v\<rparr>)"
    using i(4) assms(2) by (simp add: kfree_run)
  have "is_chain (junk (kmemory s) v (freelist s)) (freelist s) fl"
    using i(1,3) assms(2,3) by (intro is_chain_junk) (auto simp: page_ok_def)
  then show "kmem_inv (v # fl) (s\<lparr>kmemory := junk (kmemory s) v (freelist s), freelist := v\<rparr>)"
    using i assms(2,3) page_ok_nonzero[of s v] by (auto simp: kmem_inv_def load32_junk_same)
qed

lemma kalloc_pop:
  assumes "kmem_inv (v # fl) s"
  shows "kalloc s = Ok v (s\<lparr>freelist := load32 (kmemory s) v\<rparr>)"
    and "kmem_inv fl (s\<lparr>freelist := load32 (kmemory s) v\<rparr>)"
  using assms kmem_invD[OF assms] by (auto simp: kalloc_run kmem_inv_def)

lemma kalloc_empty: "kmem_inv [] s \<Longrightarrow> kalloc s = Ok 0 s"
  using kmem_invD[of "[]" s] by (simp add: kalloc_run)

subsection \<open>The allocator as an interface\<close>

text \<open>What the users of the allocator rely on, with a pool of free pages.\<close>

locale page_allocator =
  fixes alloc :: "('s, u32) kprog"
    and free :: "u32 \<Rightarrow> ('s, unit) kprog"
    and pool :: "'s \<Rightarrow> u32 set"
    and good :: "'s \<Rightarrow> bool"
    and valid :: "'s \<Rightarrow> u32 \<Rightarrow> bool"
  assumes alloc_empty: "good s \<Longrightarrow> pool s = {} \<Longrightarrow> alloc s = Ok 0 s"
    and alloc_some: "good s \<Longrightarrow> pool s \<noteq> {} \<Longrightarrow>
      \<exists>v s'. alloc s = Ok v s' \<and> v \<in> pool s \<and> v \<noteq> 0 \<and> pool s' = pool s - {v} \<and> good s'"
    and free_ok: "good s \<Longrightarrow> valid s v \<Longrightarrow> v \<notin> pool s \<Longrightarrow>
      \<exists>s'. free v s = Ok () s' \<and> pool s' = insert v (pool s) \<and> good s'"
    and pool_finite: "finite (pool s)"

fun alloc_n :: "('s, u32) kprog \<Rightarrow> nat \<Rightarrow> ('s, u32 list) kprog" where
  "alloc_n al 0 = kreturn []"
| "alloc_n al (Suc n) = kbind al (\<lambda>v. kbind (alloc_n al n) (\<lambda>vs. kreturn (v # vs)))"

context page_allocator
begin

lemma alloc_n_distinct:
  "good s \<Longrightarrow> n \<le> card (pool s) \<Longrightarrow>
    \<exists>vs s'. alloc_n alloc n s = Ok vs s' \<and> length vs = n \<and> distinct vs \<and> set vs \<subseteq> pool s \<and>
      pool s' = pool s - set vs \<and> good s'"
proof (induction n arbitrary: s)
  case 0
  then show ?case by (intro exI[of _ "[]"]) simp
next
  case (Suc n)
  then have "pool s \<noteq> {}" by auto
  with alloc_some Suc.prems(1) obtain v t where
    v: "alloc s = Ok v t" "v \<in> pool s" "pool t = pool s - {v}" "good t" by blast
  have "n \<le> card (pool t)" using Suc.prems(2) v(2,3) pool_finite[of s] by simp
  with Suc.IH[OF v(4)] obtain vs t' where
    vs: "alloc_n alloc n t = Ok vs t'" "length vs = n" "distinct vs" "set vs \<subseteq> pool t"
      "pool t' = pool t - set vs" "good t'" by blast
  show ?case
    by (rule exI[of _ "v # vs"], rule exI[of _ t']) (use v vs in auto)
qed

lemma free_then_alloc:
  assumes "good s" "pool s = {}" "valid s v"
  shows "\<exists>s' s''. free v s = Ok () s' \<and> alloc s' = Ok v s'' \<and> pool s'' = {} \<and> good s''"
proof -
  obtain t where t: "free v s = Ok () t" "pool t = {v}" "good t"
    using free_ok[OF assms(1,3)] assms(2) by auto
  from alloc_some[OF t(3)] t(2) obtain w t' where
    w: "alloc t = Ok w t'" "w \<in> pool t" "pool t' = pool t - {w}" "good t'" by auto
  then have "w = v" "pool t' = {}" using t(2) by auto
  then show ?thesis using t(1) w by auto
qed

end

definition free_pages :: "'z kmem_scheme \<Rightarrow> u32 set" where
  "free_pages s = {v. \<exists>fl. kmem_inv fl s \<and> v \<in> set fl}"

definition kmem_ok :: "'z kmem_scheme \<Rightarrow> bool" where
  "kmem_ok s \<longleftrightarrow> (\<exists>fl. kmem_inv fl s)"

lemma kmem_inv_unique: "kmem_inv fl s \<Longrightarrow> kmem_inv fl' s \<Longrightarrow> fl = fl'"
  using is_chain_unique by (auto simp: kmem_inv_def)

lemma free_pages_eq: "kmem_inv fl s \<Longrightarrow> free_pages s = set fl"
  unfolding free_pages_def using kmem_inv_unique[of fl s] by blast

lemma finite_free_pages: "finite (free_pages s)"
proof (cases "\<exists>fl. kmem_inv fl s")
  case True
  then show ?thesis using free_pages_eq by (metis List.finite_set)
qed (simp add: free_pages_def)

lemma kalloc_alloc_empty: "kmem_ok s \<Longrightarrow> free_pages s = {} \<Longrightarrow> kalloc s = Ok 0 s"
  by (auto simp: kmem_ok_def free_pages_eq kalloc_empty)

lemma kalloc_alloc_some:
  assumes "kmem_ok s" "free_pages s \<noteq> {}"
  shows "\<exists>v s'. kalloc s = Ok v s' \<and> v \<in> free_pages s \<and> v \<noteq> 0 \<and> free_pages s' = free_pages s - {v} \<and> kmem_ok s'"
proof -
  obtain fl where fl: "kmem_inv fl s" using assms(1) by (auto simp: kmem_ok_def)
  then obtain v vs where "fl = v # vs" using assms(2) free_pages_eq[OF fl] by (cases fl) auto
  then have i: "kmem_inv (v # vs) s" using fl by simp
  show ?thesis
    using kalloc_pop[OF i] free_pages_eq[OF i] free_pages_eq[OF kalloc_pop(2)[OF i]] kmem_invD(2)[OF i]
      page_ok_nonzero[OF kmem_invD(3)[OF i] kmem_invD(5)[OF i], of v]
    by (auto simp: kmem_ok_def)
qed

lemma kfree_free_ok:
  assumes "kmem_ok s" "page_ok s v" "v \<notin> free_pages s"
  shows "\<exists>s'. kfree v s = Ok () s' \<and> free_pages s' = insert v (free_pages s) \<and> kmem_ok s'"
proof -
  obtain fl where fl: "kmem_inv fl s" using assms(1) by (auto simp: kmem_ok_def)
  with assms(3) have "v \<notin> set fl" by (simp add: free_pages_eq)
  from kfree_push[OF fl assms(2) this] show ?thesis
    using free_pages_eq[OF fl] by (auto simp: kmem_ok_def free_pages_eq)
qed

interpretation kalloc_pages: page_allocator kalloc kfree free_pages kmem_ok page_ok
  by unfold_locales (rule kalloc_alloc_empty kalloc_alloc_some kfree_free_ok finite_free_pages; assumption?)+

subsection \<open>Start-up\<close>

text \<open>The pages that \<open>freerange\<close> visits from \<open>p\<close>.\<close>

definition pages_between :: "u32 \<Rightarrow> u32 \<Rightarrow> u32 set" where
  "pages_between p vend = {w. w mod PGSIZE = 0 \<and> p \<le> w \<and> unat w + 4096 \<le> unat vend}"

lemma pages_between_step:
  assumes "p mod PGSIZE = 0" "unat (p + PGSIZE) = unat p + 4096" "p + PGSIZE \<le> vend"
  shows "pages_between p vend = insert p (pages_between (p + PGSIZE) vend)"
proof (rule set_eqI)
  fix w
  have "4096 dvd unat p" using assms(1) by (simp add: aligned_unat dvd_eq_mod_eq_0)
  then obtain i where i: "unat p = 4096 * i" by (auto elim: dvdE)
  have vend: "unat p + 4096 \<le> unat vend" using assms(2,3) by (simp add: word_le_nat_alt)
  show "w \<in> pages_between p vend \<longleftrightarrow> w \<in> insert p (pages_between (p + PGSIZE) vend)"
  proof (cases "w mod PGSIZE = 0")
    case True
    then have "4096 dvd unat w" by (simp add: aligned_unat dvd_eq_mod_eq_0)
    then obtain j where j: "unat w = 4096 * j" by (auto elim: dvdE)
    have "w = p \<longleftrightarrow> j = i" using i j by (metis mult_cancel_left numeral_eq_iff word_unat_eq_iff zero_neq_numeral)
    then show ?thesis
      using True vend i j assms(2) by (auto simp: pages_between_def word_le_nat_alt)
  next
    case False
    then have "w \<noteq> p" using assms(1) by blast
    then show ?thesis using False by (simp add: pages_between_def)
  qed
qed

lemma pages_between_empty:
  assumes "unat (p + PGSIZE) = unat p + 4096" "\<not> p + PGSIZE \<le> vend"
  shows "pages_between p vend = {}"
  using assms by (auto simp: pages_between_def word_le_nat_alt)

text \<open>What \<open>freerange\<close> keeps of the state.\<close>

definition same_but_pages :: "'z kmem_scheme \<Rightarrow> 'z kmem_scheme \<Rightarrow> bool" where
  "same_but_pages s t \<longleftrightarrow> (\<exists>m p. t = s\<lparr>kmemory := m, freelist := p\<rparr>)"

lemma freerange_loop_adds:
  assumes "kmem_inv fl s" "p mod PGSIZE = 0" "kend s \<le> p" "KERNBASE \<le> p"
    "unat vend \<le> 0x8E000000" "unat p \<le> 0x8E000000" "\<forall>w\<in>set fl. w < p"
  shows "\<exists>t fl'. freerange_loop p vend s = Ok () t \<and> kmem_inv fl' t \<and>
    set fl' = set fl \<union> pages_between p vend \<and> same_but_pages s t"
  using assms
proof (induction p vend s arbitrary: fl rule: freerange_loop.induct)
  case (1 p vend s)
  have up: "unat (p + PGSIZE) = unat p + 4096"
    using "1.prems"(6) by (simp add: unat_plus_if' PGSIZE_def)
  show ?case
  proof (cases "p + PGSIZE \<le> vend")
    case False
    then show ?thesis
      using "1.prems"(1) pages_between_empty[OF up False]
      by (intro exI[of _ s] exI[of _ fl])
        (auto simp: freerange_loop.simps[of p vend s] same_but_pages_def intro!: exI[of _ "kmemory s"] exI[of _ "freelist s"])
  next
    case True
    have "unat p + 4096 \<le> 0x8E000000" using True up "1.prems"(5) by (simp add: word_le_nat_alt)
    moreover have "unat (p - KERNBASE) = unat p - 0x80000000"
      using "1.prems"(4) by (simp add: unat_sub KERNBASE_def)
    ultimately have ok: "page_ok s p"
      using "1.prems"(2,3,4) by (simp add: page_ok_def V2P_def PHYSTOP_def word_less_nat_alt)
    have "p \<notin> set fl" using "1.prems"(7) by auto
    note push = kfree_push[OF "1.prems"(1) ok this]
    let ?s = "s\<lparr>kmemory := junk (kmemory s) p (freelist s), freelist := p\<rparr>"
    have lt: "p < p + PGSIZE" using up by (simp add: word_less_nat_alt)
    have "\<exists>t fl'. freerange_loop (p + PGSIZE) vend ?s = Ok () t \<and> kmem_inv fl' t \<and>
        set fl' = set (p # fl) \<union> pages_between (p + PGSIZE) vend \<and> same_but_pages ?s t"
    proof (rule "1.IH"[OF True push(1) push(2)])
      show "(p + PGSIZE) mod PGSIZE = 0" using "1.prems"(2) up by (simp add: aligned_unat)
    qed (use "1.prems" lt up \<open>unat p + 4096 \<le> 0x8E000000\<close> in \<open>auto intro: order_trans less_imp_le less_trans\<close>)
    then show ?thesis
      using push(1) True pages_between_step[OF "1.prems"(2) up True]
      by (auto simp: freerange_loop.simps[of p vend s] same_but_pages_def)
  qed
qed

lemma unat_round: "unat (x AND NOT (PGSIZE - 1)) = unat x div 4096 * 4096"
proof -
  have m: "PGSIZE - 1 = mask 12" by (simp add: PGSIZE_def mask_eq_exp_minus_1)
  have "x AND NOT (mask 12) = x AND NOT (take_bit 12 x)"
    by (rule bit_word_eqI) (auto simp: bit_simps)
  also have "\<dots> = x - take_bit 12 x"
    by (rule disjunctive_diff[symmetric]) (simp add: bit_take_bit_iff)
  also have "take_bit 12 x = x mod 4096" by (simp add: take_bit_eq_mod)
  finally have "x AND NOT (PGSIZE - 1) = x - x mod 4096" by (simp only: m)
  moreover have "unat (x mod 4096) = unat x mod 4096" by (simp add: unat_mod_distrib)
  moreover have "x mod 4096 \<le> x" by (simp add: word_le_nat_alt unat_mod_distrib)
  ultimately have "unat (x AND NOT (PGSIZE - 1)) = unat x - unat x mod 4096" by (simp add: unat_sub)
  then show ?thesis by (simp add: minus_mod_eq_div_mult)
qed

lemma PGROUNDDOWN_props:
  "PGROUNDDOWN a mod PGSIZE = 0" "unat (PGROUNDDOWN a) = pageno a * 4096" "PGROUNDDOWN a \<le> a"
  using unat_round[of a] by (simp_all add: PGROUNDDOWN_def aligned_unat word_le_nat_alt)

lemma PGROUNDUP_props:
  assumes "unat a \<le> 4294963200"
  shows "PGROUNDUP a mod PGSIZE = 0" "unat (PGROUNDUP a) = (unat a + 4095) div 4096 * 4096"
    "a \<le> PGROUNDUP a" "w mod PGSIZE = 0 \<Longrightarrow> PGROUNDUP a \<le> w \<longleftrightarrow> a \<le> w"
proof -
  have "unat (a + PGSIZE - 1) = unat (a + 4095)" by (simp add: PGSIZE_def add.commute)
  also have "\<dots> = unat a + 4095" using assms by (simp add: unat_plus_if')
  finally show u: "unat (PGROUNDUP a) = (unat a + 4095) div 4096 * 4096"
    unfolding PGROUNDUP_def by (simp only: unat_round)
  show "PGROUNDUP a mod PGSIZE = 0" using u by (simp add: aligned_unat)
  show "a \<le> PGROUNDUP a" using u unfolding word_le_nat_alt by linarith
  assume "w mod PGSIZE = 0"
  then have "4096 dvd unat w" by (simp add: aligned_unat dvd_eq_mod_eq_0)
  then obtain j where "unat w = 4096 * j" by (auto elim: dvdE)
  moreover have "(unat a + 4095) div 4096 \<le> j \<longleftrightarrow> unat a \<le> 4096 * j"
  proof
    assume "(unat a + 4095) div 4096 \<le> j"
    then show "unat a \<le> 4096 * j" by linarith
  next
    assume "unat a \<le> 4096 * j"
    then have "(unat a + 4095) div 4096 < j + 1" by (intro div_less_iff_less_mult[THEN iffD2]) simp_all
    then show "(unat a + 4095) div 4096 \<le> j" by simp
  qed
  ultimately show "PGROUNDUP a \<le> w \<longleftrightarrow> a \<le> w" unfolding word_le_nat_alt u by simp
qed

lemma freerange_adds:
  assumes "kmem_inv fl s" "kend s \<le> PGROUNDUP vstart" "KERNBASE \<le> vstart"
    "unat vstart \<le> 0x8E000000" "unat vend \<le> 0x8E000000" "\<forall>w\<in>set fl. w < PGROUNDUP vstart"
  shows "\<exists>t fl'. freerange vstart vend s = Ok () t \<and> kmem_inv fl' t \<and>
    set fl' = set fl \<union> pages_between (PGROUNDUP vstart) vend \<and> same_but_pages s t"
proof -
  have b: "unat vstart \<le> 4294963200" using assms(4) by linarith
  note r = PGROUNDUP_props[OF b]
  show ?thesis unfolding freerange_def
  proof (rule freerange_loop_adds[OF assms(1) r(1) assms(2) _ assms(5) _ assms(6)])
    show "KERNBASE \<le> PGROUNDUP vstart" using r(3) assms(3) by (rule order_trans[rotated])
    have "(unat vstart + 4095) div 4096 \<le> 2382368767 div 4096"
      using assms(4) by (intro div_le_mono) linarith
    then show "unat (PGROUNDUP vstart) \<le> 0x8E000000" using r(2) by simp
  qed
qed

lemma same_but_pagesD:
  "same_but_pages s t \<Longrightarrow> kend t = kend s \<and> use_lock t = use_lock s \<and> held t = held s"
  by (auto simp: same_but_pages_def)

subsection \<open>Properties\<close>

text \<open>
  C9. On a well-formed free list \<open>kalloc\<close> is pop and \<open>kfree\<close> is push: \<open>kalloc\<close> returns the head page
  (0 when the list is empty) and touches no memory; \<open>kfree\<close> of a page that is not on the list
  pushes it, overwrites only that page, and panics exactly on addresses that are no kernel page.
\<close>

theorem kalloc_kfree_refine:
  assumes "kmem_inv fl s" "v \<notin> set fl"
  shows "(case fl of [] \<Rightarrow> kalloc s = Ok 0 s
      | w # fl' \<Rightarrow> (\<exists>t. kalloc s = Ok w t \<and> kmem_inv fl' t \<and> kmemory t = kmemory s)) \<and>
    (if page_ok s v
     then \<exists>t. kfree v s = Ok () t \<and> kmem_inv (v # fl) t \<and>
       (\<forall>a. pageno a \<noteq> pageno v \<longrightarrow> kmemory t a = kmemory s a)
     else kfree v s = Panic ''kfree'')"
proof
  show "case fl of [] \<Rightarrow> kalloc s = Ok 0 s
      | w # fl' \<Rightarrow> (\<exists>t. kalloc s = Ok w t \<and> kmem_inv fl' t \<and> kmemory t = kmemory s)"
    using kalloc_pop[of _ _ s] kalloc_empty[of s] assms(1) by (auto split: list.splits)
  have "kmemory t a = kmemory s a"
    if "t = s\<lparr>kmemory := junk (kmemory s) v (freelist s), freelist := v\<rparr>" "page_ok s v" "pageno a \<noteq> pageno v" for t a
    using that by (simp add: junk_outside page_ok_def)
  then show "if page_ok s v
     then \<exists>t. kfree v s = Ok () t \<and> kmem_inv (v # fl) t \<and>
       (\<forall>a. pageno a \<noteq> pageno v \<longrightarrow> kmemory t a = kmemory s a)
     else kfree v s = Panic ''kfree''"
    using kfree_push[OF assms(1) _ assms(2)] kfree_run[OF kmem_invD(4)[OF assms(1)], of v] by simp
qed

definition demo_kmem :: kmem where
  "demo_kmem = \<lparr>held = [], kmemory = (\<lambda>_. 0), kend = 0x80100000, use_lock = True, freelist = 0x80200000\<rparr>"

lemma demo_kmem_inv: "kmem_inv [0x80200000] demo_kmem"
  by (simp add: kmem_inv_def demo_kmem_def page_ok_def can_lock_def load32_def PGSIZE_def V2P_def KERNBASE_def PHYSTOP_def)

theorem kalloc_kfree_refine_witness:
  "(\<exists>t. kalloc demo_kmem = Ok 0x80200000 t \<and> kmem_inv [] t \<and> kmemory t = kmemory demo_kmem) \<and>
    (\<exists>t. kfree 0x80300000 demo_kmem = Ok () t \<and> kmem_inv [0x80300000, 0x80200000] t)"
proof -
  have "page_ok demo_kmem 0x80300000"
    by (simp add: demo_kmem_def page_ok_def PGSIZE_def V2P_def KERNBASE_def PHYSTOP_def)
  then show ?thesis using kalloc_kfree_refine[OF demo_kmem_inv, of "0x80300000"] by auto
qed

text \<open>
  C11. The allocator never hands out a page twice: \<open>n\<close> calls of \<open>kalloc\<close>, with at least \<open>n\<close> pages free,
  return \<open>n\<close> different non-free pages, and exactly these leave the pool of free pages.
\<close>

theorem kalloc_distinct_pages:
  assumes "kmem_ok s" "n \<le> card (free_pages s)"
  shows "\<exists>vs t. alloc_n kalloc n s = Ok vs t \<and> length vs = n \<and> distinct vs \<and>
    set vs \<subseteq> free_pages s \<and> free_pages t = free_pages s - set vs \<and> kmem_ok t"
  using assms by (rule kalloc_pages.alloc_n_distinct)

theorem kalloc_distinct_pages_witness: "\<exists>vs t. alloc_n kalloc 1 demo_kmem = Ok vs t \<and> set vs = {0x80200000}"
proof -
  have "kmem_ok demo_kmem" "free_pages demo_kmem = {0x80200000}"
    using demo_kmem_inv free_pages_eq[OF demo_kmem_inv] by (auto simp: kmem_ok_def)
  with kalloc_distinct_pages[of demo_kmem 1] obtain vs t where
    "alloc_n kalloc 1 demo_kmem = Ok vs t" "length vs = 1" "set vs \<subseteq> {0x80200000}" by auto
  moreover from this have "set vs = {0x80200000}" by (cases vs) auto
  ultimately show ?thesis by blast
qed

lemma page_range_split:
  assumes "KERNBASE < e" "e \<le> P2V 0x400000"
  shows "pages_between (PGROUNDUP e) (P2V 0x400000) \<union> pages_between (P2V 0x400000) (P2V PHYSTOP) =
    {v. v mod PGSIZE = 0 \<and> e \<le> v \<and> V2P v < PHYSTOP}"
proof (rule set_eqI)
  fix v
  have c: "unat (P2V 0x400000) = 0x80400000" "unat (P2V PHYSTOP) = 0x8E000000"
    by (simp_all add: P2V_def PHYSTOP_def KERNBASE_def)
  have e: "0x80000000 < unat e" "unat e \<le> 0x80400000"
    using assms c by (simp_all add: word_less_nat_alt word_le_nat_alt KERNBASE_def)
  show "v \<in> pages_between (PGROUNDUP e) (P2V 0x400000) \<union> pages_between (P2V 0x400000) (P2V PHYSTOP) \<longleftrightarrow>
    v \<in> {v. v mod PGSIZE = 0 \<and> e \<le> v \<and> V2P v < PHYSTOP}"
  proof (cases "v mod PGSIZE = 0 \<and> e \<le> v")
    case True
    then have "4096 dvd unat v" by (simp add: aligned_unat dvd_eq_mod_eq_0)
    then obtain j where j: "unat v = 4096 * j" by (auto elim: dvdE)
    have "unat (v - KERNBASE) = unat v - 0x80000000"
      using True e by (simp add: unat_sub KERNBASE_def word_le_nat_alt)
    then have "V2P v < PHYSTOP \<longleftrightarrow> unat v < 0x8E000000"
      using True e by (auto simp: V2P_def PHYSTOP_def word_less_nat_alt word_le_nat_alt)
    then show ?thesis
      using True e c j PGROUNDUP_props(4)[of e v] by (auto simp: pages_between_def word_le_nat_alt)
  next
    case False
    then show ?thesis
      using e c PGROUNDUP_props(4)[of e v]
      by (auto simp: pages_between_def word_le_nat_alt simp del: mod_0_imp_dvd del: mod_0_imp_dvd)
  qed
qed

lemma boot_consts:
  "unat (P2V 0x400000) = 0x80400000" "unat (P2V PHYSTOP) = 0x8E000000" "unat KERNBASE = 0x80000000"
  "PGROUNDUP (P2V 0x400000) = P2V 0x400000"
  by (simp_all add: P2V_def PHYSTOP_def KERNBASE_def PGROUNDUP_def PGSIZE_def)

lemma kinit1_run:
  assumes "freelist s = 0" "KERNBASE < kend s" "kend s \<le> P2V 0x400000"
  shows "\<exists>t fl. kinit1 (kend s) (P2V 0x400000) s = Ok () t \<and> kmem_inv fl t \<and> \<not> use_lock t \<and>
    kend t = kend s \<and> LK_kmem \<notin> set (held t) \<and> set fl = pages_between (PGROUNDUP (kend s)) (P2V 0x400000)"
proof -
  let ?s = "s\<lparr>held := removeAll LK_kmem (held s), use_lock := False\<rparr>"
  have e: "0x80000000 < unat (kend s)" "unat (kend s) \<le> 0x80400000"
    using assms(2,3) unfolding word_less_nat_alt word_le_nat_alt boot_consts by simp_all
  have "0 < kend s" using e(1) unfolding word_less_nat_alt by simp
  then have i: "kmem_inv [] ?s" using assms(1) by (simp add: kmem_inv_def can_lock_def)
  have "kend ?s \<le> PGROUNDUP (kend s)" using PGROUNDUP_props(3)[of "kend s"] e(2) by simp
  moreover have "KERNBASE \<le> kend s" using assms(2) by (rule less_imp_le)
  moreover have "unat (kend s) \<le> 0x8E000000" "unat (P2V 0x400000) \<le> 0x8E000000"
    using e(2) boot_consts(1) by linarith+
  ultimately obtain t fl' where "freerange (kend s) (P2V 0x400000) ?s = Ok () t" "kmem_inv fl' t"
      "set fl' = set [] \<union> pages_between (PGROUNDUP (kend s)) (P2V 0x400000)" "same_but_pages ?s t"
    using freerange_adds[OF i, of "kend s" "P2V 0x400000"] by auto
  then show ?thesis using same_but_pagesD[of ?s t] by (intro exI[of _ t] exI[of _ fl']) (simp add: kinit1_def)
qed

text \<open>
  C10. At start-up \<open>kinit1(end, P2V(4MB))\<close> and \<open>kinit2(P2V(4MB), P2V(PHYSTOP))\<close> leave every page between
  the end of the kernel and the top of physical memory on the free list, once, and no other,
  and switch locking on.
\<close>

theorem kinit_frees_all_pages:
  assumes "freelist s = 0" "KERNBASE < kend s" "kend s \<le> P2V 0x400000"
  shows "\<exists>t fl. kbind (kinit1 (kend s) (P2V 0x400000)) (\<lambda>_. kinit2 (P2V 0x400000) (P2V PHYSTOP)) s = Ok () t \<and>
    kmem_inv fl t \<and> use_lock t \<and>
    set fl = {v. v mod PGSIZE = 0 \<and> kend s \<le> v \<and> V2P v < PHYSTOP}"
proof -
  obtain t fl where t: "kinit1 (kend s) (P2V 0x400000) s = Ok () t" "kmem_inv fl t" "\<not> use_lock t"
    "kend t = kend s" "LK_kmem \<notin> set (held t)" "set fl = pages_between (PGROUNDUP (kend s)) (P2V 0x400000)"
    using kinit1_run[OF assms] by blast
  note c = boot_consts
  have "\<forall>w\<in>set fl. w < P2V 0x400000" unfolding t(6) pages_between_def word_less_nat_alt by simp
  moreover have "KERNBASE \<le> P2V 0x400000" unfolding word_le_nat_alt c by simp
  moreover have "unat (P2V 0x400000) \<le> 0x8E000000" "unat (P2V PHYSTOP) \<le> 0x8E000000" unfolding c by simp_all
  ultimately obtain u fl' where u: "freerange (P2V 0x400000) (P2V PHYSTOP) t = Ok () u" "kmem_inv fl' u"
    "set fl' = set fl \<union> pages_between (P2V 0x400000) (P2V PHYSTOP)" "same_but_pages t u"
    using freerange_adds[OF t(2), of "P2V 0x400000" "P2V PHYSTOP"] assms(3) t(4) unfolding c(4) by auto
  have "kmem_inv fl' (u\<lparr>use_lock := True\<rparr>)"
    using u(2) same_but_pagesD[OF u(4)] t(5) by (simp add: kmem_inv_def can_lock_def)
  moreover have "kinit2 (P2V 0x400000) (P2V PHYSTOP) t = Ok () (u\<lparr>use_lock := True\<rparr>)"
    using u(1) by (simp add: kinit2_def)
  ultimately show ?thesis
    using t(1) u(3) t(6) page_range_split[OF assms(2,3)]
    by (intro exI[of _ "u\<lparr>use_lock := True\<rparr>"] exI[of _ fl']) simp
qed

definition boot_kmem :: kmem where
  "boot_kmem = \<lparr>held = [], kmemory = (\<lambda>_. 0), kend = 0x80115000, use_lock = False, freelist = 0\<rparr>"

theorem kinit_frees_all_pages_witness:
  "\<exists>t fl. kbind (kinit1 0x80115000 (P2V 0x400000)) (\<lambda>_. kinit2 (P2V 0x400000) (P2V PHYSTOP)) boot_kmem = Ok () t \<and>
    kmem_inv fl t \<and> 0x80115000 \<in> set fl"
proof -
  have e: "freelist boot_kmem = 0" "KERNBASE < kend boot_kmem" "kend boot_kmem \<le> P2V 0x400000"
    "kend boot_kmem = 0x80115000"
    by (simp_all add: boot_kmem_def P2V_def KERNBASE_def)
  obtain t fl where t: "kbind (kinit1 0x80115000 (P2V 0x400000)) (\<lambda>_. kinit2 (P2V 0x400000) (P2V PHYSTOP)) boot_kmem = Ok () t"
    "kmem_inv fl t" "set fl = {v. v mod PGSIZE = 0 \<and> 0x80115000 \<le> v \<and> V2P v < PHYSTOP}"
    using kinit_frees_all_pages[OF e(1,2,3)] unfolding e(4) by (elim exE conjE)
  have "0x80115000 \<in> set fl" unfolding t(3) by (simp add: PGSIZE_def V2P_def KERNBASE_def PHYSTOP_def)
  with t(1,2) show ?thesis by (intro exI conjI)
qed

end
