(* ===== verification/Vm.thy ===== *)
theory Vm
  imports Layout
begin

text \<open>
  Page tables: \<^verbatim>\<open>src/vm.c\<close> except \<^verbatim>\<open>loaduvm\<close>, which reads from an inode and is in \<^verbatim>\<open>Exec\<close>. Page directories and page
  tables live in kernel memory, entry by entry, as the hardware reads them; a pointer into them
  is an address. An \<^verbatim>\<open>int\<close> result that only signals failure (0 or -1) stays an integer.

  A loop whose exit test compares wrapping addresses carries a fuel of \<open>2 ^ 20\<close> iterations, the
  number of pages of the address space, and diverges when it runs out. \<^verbatim>\<open>Paging\<close> shows
  that \<open>mappages\<close> never does.
\<close>

subsection \<open>State\<close>

text \<open>
  \<open>kdata\<close> is the linker's symbol \<open>data\<close>, \<open>ts_base\<close> the address of this CPU's task state: no
  operation writes them. \<open>kout\<close> collects what is printed on the console, format and arguments;
  how a format is printed is in \<^verbatim>\<open>Console\<close>. A
  \<^verbatim>\<open>pushcli\<close>/\<^verbatim>\<open>popcli\<close> pair inside one function leaves the locks held by this CPU as they were.
\<close>

record vm = kmem +
  kdata :: u32
  kpgdir :: u32
  cr3 :: u32
  gdt :: "segdesc list"
  cpu_ts :: taskstate
  ts_base :: u32
  kout :: "(string \<times> u32 list) list"

definition cprintf :: "string \<Rightarrow> u32 list \<Rightarrow> ('z vm_scheme, unit) kprog" where
  "cprintf fmt args = kmodify (\<lambda>s. s\<lparr>kout := kout s @ [(fmt, args)]\<rparr>)"

definition kdiverge :: "('s, 'a) kprog" where
  "kdiverge = (\<lambda>s. Diverge)"

definition VMFUEL :: nat where "VMFUEL = 1048576"

text \<open>Reads and writes of words of kernel memory.\<close>

definition mget :: "u32 \<Rightarrow> ('z kmem_scheme, u32) kprog" where
  "mget a = kgets (\<lambda>s. load32 (kmemory s) a)"

definition mput :: "u32 \<Rightarrow> u32 \<Rightarrow> ('z kmem_scheme, unit) kprog" where
  "mput a v = kmodify (\<lambda>s. s\<lparr>kmemory := store32 (kmemory s) a v\<rparr>)"

definition mfill :: "u32 \<Rightarrow> u32 \<Rightarrow> u32 \<Rightarrow> ('z kmem_scheme, unit) kprog" where
  "mfill a c n = kmodify (\<lambda>s. s\<lparr>kmemory := memset (kmemory s) a c n\<rparr>)"

definition mcopy :: "u32 \<Rightarrow> u32 \<Rightarrow> u32 \<Rightarrow> ('z kmem_scheme, unit) kprog" where
  "mcopy dst src n = kmodify (\<lambda>s. s\<lparr>kmemory := memmove (kmemory s) dst src n\<rparr>)"

text \<open>Writing a byte string that the caller has at hand.\<close>

fun store_bytes :: "mem \<Rightarrow> u32 \<Rightarrow> u8 list \<Rightarrow> mem" where
  "store_bytes m a [] = m"
| "store_bytes m a (b # bs) = store_bytes (m(a := b)) (a + 1) bs"

definition mwrite :: "u32 \<Rightarrow> u8 list \<Rightarrow> ('z kmem_scheme, unit) kprog" where
  "mwrite a bs = kmodify (\<lambda>s. s\<lparr>kmemory := store_bytes (kmemory s) a bs\<rparr>)"

subsection \<open>Page tables\<close>

definition walkpgdir :: "u32 \<Rightarrow> u32 \<Rightarrow> bool \<Rightarrow> ('z kmem_scheme, u32) kprog" where
  "walkpgdir pd va al =
     kbind (kreturn (pd + 4 * PDX va)) (\<lambda>pde.
     kbind (mget pde) (\<lambda>e.
       if e AND PTE_P \<noteq> 0 then kreturn (P2V (PTE_ADDR e) + 4 * PTX va)
       else if \<not> al then kreturn 0
       else kbind kalloc (\<lambda>pgtab.
         if pgtab = 0 then kreturn 0
         else kbind (mfill pgtab 0 PGSIZE) (\<lambda>_.
           kbind (mput pde (V2P pgtab OR PTE_P OR PTE_W OR PTE_U)) (\<lambda>_.
           kreturn (pgtab + 4 * PTX va))))))"

fun mappages_loop :: "nat \<Rightarrow> u32 \<Rightarrow> u32 \<Rightarrow> u32 \<Rightarrow> u32 \<Rightarrow> u32 \<Rightarrow> ('z kmem_scheme, int) kprog" where
  "mappages_loop 0 pd a lst pa perm = kdiverge"
| "mappages_loop (Suc fuel) pd a lst pa perm =
     kbind (walkpgdir pd a True) (\<lambda>pte.
       if pte = 0 then kreturn (- 1)
       else kbind (mget pte) (\<lambda>e.
         if e AND PTE_P \<noteq> 0 then kpanic ''remap''
         else kbind (mput pte (pa OR perm OR PTE_P)) (\<lambda>_.
           if a = lst then kreturn 0
           else mappages_loop fuel pd (a + PGSIZE) lst (pa + PGSIZE) perm)))"

definition mappages :: "u32 \<Rightarrow> u32 \<Rightarrow> u32 \<Rightarrow> u32 \<Rightarrow> u32 \<Rightarrow> ('z kmem_scheme, int) kprog" where
  "mappages pd va nby pa perm =
     mappages_loop VMFUEL pd (PGROUNDDOWN va) (PGROUNDDOWN (va + nby - 1)) pa perm"

text \<open>The result of \<^verbatim>\<open>deallocuvm\<close> is a size, of \<^verbatim>\<open>int\<close> type in C and used as \<^verbatim>\<open>uint\<close>.\<close>

fun deallocuvm_loop :: "nat \<Rightarrow> u32 \<Rightarrow> u32 \<Rightarrow> u32 \<Rightarrow> ('z kmem_scheme, unit) kprog" where
  "deallocuvm_loop 0 pd a oldsz = kdiverge"
| "deallocuvm_loop (Suc fuel) pd a oldsz =
     (if \<not> a < oldsz then kreturn ()
      else kbind (walkpgdir pd a False) (\<lambda>pte.
        if pte = 0 then deallocuvm_loop fuel pd (PGADDR (PDX a + 1) 0 0 - PGSIZE + PGSIZE) oldsz
        else kbind (mget pte) (\<lambda>e.
          if e AND PTE_P \<noteq> 0
          then (let pa = PTE_ADDR e
                in if pa = 0 then kpanic ''kfree''
                   else kbind (kfree (P2V pa)) (\<lambda>_.
                     kbind (mput pte 0) (\<lambda>_.
                     deallocuvm_loop fuel pd (a + PGSIZE) oldsz)))
          else deallocuvm_loop fuel pd (a + PGSIZE) oldsz)))"

definition deallocuvm :: "u32 \<Rightarrow> u32 \<Rightarrow> u32 \<Rightarrow> ('z kmem_scheme, u32) kprog" where
  "deallocuvm pd oldsz newsz =
     (if newsz \<ge> oldsz then kreturn oldsz
      else kbind (deallocuvm_loop VMFUEL pd (PGROUNDUP newsz) oldsz) (\<lambda>_. kreturn newsz))"

definition freevm :: "u32 \<Rightarrow> ('z kmem_scheme, unit) kprog" where
  "freevm pd =
     (if pd = 0 then kpanic ''freevm: no pgdir''
      else kbind (deallocuvm pd KERNBASE 0) (\<lambda>_.
        kbind (kfor [0..<NPDENTRIES] (\<lambda>i.
          kbind (mget (pd + 4 * of_nat i)) (\<lambda>e.
            kwhen (e AND PTE_P \<noteq> 0) (kfree (P2V (PTE_ADDR e)))))) (\<lambda>_.
        kfree pd)))"

text \<open>The kernel's mappings: virtual address, physical range, permissions.\<close>

definition kmap :: "'z vm_scheme \<Rightarrow> (u32 \<times> u32 \<times> u32 \<times> u32) list" where
  "kmap s = [(KERNBASE, 0, EXTMEM, PTE_W),
     (KERNLINK, V2P KERNLINK, V2P (kdata s), 0),
     (kdata s, V2P (kdata s), PHYSTOP, PTE_W),
     (DEVSPACE, DEVSPACE, 0, PTE_W)]"

fun setupkvm_loop :: "u32 \<Rightarrow> (u32 \<times> u32 \<times> u32 \<times> u32) list \<Rightarrow> ('z vm_scheme, u32) kprog" where
  "setupkvm_loop pd [] = kreturn pd"
| "setupkvm_loop pd ((virt, phys_start, phys_end, perm) # ks) =
     kbind (mappages pd virt (phys_end - phys_start) phys_start perm) (\<lambda>r.
       if r < 0 then kbind (freevm pd) (\<lambda>_. kreturn 0)
       else setupkvm_loop pd ks)"

definition setupkvm :: "('z vm_scheme, u32) kprog" where
  "setupkvm = kbind kalloc (\<lambda>pd.
     if pd = 0 then kreturn 0
     else kbind (mfill pd 0 PGSIZE) (\<lambda>_.
       if P2V PHYSTOP > DEVSPACE then kpanic ''PHYSTOP too high''
       else kbind (kgets kmap) (\<lambda>ks. setupkvm_loop pd ks)))"

definition switchkvm :: "('z vm_scheme, unit) kprog" where
  "switchkvm = kmodify (\<lambda>s. s\<lparr>cr3 := V2P (kpgdir s)\<rparr>)"

definition kvmalloc :: "('z vm_scheme, unit) kprog" where
  "kvmalloc = kbind setupkvm (\<lambda>pd. kseq [kmodify (\<lambda>s. s\<lparr>kpgdir := pd\<rparr>), switchkvm])"

text \<open>\<^verbatim>\<open>sizeof(struct taskstate)\<close> is 104 bytes.\<close>

definition switchuvm :: "proc option \<Rightarrow> ('z vm_scheme, unit) kprog" where
  "switchuvm po = (case po of
     None \<Rightarrow> kpanic ''switchuvm: no process''
   | Some p \<Rightarrow>
       if kstack p = 0 then kpanic ''switchuvm: no kstack''
       else if pgdir p = 0 then kpanic ''switchuvm: no pgdir''
       else kseq [
         kmodify (\<lambda>s. s\<lparr>gdt := (gdt s)[SEG_TSS := SEG16 STS_T32A (ts_base s) (104 - 1) 0]\<rparr>),
         kmodify (\<lambda>s. s\<lparr>gdt := upd_at SEG_TSS (\<lambda>d. d\<lparr>sd_s := 0\<rparr>) (gdt s)\<rparr>),
         kmodify (\<lambda>s. s\<lparr>cpu_ts := (cpu_ts s)\<lparr>ts_ss0 := push_bit 3 (of_nat SEG_KDATA)\<rparr>\<rparr>),
         kmodify (\<lambda>s. s\<lparr>cpu_ts := (cpu_ts s)\<lparr>ts_esp0 := kstack p + KSTACKSIZE\<rparr>\<rparr>),
         kmodify (\<lambda>s. s\<lparr>cpu_ts := (cpu_ts s)\<lparr>ts_iomb := 0xFFFF\<rparr>\<rparr>),
         kmodify (\<lambda>s. s\<lparr>cr3 := V2P (pgdir p)\<rparr>)])"

definition seginit :: "('z vm_scheme, unit) kprog" where
  "seginit = kseq [
     kmodify (\<lambda>s. s\<lparr>gdt := (gdt s)[SEG_KCODE := SEG (STA_X OR STA_R) 0 0xFFFFFFFF 0]\<rparr>),
     kmodify (\<lambda>s. s\<lparr>gdt := (gdt s)[SEG_KDATA := SEG STA_W 0 0xFFFFFFFF 0]\<rparr>),
     kmodify (\<lambda>s. s\<lparr>gdt := (gdt s)[SEG_UCODE := SEG (STA_X OR STA_R) 0 0xFFFFFFFF DPL_USER]\<rparr>),
     kmodify (\<lambda>s. s\<lparr>gdt := (gdt s)[SEG_UDATA := SEG STA_W 0 0xFFFFFFFF DPL_USER]\<rparr>)]"

definition inituvm :: "u32 \<Rightarrow> u32 \<Rightarrow> u32 \<Rightarrow> ('z vm_scheme, unit) kprog" where
  "inituvm pd init nby =
     (if nby \<ge> PGSIZE then kpanic ''inituvm: more than a page''
      else kbind kalloc (\<lambda>pg.
        kbind (mfill pg 0 PGSIZE) (\<lambda>_.
        kbind (mappages pd 0 PGSIZE (V2P pg) (PTE_W OR PTE_U)) (\<lambda>_.
        mcopy pg init nby))))"

fun allocuvm_loop :: "nat \<Rightarrow> u32 \<Rightarrow> u32 \<Rightarrow> u32 \<Rightarrow> u32 \<Rightarrow> ('z vm_scheme, u32) kprog" where
  "allocuvm_loop 0 pd a oldsz newsz = kdiverge"
| "allocuvm_loop (Suc fuel) pd a oldsz newsz =
     (if \<not> a < newsz then kreturn newsz
      else kbind kalloc (\<lambda>pg.
        if pg = 0
        then kbind (cprintf ''allocuvm out of memory\<newline>'' []) (\<lambda>_.
          kbind (deallocuvm pd newsz oldsz) (\<lambda>_. kreturn 0))
        else kbind (mfill pg 0 PGSIZE) (\<lambda>_.
          kbind (mappages pd a PGSIZE (V2P pg) (PTE_W OR PTE_U)) (\<lambda>r.
            if r < 0
            then kbind (cprintf ''allocuvm out of memory (2)\<newline>'' []) (\<lambda>_.
              kbind (deallocuvm pd newsz oldsz) (\<lambda>_.
              kbind (kfree pg) (\<lambda>_. kreturn 0)))
            else allocuvm_loop fuel pd (a + PGSIZE) oldsz newsz))))"

definition allocuvm :: "u32 \<Rightarrow> u32 \<Rightarrow> u32 \<Rightarrow> ('z vm_scheme, u32) kprog" where
  "allocuvm pd oldsz newsz =
     (if newsz \<ge> KERNBASE then kreturn 0
      else if newsz < oldsz then kreturn oldsz
      else allocuvm_loop VMFUEL pd (PGROUNDUP oldsz) oldsz newsz)"

definition clearpteu :: "u32 \<Rightarrow> u32 \<Rightarrow> ('z vm_scheme, unit) kprog" where
  "clearpteu pd uva = kbind (walkpgdir pd uva False) (\<lambda>pte.
     if pte = 0 then kpanic ''clearpteu''
     else kbind (mget pte) (\<lambda>e. mput pte (e AND NOT PTE_U)))"

fun copyuvm_loop :: "nat \<Rightarrow> u32 \<Rightarrow> u32 \<Rightarrow> u32 \<Rightarrow> u32 \<Rightarrow> ('z vm_scheme, u32) kprog" where
  "copyuvm_loop 0 pd d i nby = kdiverge"
| "copyuvm_loop (Suc fuel) pd d i nby =
     (if \<not> i < nby then kreturn d
      else kbind (walkpgdir pd i False) (\<lambda>pte.
        if pte = 0 then kpanic ''copyuvm: pte should exist''
        else kbind (mget pte) (\<lambda>e.
          if e AND PTE_P = 0 then kpanic ''copyuvm: page not present''
          else kbind kalloc (\<lambda>pg.
            if pg = 0 then kbind (freevm d) (\<lambda>_. kreturn 0)
            else kbind (mcopy pg (P2V (PTE_ADDR e)) PGSIZE) (\<lambda>_.
              kbind (mappages d i PGSIZE (V2P pg) (PTE_FLAGS e)) (\<lambda>r.
                if r < 0 then kbind (kfree pg) (\<lambda>_. kbind (freevm d) (\<lambda>_. kreturn 0))
                else copyuvm_loop fuel pd d (i + PGSIZE) nby))))))"

definition copyuvm :: "u32 \<Rightarrow> u32 \<Rightarrow> ('z vm_scheme, u32) kprog" where
  "copyuvm pd nby = kbind setupkvm (\<lambda>d.
     if d = 0 then kreturn 0 else copyuvm_loop VMFUEL pd d 0 nby)"

text \<open>\<open>uva2ka\<close> does not test the result of \<open>walkpgdir\<close>: a null result is dereferenced, an access with no meaning in C.\<close>

definition uva2ka :: "u32 \<Rightarrow> u32 \<Rightarrow> ('z vm_scheme, u32) kprog" where
  "uva2ka pd uva = kbind (walkpgdir pd uva False) (\<lambda>pte.
     if pte = 0 then kpanic ''trap''
     else kbind (mget pte) (\<lambda>e.
       if e AND PTE_P = 0 then kreturn 0
       else if e AND PTE_U = 0 then kreturn 0
       else kreturn (P2V (PTE_ADDR e))))"

text \<open>
  \<open>copyout\<close> takes the bytes to copy as a list; its length is \<^verbatim>\<open>len\<close>. Every round copies at least
  one byte, so the list shrinks.
\<close>

definition copyout_chunk :: "u32 \<Rightarrow> nat \<Rightarrow> nat" where
  "copyout_chunk va len = min (unat (PGSIZE - (va - PGROUNDDOWN va))) len"

lemma copyout_chunk_pos: "bs \<noteq> [] \<Longrightarrow> 0 < copyout_chunk va (length bs)"
proof -
  have "unat (PGROUNDDOWN va) = unat va div 4096 * 4096" "PGROUNDDOWN va \<le> va"
    using PGROUNDDOWN_props[of va] by simp_all
  then have "unat (va - PGROUNDDOWN va) = unat va mod 4096"
    by (simp add: unat_sub minus_div_mult_eq_mod)
  then have "va - PGROUNDDOWN va < PGSIZE" by (simp add: word_less_nat_alt PGSIZE_def)
  then have "PGSIZE - (va - PGROUNDDOWN va) \<noteq> 0" by auto
  then show "bs \<noteq> [] \<Longrightarrow> 0 < copyout_chunk va (length bs)"
    by (simp add: copyout_chunk_def unat_gt_0)
qed

function copyout :: "u32 \<Rightarrow> u32 \<Rightarrow> u8 list \<Rightarrow> ('z vm_scheme, int) kprog" where
  "copyout pd va bs =
     (if bs = [] then kreturn 0
      else (let va0 = PGROUNDDOWN va; n = copyout_chunk va (length bs)
            in kbind (uva2ka pd va0) (\<lambda>pa0.
                 if pa0 = 0 then kreturn (- 1)
                 else kbind (mwrite (pa0 + (va - va0)) (take n bs)) (\<lambda>_.
                   copyout pd (va0 + PGSIZE) (drop n bs)))))"
  by pat_completeness auto
termination
  by (relation "measure (\<lambda>(pd, va, bs). length bs)") (auto simp: Let_def intro!: diff_less copyout_chunk_pos)

declare copyout.simps [simp del]

end
