(* ===== verification/Paging.thy ===== *)
theory Paging
  imports Vm
begin

text \<open>
  What the two-level page tables of \<^verbatim>\<open>src/vm.c\<close> mean: the map from virtual pages to page table entries
  that the hardware reads out of them, and what \<open>walkpgdir\<close> and \<open>mappages\<close> do to that map.
\<close>

subsection \<open>Indices and entries\<close>

lemma unat_PDX: "unat (PDX a) = pageno a div 1024"
proof -
  have "PDX a = drop_bit 22 a"
  proof (rule bit_word_eqI)
    fix n assume "n < LENGTH(32)"
    have m: "(0x3FF :: u32) = mask 10" by (simp add: mask_eq_exp_minus_1)
    show "bit (PDX a) n = bit (drop_bit 22 a) n"
      unfolding PDX_def m using bit_imp_le_length[of a "22 + n"] by (auto simp: bit_simps)
  qed
  then show ?thesis by (simp add: drop_bit_eq_div unat_div div_mult2_eq[symmetric])
qed

lemma unat_PTX: "unat (PTX a) = pageno a mod 1024"
proof -
  have "(0x3FF :: u32) = mask 10" by (simp add: mask_eq_exp_minus_1)
  then have "PTX a = take_bit 10 (drop_bit 12 a)" by (simp add: PTX_def take_bit_eq_mask)
  then show ?thesis by (simp add: drop_bit_eq_div take_bit_eq_mod unat_div unat_mod)
qed

lemma index_bounds: "unat (PDX a) < 1024" "unat (PTX a) < 1024"
  using unat_u32_bound[of a] by (simp_all add: unat_PDX unat_PTX div_less_iff_less_mult)

lemma index_eq: "PDX a = PDX b \<and> PTX a = PTX b \<longleftrightarrow> pageno a = pageno b"
proof
  assume "PDX a = PDX b \<and> PTX a = PTX b"
  then have "pageno a div 1024 = pageno b div 1024" "pageno a mod 1024 = pageno b mod 1024"
    using unat_PDX[of a] unat_PDX[of b] unat_PTX[of a] unat_PTX[of b] by simp_all
  then show "pageno a = pageno b" by (metis mult_div_mod_eq)
next
  assume "pageno a = pageno b"
  then have "unat (PDX a) = unat (PDX b)" "unat (PTX a) = unat (PTX b)" by (simp_all add: unat_PDX unat_PTX)
  then show "PDX a = PDX b \<and> PTX a = PTX b" by (simp add: word_unat_eq_iff)
qed

lemma unat_slot:
  assumes "v mod PGSIZE = 0" "unat k < 1024"
  shows "unat (v + 4 * k) = unat v + 4 * unat k" "pageno (v + 4 * k) = pageno v"
proof -
  have k: "unat (4 * k) = 4 * unat k" using assms(2) by (simp add: unat_word_ariths)
  then show "unat (v + 4 * k) = unat v + 4 * unat k" "pageno (v + 4 * k) = pageno v"
    using unat_page_add[OF assms(1), of "4 * k"] pageno_add[OF assms(1), of "4 * k"] assms(2) by simp_all
qed

lemma slot_byte:
  assumes "v mod PGSIZE = 0" "unat k < 1024" "unat i < 4"
  shows "unat (v + 4 * k + i) = unat v + 4 * unat k + unat i" "pageno (v + 4 * k + i) = pageno v"
proof -
  have k: "unat (4 * k) = 4 * unat k" using assms(2) by (simp add: unat_word_ariths)
  then have "unat (4 * k + i) = 4 * unat k + unat i" using assms(2,3) by (simp add: unat_plus_if')
  then show "unat (v + 4 * k + i) = unat v + 4 * unat k + unat i" "pageno (v + 4 * k + i) = pageno v"
    using unat_page_add[OF assms(1), of "4 * k + i"] pageno_add[OF assms(1), of "4 * k + i"] assms(2,3)
    by (simp_all add: add.assoc)
qed

text \<open>Entries of pages are disjoint words.\<close>

lemma load_store_slot:
  assumes "v mod PGSIZE = 0" "w mod PGSIZE = 0" "unat k < 1024" "unat j < 1024"
  shows "load32 (store32 m (v + 4 * k) x) (w + 4 * j) = (if v = w \<and> k = j then x else load32 m (w + 4 * j))"
proof (cases "v = w \<and> k = j")
  case False
  have "w + 4 * j + i \<noteq> v + 4 * k + h" if "unat i < 4" "unat h < 4" for i h
  proof
    assume e: "w + 4 * j + i = v + 4 * k + h"
    have "v = w" using slot_byte(2)[OF assms(2,4) that(1)] slot_byte(2)[OF assms(1,3) that(2)] pageno_eq[OF assms(1,2)] e by metis
    moreover from this have "4 * unat j + unat i = 4 * unat k + unat h"
      using slot_byte(1)[OF assms(2,4) that(1)] slot_byte(1)[OF assms(1,3) that(2)] e by simp
    then have "unat j = unat k" using that by linarith
    ultimately show False using False by (simp add: word_unat_eq_iff)
  qed
  note ne = this
  have "load32 (store32 m (v + 4 * k) x) (w + 4 * j) = load32 m (w + 4 * j)"
  proof (rule load32_cong)
    fix i :: u32 assume "unat i < 4"
    then show "store32 m (v + 4 * k) x (w + 4 * j + i) = m (w + 4 * j + i)"
      using ne[of i 0] ne[of i 1] ne[of i 2] ne[of i 3] by (simp add: store32_def)
  qed
  then show ?thesis unfolding if_not_P[OF False] .
qed simp

lemma aligned_and: "x mod PGSIZE = 0 \<longleftrightarrow> x AND 0xFFF = 0"
proof -
  have "(0xFFF :: u32) = mask 12" by (simp add: mask_eq_exp_minus_1)
  then have "x AND 0xFFF = take_bit 12 x" by (simp add: take_bit_eq_mask)
  moreover have "x mod PGSIZE = take_bit 12 x" by (simp add: take_bit_eq_mod PGSIZE_def)
  ultimately show ?thesis by simp
qed

lemma PTE_ADDR_flags:
  assumes "x mod PGSIZE = 0" "f AND NOT 0xFFF = 0"
  shows "PTE_ADDR (x OR f) = x"
proof (rule bit_word_eqI)
  fix n assume n: "n < LENGTH(32)"
  have "\<not> bit (x AND 0xFFF) n" "\<not> bit (f AND NOT 0xFFF) n" using assms by (simp_all add: aligned_and)
  then show "bit (PTE_ADDR (x OR f)) n = bit x n" using n by (auto simp: PTE_ADDR_def bit_simps)
qed

lemma entry_present: "(x OR f OR PTE_P) AND PTE_P \<noteq> 0"
proof -
  have "bit ((x OR f OR PTE_P) AND PTE_P) 0" by (simp add: PTE_P_def bit_simps)
  then show ?thesis by (metis bit_0_eq bot_apply bot_bool_def)
qed

subsection \<open>The tree of tables\<close>

definition pde :: "mem \<Rightarrow> u32 \<Rightarrow> u32 \<Rightarrow> u32" where
  "pde m pd d = load32 m (pd + 4 * d)"

definition table_of :: "mem \<Rightarrow> u32 \<Rightarrow> u32 \<Rightarrow> u32" where
  "table_of m pd d = P2V (PTE_ADDR (pde m pd d))"

definition has_table :: "mem \<Rightarrow> u32 \<Rightarrow> u32 \<Rightarrow> bool" where
  "has_table m pd d \<longleftrightarrow> pde m pd d AND PTE_P \<noteq> 0"

text \<open>The entry that the hardware finds for an address, if it is present.\<close>

definition entry :: "mem \<Rightarrow> u32 \<Rightarrow> u32 \<Rightarrow> u32 option" where
  "entry m pd a = (if has_table m pd (PDX a)
     then let e = load32 m (table_of m pd (PDX a) + 4 * PTX a) in if e AND PTE_P \<noteq> 0 then Some e else None
     else None)"

text \<open>The directory and its tables are pages of their own, none of them free.\<close>

definition vm_inv :: "u32 \<Rightarrow> u32 list \<Rightarrow> 'z kmem_scheme \<Rightarrow> bool" where
  "vm_inv pd fl s \<longleftrightarrow> kmem_inv fl s \<and> page_ok s pd \<and> pd \<notin> set fl \<and>
     (\<forall>d. unat d < 1024 \<longrightarrow> has_table (kmemory s) pd d \<longrightarrow>
        page_ok s (table_of (kmemory s) pd d) \<and> table_of (kmemory s) pd d \<notin> set fl \<and> table_of (kmemory s) pd d \<noteq> pd \<and>
        (\<forall>e. unat e < 1024 \<longrightarrow> has_table (kmemory s) pd e \<longrightarrow> table_of (kmemory s) pd e = table_of (kmemory s) pd d \<longrightarrow> e = d))"

lemma vm_invD:
  assumes "vm_inv pd fl s"
  shows "kmem_inv fl s" "page_ok s pd" "pd \<notin> set fl" "pd mod PGSIZE = 0"
    "unat d < 1024 \<Longrightarrow> has_table (kmemory s) pd d \<Longrightarrow> page_ok s (table_of (kmemory s) pd d) \<and>
      table_of (kmemory s) pd d mod PGSIZE = 0 \<and> table_of (kmemory s) pd d \<notin> set fl \<and> table_of (kmemory s) pd d \<noteq> pd"
    "unat d < 1024 \<Longrightarrow> unat e < 1024 \<Longrightarrow> has_table (kmemory s) pd d \<Longrightarrow> has_table (kmemory s) pd e \<Longrightarrow>
      table_of (kmemory s) pd e = table_of (kmemory s) pd d \<Longrightarrow> e = d"
  using assms by (auto simp: vm_inv_def page_ok_def)

lemma is_chain_cong: "(\<And>v. v \<in> set fl \<Longrightarrow> load32 m' v = load32 m v) \<Longrightarrow> is_chain m' p fl = is_chain m p fl"
  by (induction fl arbitrary: p) auto

lemma kmem_inv_memory:
  assumes "kmem_inv fl s" "\<And>v. v \<in> set fl \<Longrightarrow> load32 m v = load32 (kmemory s) v"
  shows "kmem_inv fl (s\<lparr>kmemory := m\<rparr>)"
  using assms is_chain_cong[of fl m "kmemory s"] by (simp add: kmem_inv_def)

lemma free_page_aligned: "kmem_inv fl s \<Longrightarrow> v \<in> set fl \<Longrightarrow> v mod PGSIZE = 0"
  by (auto simp: kmem_inv_def page_ok_def)

text \<open>Writing an entry of a page that is not free keeps the free list.\<close>

lemma kmem_inv_store:
  assumes "kmem_inv fl s" "v mod PGSIZE = 0" "v \<notin> set fl" "unat k < 1024"
  shows "kmem_inv fl (s\<lparr>kmemory := store32 (kmemory s) (v + 4 * k) x\<rparr>)"
proof (rule kmem_inv_memory[OF assms(1)])
  fix w assume w: "w \<in> set fl"
  then have "v \<noteq> w" using assms(3) by auto
  then show "load32 (store32 (kmemory s) (v + 4 * k) x) w = load32 (kmemory s) w"
    using load_store_slot[OF assms(2) free_page_aligned[OF assms(1) w] assms(4), of 0 "kmemory s" x] by simp
qed

lemma set_entry:
  assumes "vm_inv pd fl s" "has_table (kmemory s) pd (PDX a)"
    and t: "t = s\<lparr>kmemory := store32 (kmemory s) (table_of (kmemory s) pd (PDX a) + 4 * PTX a) x\<rparr>"
  shows "vm_inv pd fl t"
    and "entry (kmemory t) pd b = (if pageno b = pageno a then (if x AND PTE_P \<noteq> 0 then Some x else None) else entry (kmemory s) pd b)"
    and "unat d < 1024 \<Longrightarrow> has_table (kmemory t) pd d = has_table (kmemory s) pd d"
proof -
  let ?m = "kmemory s" and ?m' = "kmemory t" and ?v = "table_of (kmemory s) pd (PDX a)"
  note I = vm_invD[OF assms(1)]
  note v = I(5)[OF index_bounds(1) assms(2)]
  have p: "pde ?m' pd d = pde ?m pd d" if "unat d < 1024" for d
    using load_store_slot[of ?v pd "PTX a" d ?m x] v I(4) index_bounds(2)[of a] that by (simp add: pde_def t)
  then have h: "has_table ?m' pd d = has_table ?m pd d" "table_of ?m' pd d = table_of ?m pd d" if "unat d < 1024" for d
    using that by (simp_all add: has_table_def table_of_def)
  have "kmem_inv fl t" "page_ok t = page_ok s"
    using kmem_inv_store[OF I(1) _ _ index_bounds(2), of ?v a x] v by (auto simp: t)
  then show "vm_inv pd fl t" using assms(1) h by (auto simp: vm_inv_def)
  show "unat d < 1024 \<Longrightarrow> has_table ?m' pd d = has_table ?m pd d" by (rule h)
  have b: "unat (PDX b) < 1024" by (rule index_bounds)
  show "entry ?m' pd b = (if pageno b = pageno a then (if x AND PTE_P \<noteq> 0 then Some x else None) else entry ?m pd b)"
  proof (cases "has_table ?m pd (PDX b)")
    case False
    then have "pageno b \<noteq> pageno a" using assms(2) index_eq[of b a] by auto
    then show ?thesis using False h[OF b] by (simp add: entry_def)
  next
    case True
    have "?v = table_of ?m pd (PDX b) \<longleftrightarrow> PDX a = PDX b" using I(6)[OF b index_bounds(1) True assms(2)] by auto
    then have "load32 ?m' (table_of ?m pd (PDX b) + 4 * PTX b) =
        (if pageno b = pageno a then x else load32 ?m (table_of ?m pd (PDX b) + 4 * PTX b))"
      using load_store_slot[of ?v "table_of ?m pd (PDX b)" "PTX a" "PTX b" ?m x] v I(5)[OF b True] index_bounds(2) index_eq[of a b] by (auto simp: t)
    then show ?thesis using True h[OF b] by (simp add: entry_def Let_def)
  qed
qed

lemma load_memset_page:
  assumes "v mod PGSIZE = 0" "w mod PGSIZE = 0" "unat j < 1024"
  shows "load32 (memset m v 0 PGSIZE) (w + 4 * j) = (if v = w then 0 else load32 m (w + 4 * j))"
proof (cases "v = w")
  case True
  have "w + 4 * j + i - v < PGSIZE" if "unat i < 4" for i
  proof -
    have "w + 4 * j + i - v = 4 * j + i" using True by simp
    moreover have "unat (4 * j + i) < 4096" using assms(3) that by (simp add: unat_plus_if' unat_word_ariths)
    ultimately show ?thesis by (simp add: word_less_nat_alt PGSIZE_def)
  qed
  from this[of 0] this[of 1] this[of 2] this[of 3] show ?thesis using True by (simp add: load32_def memset_apply)
next
  case False
  have "load32 (memset m v 0 PGSIZE) (w + 4 * j) = load32 m (w + 4 * j)"
  proof (rule load32_cong)
    fix i :: u32 assume i: "unat i < 4"
    have "pageno v \<noteq> pageno w" using pageno_eq[OF assms(1,2)] False by blast
    then have "pageno (w + 4 * j + i) \<noteq> pageno v" unfolding slot_byte(2)[OF assms(2,3) i] by (rule not_sym)
    then have "\<not> unat (w + 4 * j + i - v) < 4096" using pageno_in[OF assms(1), of "w + 4 * j + i"] by blast
    then have "\<not> w + 4 * j + i - v < PGSIZE" by (simp only: word_less_nat_alt PGSIZE_def unat_numeral) simp
    then show "memset m v 0 PGSIZE (w + 4 * j + i) = m (w + 4 * j + i)" by (simp only: memset_apply if_False)
  qed
  then show ?thesis using False by simp
qed

lemma V2P_aligned:
  assumes "v mod PGSIZE = 0"
  shows "V2P v mod PGSIZE = 0"
proof -
  have "4096 dvd unat v" using assms by (simp add: aligned_unat dvd_eq_mod_eq_0)
  moreover have "4096 dvd (2147483648 :: nat)" by simp
  moreover have "unat (V2P v) = unat v - 2147483648 \<or> unat (V2P v) = unat v + 2147483648"
    using unat_u32_bound[of v] by (auto simp: V2P_def KERNBASE_def unat_sub_if')
  ultimately have "4096 dvd unat (V2P v)" by (metis dvd_add dvd_diff_nat)
  then show ?thesis by (simp add: aligned_unat dvd_eq_mod_eq_0)
qed

text \<open>\<open>walkpgdir\<close> adding an empty table.\<close>

lemma new_table:
  assumes "vm_inv pd (v # fl) s" "\<not> has_table (kmemory s) pd (PDX a)"
    and t: "kmemory t = store32 (memset (kmemory s) v 0 PGSIZE) (pd + 4 * PDX a) (V2P v OR PTE_P OR PTE_W OR PTE_U)"
    and k: "kmem_inv fl (t\<lparr>kmemory := kmemory s\<rparr>)" and o: "page_ok t = page_ok s"
  shows "vm_inv pd fl t" "entry (kmemory t) pd b = entry (kmemory s) pd b"
    "has_table (kmemory t) pd (PDX a)" "table_of (kmemory t) pd (PDX a) = v"
proof -
  let ?m = "kmemory s" and ?m' = "kmemory t"
  note I = vm_invD[OF assms(1)]
  have v: "page_ok s v" "v mod PGSIZE = 0" "v \<noteq> pd" "v \<notin> set fl" using I(1,3) by (auto simp: kmem_inv_def page_ok_def)
  have ld: "load32 ?m' (w + 4 * j) = (if pd = w \<and> j = PDX a then V2P v OR PTE_P OR PTE_W OR PTE_U else if v = w then 0 else load32 ?m (w + 4 * j))"
    if "w mod PGSIZE = 0" "unat j < 1024" for w j
    using load_store_slot[OF I(4) that(1) index_bounds(1) that(2), of _ a] load_memset_page[OF v(2) that, of ?m] by (auto simp: t)
  have p: "pde ?m' pd d = (if d = PDX a then V2P v OR PTE_P OR PTE_W OR PTE_U else pde ?m pd d)" if "unat d < 1024" for d
    using ld[OF I(4) that] v(3) by (simp add: pde_def)
  have "(PTE_P OR PTE_W OR PTE_U) AND NOT 0xFFF = 0" by (simp add: PTE_P_def PTE_W_def PTE_U_def)
  then have "PTE_ADDR (V2P v OR (PTE_P OR PTE_W OR PTE_U)) = V2P v" by (rule PTE_ADDR_flags[OF V2P_aligned[OF v(2)]])
  then have h: "has_table ?m' pd d = (d = PDX a \<or> has_table ?m pd d)" "table_of ?m' pd d = (if d = PDX a then v else table_of ?m pd d)"
    if "unat d < 1024" for d
    using p[OF that] entry_present[of "V2P v" "PTE_W OR PTE_U"]
    by (auto simp: has_table_def table_of_def P2V_def V2P_def or.assoc or.commute or.left_commute)
  show ht: "has_table ?m' pd (PDX a)" and tb: "table_of ?m' pd (PDX a) = v" using h[OF index_bounds(1)] by simp_all
  have "kmem_inv fl (t\<lparr>kmemory := ?m, kmemory := ?m'\<rparr>)"
  proof (rule kmem_inv_memory[OF k])
    fix w assume w: "w \<in> set fl"
    then have "w mod PGSIZE = 0" "w \<noteq> pd" "w \<noteq> v" using I(1,3) v(4) by (auto simp: kmem_inv_def page_ok_def)
    then show "load32 ?m' w = load32 (kmemory (t\<lparr>kmemory := ?m\<rparr>)) w" using ld[of w 0] by auto
  qed
  then have kt: "kmem_inv fl t" by simp
  show "vm_inv pd fl t"
    unfolding vm_inv_def
  proof (intro conjI allI impI)
    fix d e assume d: "unat d < 1024" "has_table ?m' pd d"
    let ?T = "table_of ?m' pd d"
    have old: "d \<noteq> PDX a \<Longrightarrow> page_ok s ?T \<and> ?T \<notin> set (v # fl) \<and> ?T \<noteq> pd" using I(5)[OF d(1)] h[OF d(1)] d(2) by auto
    then show "page_ok t ?T" "?T \<notin> set fl" "?T \<noteq> pd" using h(2)[OF d(1)] v o by (cases "d = PDX a"; simp)+
    assume e: "unat e < 1024" "has_table ?m' pd e" "table_of ?m' pd e = ?T"
    have "e \<noteq> PDX a \<Longrightarrow> table_of ?m' pd e \<noteq> v" using I(5)[OF e(1)] h[OF e(1)] e(2) by auto
    then show "e = d" using e d h[OF e(1)] h[OF d(1)] old I(6)[OF d(1) e(1)] by (cases "d = PDX a"; cases "e = PDX a") auto
  qed (use kt I(2,3) o in auto)
  have b: "unat (PDX b) < 1024" "unat (PTX b) < 1024" by (rule index_bounds)+
  show "entry ?m' pd b = entry ?m pd b"
  proof (cases "PDX b = PDX a")
    case True
    then show ?thesis using ht tb ld[OF v(2) b(2)] v(3) assms(2) by (auto simp: entry_def)
  next
    case False
    then show ?thesis using h[OF b(1)] I(5)[OF b(1)] ld[OF _ b(2), of "table_of ?m pd (PDX b)"] by (auto simp: entry_def)
  qed
qed

subsection \<open>\<open>walkpgdir\<close> and \<open>mappages\<close>\<close>

lemma entry_address_nonzero:
  assumes "vm_inv pd fl s" "has_table (kmemory s) pd (PDX a)"
  shows "table_of (kmemory s) pd (PDX a) + 4 * PTX a \<noteq> 0"
proof -
  note T = vm_invD(5)[OF assms(1) index_bounds(1) assms(2)]
  have "table_of (kmemory s) pd (PDX a) \<noteq> 0"
    using page_ok_nonzero T kmem_invD(5)[OF vm_invD(1)[OF assms(1)]] by blast
  then have "unat (table_of (kmemory s) pd (PDX a)) \<noteq> 0" by (simp add: unat_eq_0)
  then have "unat (table_of (kmemory s) pd (PDX a) + 4 * PTX a) \<noteq> 0" using unat_slot(1)[OF _ index_bounds(2)] T by simp
  then show ?thesis by (metis unat_0)
qed

lemma walkpgdir_has_table:
  "has_table (kmemory s) pd (PDX a) \<Longrightarrow> walkpgdir pd a al s = Ok (table_of (kmemory s) pd (PDX a) + 4 * PTX a) s"
  by (simp add: walkpgdir_def mget_def has_table_def table_of_def pde_def)

lemma same_but_pagesI: "t = s\<lparr>kmemory := m, freelist := p\<rparr> \<Longrightarrow> same_but_pages s t"
  unfolding same_but_pages_def by blast

lemma same_but_pages_refl: "same_but_pages s s"
  by (rule same_but_pagesI[where m = "kmemory s" and p = "freelist s"]) simp

text \<open>
  With allocation, \<open>walkpgdir\<close> finds the place of the entry without changing the map, or there was no
  page left for a table.
\<close>

lemma walkpgdir_alloc:
  assumes "vm_inv pd fl s"
  obtains t fl' where "walkpgdir pd a True s = Ok (table_of (kmemory t) pd (PDX a) + 4 * PTX a) t"
      "vm_inv pd fl' t" "\<And>b. entry (kmemory t) pd b = entry (kmemory s) pd b" "has_table (kmemory t) pd (PDX a)" "same_but_pages s t"
  | "fl = []" "walkpgdir pd a True s = Ok 0 s"
proof (cases "has_table (kmemory s) pd (PDX a)")
  case True
  then show ?thesis using that(1)[OF walkpgdir_has_table[OF True] assms] same_but_pages_refl[of s] by simp
next
  case False
  then have e: "load32 (kmemory s) (pd + 4 * PDX a) AND PTE_P = 0" by (simp add: has_table_def pde_def)
  note K = vm_invD(1)[OF assms]
  show ?thesis
  proof (cases fl)
    case Nil
    then show ?thesis using that(2) kalloc_empty[of s] K e by (simp add: walkpgdir_def mget_def)
  next
    case (Cons v fl')
    note pop = kalloc_pop[OF K[unfolded Cons]]
    let ?t = "s\<lparr>freelist := load32 (kmemory s) v,
      kmemory := store32 (memset (kmemory s) v 0 PGSIZE) (pd + 4 * PDX a) (V2P v OR PTE_P OR PTE_W OR PTE_U)\<rparr>"
    have v: "v \<noteq> 0" using K Cons page_ok_nonzero[of s v] by (auto simp: kmem_inv_def)
    have w: "walkpgdir pd a True s = Ok (v + 4 * PTX a) ?t"
      using pop(1) e v by (simp add: walkpgdir_def mget_def mfill_def mput_def)
    note nt = new_table[of pd v fl' s a ?t, OF assms[unfolded Cons] False]
    have "kmem_inv fl' (?t\<lparr>kmemory := kmemory s\<rparr>)" "page_ok ?t = page_ok s" using pop(2) by (simp_all add: fun_eq_iff)
    note nt = nt[OF _ this, simplified]
    have "same_but_pages s ?t" by (rule same_but_pagesI[where m = "kmemory ?t" and p = "freelist ?t"]) simp
    then show ?thesis using that(1)[of ?t fl'] w nt by simp
  qed
qed

lemma same_but_pages_trans:
  assumes "same_but_pages s t" "same_but_pages t u"
  shows "same_but_pages s u"
proof -
  obtain m p m' p' where "t = s\<lparr>kmemory := m, freelist := p\<rparr>" "u = t\<lparr>kmemory := m', freelist := p'\<rparr>"
    using assms by (auto simp: same_but_pages_def)
  then have "u = s\<lparr>kmemory := m', freelist := p'\<rparr>" by simp
  then show ?thesis by (rule same_but_pagesI)
qed

lemma same_but_pages_memory: "same_but_pages s t \<Longrightarrow> same_but_pages s (t\<lparr>kmemory := m\<rparr>)"
  by (rule same_but_pages_trans, assumption, rule same_but_pagesI[where m = m and p = "freelist t"]) simp

definition page_addr :: "nat \<Rightarrow> u32" where
  "page_addr k = of_nat (4096 * k)"

lemma pageno_page_addr: "k < 1048576 \<Longrightarrow> pageno (page_addr k) = k"
  using unat_of_nat_u32[of "4096 * k"] unfolding page_addr_def by simp

lemma page_addr_Suc: "page_addr k + PGSIZE = page_addr (Suc k)"
  by (simp add: page_addr_def PGSIZE_def)

lemma page_addr_inj: "j < 1048576 \<Longrightarrow> k < 1048576 \<Longrightarrow> page_addr j = page_addr k \<longleftrightarrow> j = k"
  by (metis pageno_page_addr)

text \<open>The entries of a range of pages mapped to consecutive physical pages.\<close>

definition mapped :: "nat \<Rightarrow> nat \<Rightarrow> u32 \<Rightarrow> u32 \<Rightarrow> (u32 \<Rightarrow> u32 option) \<Rightarrow> u32 \<Rightarrow> u32 option" where
  "mapped k n pa perm old b = (if k \<le> pageno b \<and> pageno b < k + n then Some ((pa + page_addr (pageno b - k)) OR perm OR PTE_P) else old b)"

lemma mappages_loop_ok:
  assumes "vm_inv pd fl s" "k + Suc n \<le> 1048576" "n < fuel"
    "\<And>b. k \<le> pageno b \<Longrightarrow> pageno b \<le> k + n \<Longrightarrow> entry (kmemory s) pd b = None"
  shows "\<exists>r t fl'. mappages_loop fuel pd (page_addr k) (page_addr (k + n)) pa perm s = Ok r t \<and> vm_inv pd fl' t \<and> same_but_pages s t \<and>
    (r = 0 \<and> (\<forall>b. entry (kmemory t) pd b = mapped k (Suc n) pa perm (entry (kmemory s) pd) b) \<or>
     r = - 1 \<and> fl' = [] \<and> (\<forall>b. \<not> (k \<le> pageno b \<and> pageno b \<le> k + n) \<longrightarrow> entry (kmemory t) pd b = entry (kmemory s) pd b))"
  using assms
proof (induction fuel arbitrary: k n pa s fl)
  case (Suc fuel)
  let ?a = "page_addr k"
  have a: "pageno ?a = k" using Suc.prems(2) by (intro pageno_page_addr) simp
  show ?case
  proof (rule walkpgdir_alloc[OF Suc.prems(1), of ?a])
    assume "fl = []" "walkpgdir pd ?a True s = Ok 0 s"
    then show ?case using Suc.prems(1) same_but_pages_refl[of s] by auto
  next
    fix t fl'
    assume w: "walkpgdir pd ?a True s = Ok (table_of (kmemory t) pd (PDX ?a) + 4 * PTX ?a) t"
      and t: "vm_inv pd fl' t" "\<And>b. entry (kmemory t) pd b = entry (kmemory s) pd b" "has_table (kmemory t) pd (PDX ?a)" "same_but_pages s t"
    let ?p = "table_of (kmemory t) pd (PDX ?a) + 4 * PTX ?a"
    let ?u = "t\<lparr>kmemory := store32 (kmemory t) ?p (pa OR perm OR PTE_P)\<rparr>"
    note se = set_entry[OF t(1,3), of ?u "pa OR perm OR PTE_P"]
    have u: "vm_inv pd fl' ?u" "same_but_pages s ?u"
      "entry (kmemory ?u) pd b = (if pageno b = k then Some (pa OR perm OR PTE_P) else entry (kmemory s) pd b)" for b
      using se t(2) a entry_present[of pa perm] same_but_pages_memory[OF t(4)] by simp_all
    have none: "entry (kmemory t) pd ?a = None" using Suc.prems(4)[of ?a] t(2)[of ?a] a by simp
    have "load32 (kmemory t) ?p AND PTE_P = 0" using none t(3) by (simp add: entry_def Let_def split: if_splits)
    then have run: "mappages_loop (Suc fuel) pd ?a (page_addr (k + n)) pa perm s =
        (if n = 0 then Ok 0 ?u else mappages_loop fuel pd (page_addr (Suc k)) (page_addr (k + n)) (pa + PGSIZE) perm ?u)"
      using w entry_address_nonzero[OF t(1,3)] page_addr_inj[of k "k + n"] Suc.prems(2)
      by (simp add: mget_def mput_def page_addr_Suc)
    show ?case
    proof (cases n)
      case 0
      have "entry (kmemory ?u) pd b = mapped k 1 pa perm (entry (kmemory s) pd) b" for b
        using u(3)[of b] by (auto simp: mapped_def page_addr_def)
      then show ?thesis using run u(1,2) 0 by (intro exI[of _ 0] exI[of _ ?u] exI[of _ fl']) simp
    next
      case (Suc m)
      have "entry (kmemory ?u) pd b = None" if "Suc k \<le> pageno b" "pageno b \<le> Suc k + m" for b
        using u(3)[of b] Suc.prems(4)[of b] that Suc by simp
      from Suc.IH[where k = "Suc k" and n = m and pa = "pa + PGSIZE", OF u(1) _ _ this] Suc.prems(2,3) Suc
      obtain r v fl'' where r: "mappages_loop fuel pd (page_addr (Suc k)) (page_addr (Suc k + m)) (pa + PGSIZE) perm ?u = Ok r v"
        "vm_inv pd fl'' v" "same_but_pages ?u v"
        "r = 0 \<and> (\<forall>b. entry (kmemory v) pd b = mapped (Suc k) (Suc m) (pa + PGSIZE) perm (entry (kmemory ?u) pd) b) \<or>
         r = - 1 \<and> fl'' = [] \<and> (\<forall>b. \<not> (Suc k \<le> pageno b \<and> pageno b \<le> Suc k + m) \<longrightarrow> entry (kmemory v) pd b = entry (kmemory ?u) pd b)"
        by auto
      have "pa + PGSIZE + page_addr (pageno b - Suc k) = pa + page_addr (pageno b - k)" if "Suc k \<le> pageno b" for b
        using that page_addr_Suc[of "pageno b - Suc k"] by (simp add: Suc_diff_Suc add.assoc add.commute)
      then have "mapped (Suc k) (Suc m) (pa + PGSIZE) perm (entry (kmemory ?u) pd) b = mapped k (Suc n) pa perm (entry (kmemory s) pd) b" for b
        using u(3)[of b] Suc by (auto simp: mapped_def page_addr_def)
      then show ?thesis using run r Suc same_but_pages_trans[OF u(2) r(3)] u(3) by (intro exI[of _ r] exI[of _ v] exI[of _ fl'']) auto
    qed
  qed
qed simp

lemma PGROUNDDOWN_page: "PGROUNDDOWN a = page_addr (pageno a)"
proof (rule word_unat_eq_iff[THEN iffD2])
  have "4096 * pageno a \<le> unat a" by simp
  then have "unat (page_addr (pageno a)) = 4096 * pageno a"
    using unat_u32_bound[of a] unat_of_nat_u32[of "4096 * pageno a"] unfolding page_addr_def by linarith
  then show "unat (PGROUNDDOWN a) = unat (page_addr (pageno a))" using PGROUNDDOWN_props(2)[of a] by simp
qed

text \<open>An empty directory and one free page.\<close>

definition demo_pages :: kmem where
  "demo_pages = \<lparr>held = [], kmemory = (\<lambda>_. 0), kend = 0x80100000, use_lock = True, freelist = 0x80200000\<rparr>"

lemma demo_directory: "vm_inv 0x80300000 [0x80200000] demo_pages" "entry (kmemory demo_pages) 0x80300000 b = None"
proof -
  have z: "load32 (\<lambda>_. 0) a = 0" for a by (simp add: load32_def)
  then have n: "\<not> has_table (kmemory demo_pages) 0x80300000 d" for d by (simp add: has_table_def pde_def demo_pages_def)
  show "vm_inv 0x80300000 [0x80200000] demo_pages"
    using n z by (simp add: vm_inv_def kmem_inv_def page_ok_def can_lock_def demo_pages_def PGSIZE_def V2P_def KERNBASE_def PHYSTOP_def)
  show "entry (kmemory demo_pages) 0x80300000 b = None" using n by (simp add: entry_def)
qed

text \<open>
  C32. \<open>mappages\<close> on a range of pages that are not mapped: it returns, without panic, and either every page
  of the range is mapped to its physical page with the permissions asked for and every other address
  is mapped as before, or it returns \<open>-1\<close> because there is no free page for a page table, and
  nothing outside the range has changed. The directory and its tables stay well formed.
\<close>

theorem mappages_correct:
  assumes "vm_inv pd fl s" "0 < nby" "unat va + unat nby \<le> 4294967296"
    "\<forall>b. pageno va \<le> pageno b \<and> pageno b \<le> pageno (va + nby - 1) \<longrightarrow> entry (kmemory s) pd b = None"
  shows "\<exists>r t fl'. mappages pd va nby pa perm s = Ok r t \<and> vm_inv pd fl' t \<and>
    (r = 0 \<and> (\<forall>b. entry (kmemory t) pd b = (if pageno va \<le> pageno b \<and> pageno b \<le> pageno (va + nby - 1)
         then Some ((pa + of_nat (4096 * (pageno b - pageno va))) OR perm OR PTE_P) else entry (kmemory s) pd b)) \<or>
     r = - 1 \<and> fl' = [] \<and> (\<forall>b. \<not> (pageno va \<le> pageno b \<and> pageno b \<le> pageno (va + nby - 1)) \<longrightarrow>
         entry (kmemory t) pd b = entry (kmemory s) pd b))"
proof -
  let ?k = "pageno va" and ?l = "pageno (va + nby - 1)"
  have "unat (va + nby - 1) = unat va + (unat nby - 1)"
  proof -
    have "unat (nby - 1) = unat nby - 1" using assms(2) by (metis unat_minus_one word_gt_0)
    moreover have "0 < unat nby" using assms(2) by (simp add: word_less_nat_alt)
    ultimately show ?thesis using assms(3) unat_plus_if'[of va "nby - 1"] by (simp add: add_diff_eq)
  qed
  then have kl: "?k \<le> ?l" "?l < 1048576" using unat_u32_bound[of "va + nby - 1"] by (auto simp: div_le_mono)
  have "\<exists>r t fl'. mappages_loop VMFUEL pd (page_addr ?k) (page_addr (?k + (?l - ?k))) pa perm s = Ok r t \<and> vm_inv pd fl' t \<and> same_but_pages s t \<and>
    (r = 0 \<and> (\<forall>b. entry (kmemory t) pd b = mapped ?k (Suc (?l - ?k)) pa perm (entry (kmemory s) pd) b) \<or>
     r = - 1 \<and> fl' = [] \<and> (\<forall>b. \<not> (?k \<le> pageno b \<and> pageno b \<le> ?k + (?l - ?k)) \<longrightarrow> entry (kmemory t) pd b = entry (kmemory s) pd b))"
    using kl assms(4) by (intro mappages_loop_ok[OF assms(1)]) (auto simp: VMFUEL_def)
  then obtain r t fl' where "mappages pd va nby pa perm s = Ok r t" "vm_inv pd fl' t"
    "r = 0 \<and> (\<forall>b. entry (kmemory t) pd b = mapped ?k (Suc (?l - ?k)) pa perm (entry (kmemory s) pd) b) \<or>
     r = - 1 \<and> fl' = [] \<and> (\<forall>b. \<not> (?k \<le> pageno b \<and> pageno b \<le> ?l) \<longrightarrow> entry (kmemory t) pd b = entry (kmemory s) pd b)"
    using kl by (auto simp: mappages_def PGROUNDDOWN_page)
  then show ?thesis using kl by (intro exI[of _ r] exI[of _ t] exI[of _ fl']) (auto simp: mapped_def page_addr_def)
qed

theorem mappages_correct_witness:
  "\<exists>r t. mappages 0x80300000 0x1000 0x2000 0x5000 6 demo_pages = Ok r t \<and>
    (r = 0 \<longrightarrow> entry (kmemory t) 0x80300000 0x2010 = Some ((0x5000 + of_nat 4096) OR 6 OR PTE_P))"
proof -
  have p: "(0 :: u32) < 0x2000" "unat (0x1000 :: u32) + unat (0x2000 :: u32) \<le> 4294967296"
    "\<forall>b. pageno (0x1000 :: u32) \<le> pageno b \<and> pageno b \<le> pageno (0x1000 + 0x2000 - 1 :: u32) \<longrightarrow>
      entry (kmemory demo_pages) 0x80300000 b = None"
    using demo_directory(2) by simp_all
  from mappages_correct[where pa = "0x5000" and perm = "6", OF demo_directory(1) p] obtain r t where
    "mappages 0x80300000 0x1000 0x2000 0x5000 6 demo_pages = Ok r t"
    "r = 0 \<longrightarrow> (\<forall>b. entry (kmemory t) 0x80300000 b = (if pageno (0x1000 :: u32) \<le> pageno b \<and> pageno b \<le> pageno (0x1000 + 0x2000 - 1 :: u32)
         then Some ((0x5000 + of_nat (4096 * (pageno b - pageno (0x1000 :: u32)))) OR 6 OR PTE_P) else entry (kmemory demo_pages) 0x80300000 b))"
    by fastforce
  moreover from this(2) have "r = 0 \<longrightarrow> entry (kmemory t) 0x80300000 0x2010 = Some ((0x5000 + of_nat 4096) OR 6 OR PTE_P)" by simp
  ultimately show ?thesis by (intro exI conjI)
qed

end
