(* ===== verification/Proc.thy ===== *)
theory Proc
  imports Vm Rand
begin

text \<open>
  The process table and the lottery scheduler: \<^verbatim>\<open>src/proc.c\<close> without the operations that need the
  file system (\<^verbatim>\<open>userinit\<close>, \<^verbatim>\<open>fork\<close>, \<^verbatim>\<open>exit\<close>, \<^verbatim>\<open>wait\<close>, \<^verbatim>\<open>forkret\<close>; see \<open>Lifecycle\<close>).

  The state is what one CPU sees: \<open>curproc\<close> is its \<^verbatim>\<open>c->proc\<close>, \<open>held\<close> its locks (\<^verbatim>\<open>ncli\<close> is their
  number). A context switch ends an operation: \<open>sched\<close> returns at the \<^verbatim>\<open>swtch\<close> it is about to
  execute, and the code after it is an operation of its own that starts when the process is
  resumed.
\<close>

subsection \<open>State\<close>

record ptab = vm +
  ptable :: "proc list"
  nextpid :: i32
  initproc :: "nat option"
  curproc :: "nat option"
  lfsr :: u16
  sym_trapret :: u32
  sym_forkret :: u32

definition upd_proc :: "nat \<Rightarrow> (proc \<Rightarrow> proc) \<Rightarrow> ('z ptab_scheme, unit) kprog" where
  "upd_proc i f = kmodify (\<lambda>s. s\<lparr>ptable := upd_at i f (ptable s)\<rparr>)"

text \<open>
  Following the null pointer while no process runs is a page fault in the kernel, which \<^verbatim>\<open>trap\<close>
  turns into \<^verbatim>\<open>panic("trap")\<close>.
\<close>

definition with_proc :: "(nat \<Rightarrow> ('z ptab_scheme, 'a) kprog) \<Rightarrow> ('z ptab_scheme, 'a) kprog" where
  "with_proc f = kbind (kgets curproc) (\<lambda>po. case po of None \<Rightarrow> kpanic ''trap'' | Some i \<Rightarrow> f i)"

definition myproc_get :: "(proc \<Rightarrow> 'a) \<Rightarrow> ('z ptab_scheme, 'a) kprog" where
  "myproc_get f = with_proc (\<lambda>i. kgets (\<lambda>s. f (ptable s ! i)))"

subsection \<open>Operations\<close>

definition pinit :: "('z ptab_scheme, unit) kprog" where
  "pinit = lk_init LK_ptable"

definition myproc :: "('z ptab_scheme, nat option) kprog" where
  "myproc = kgets curproc"

text \<open>\<^verbatim>\<open>sizeof *p->tf\<close> is 76, \<^verbatim>\<open>sizeof *p->context\<close> is 20 with \<^verbatim>\<open>eip\<close> at offset 16.\<close>

definition allocproc :: "('z ptab_scheme, nat option) kprog" where
  "allocproc =
     kbind (lk_acquire LK_ptable) (\<lambda>_.
     kbind (kgets (\<lambda>s. find_index (\<lambda>p. pstate p = UNUSED) (ptable s))) (\<lambda>found.
       case found of
         None \<Rightarrow> kbind (lk_release LK_ptable) (\<lambda>_. kreturn None)
       | Some p \<Rightarrow>
           kbind (upd_proc p (\<lambda>q. q\<lparr>pstate := EMBRYO, tickets := 10, preempted := False, runticks := 0\<rparr>)) (\<lambda>_.
           kbind (kgets nextpid) (\<lambda>np.
           kbind (upd_proc p (\<lambda>q. q\<lparr>pid := np\<rparr>)) (\<lambda>_.
           kbind (kmodify (\<lambda>s. s\<lparr>nextpid := np + 1\<rparr>)) (\<lambda>_.
           kbind (lk_release LK_ptable) (\<lambda>_.
           kbind kalloc (\<lambda>ks.
           kbind (upd_proc p (\<lambda>q. q\<lparr>kstack := ks\<rparr>)) (\<lambda>_.
             if ks = 0 then kbind (upd_proc p (\<lambda>q. q\<lparr>pstate := UNUSED\<rparr>)) (\<lambda>_. kreturn None)
             else (let sp = ks + KSTACKSIZE - 76
               in kbind (upd_proc p (\<lambda>q. q\<lparr>tf := sp\<rparr>)) (\<lambda>_.
                  let sp = sp - 4
                  in kbind (kgets sym_trapret) (\<lambda>tr.
                     kbind (mput sp tr) (\<lambda>_.
                     let sp = sp - 20
                     in kbind (upd_proc p (\<lambda>q. q\<lparr>pcontext := sp\<rparr>)) (\<lambda>_.
                        kbind (mfill sp 0 20) (\<lambda>_.
                        kbind (kgets sym_forkret) (\<lambda>fr.
                        kbind (mput (sp + 16) fr) (\<lambda>_.
                        kreturn (Some p))))))))))))))))))"

definition growproc :: "i32 \<Rightarrow> ('z ptab_scheme, int) kprog" where
  "growproc n = with_proc (\<lambda>cp.
     kbind (kgets (\<lambda>s. ptable s ! cp)) (\<lambda>p.
     kbind (if sint n > 0
            then kbind (allocuvm (pgdir p) (sz p) (sz p + n)) (\<lambda>z. kreturn (z, z = 0))
            else if sint n < 0
            then kbind (deallocuvm (pgdir p) (sz p) (sz p + n)) (\<lambda>z. kreturn (z, z = 0))
            else kreturn (sz p, False)) (\<lambda>(z, failed).
       if failed then kreturn (- 1)
       else kbind (upd_proc cp (\<lambda>q. q\<lparr>sz := z\<rparr>)) (\<lambda>_.
         kbind (kgets (\<lambda>s. ptable s ! cp)) (\<lambda>p'.
         kbind (switchuvm (Some p')) (\<lambda>_.
         kreturn 0))))))"

text \<open>Wake-ups scan the whole table.\<close>

definition wake :: "kchan \<Rightarrow> proc \<Rightarrow> proc" where
  "wake c p = (if pstate p = SLEEPING \<and> chan p = Some c then p\<lparr>pstate := RUNNABLE\<rparr> else p)"

definition wakeup1 :: "kchan \<Rightarrow> ('z ptab_scheme, unit) kprog" where
  "wakeup1 c = kmodify (\<lambda>s. s\<lparr>ptable := map (wake c) (ptable s)\<rparr>)"

definition wakeup :: "kchan \<Rightarrow> ('z ptab_scheme, unit) kprog" where
  "wakeup c = kseq [lk_acquire LK_ptable, wakeup1 c, lk_release LK_ptable]"

text \<open>
  \<open>sched\<close>: the checks before the switch. \<^verbatim>\<open>ncli\<close> is the number of locks held; interrupts are off
  exactly while some lock is held, so the last check of the code cannot fail after the second.
\<close>

definition sched :: "('z ptab_scheme, unit) kprog" where
  "sched = with_proc (\<lambda>p.
     kbind (kgets id) (\<lambda>s.
       if LK_ptable \<notin> set (held s) then kpanic ''sched ptable.lock''
       else if length (held s) \<noteq> 1 then kpanic ''sched locks''
       else if pstate (ptable s ! p) = RUNNING then kpanic ''sched running''
       else if held s = [] then kpanic ''sched interruptible''
       else kreturn ()))"

definition yield :: "('z ptab_scheme, unit) kprog" where
  "yield = kbind (lk_acquire LK_ptable) (\<lambda>_. with_proc (\<lambda>p. kseq [
     upd_proc p (\<lambda>q. q\<lparr>preempted := False\<rparr>),
     upd_proc p (\<lambda>q. q\<lparr>pstate := RUNNABLE\<rparr>),
     sched]))"

definition yield_resume :: "('z ptab_scheme, unit) kprog" where
  "yield_resume = lk_release LK_ptable"

text \<open>
  \<open>sleep\<close> up to the switch, and its end after the process has been woken and scheduled. The
  model of an operation that sleeps ends with the outcome \<open>Sleep\<close>.
\<close>

definition sleep :: "kchan \<Rightarrow> lockid \<Rightarrow> ('z ptab_scheme, 'a) kprog" where
  "sleep c lk = kbind (kgets curproc) (\<lambda>po.
     case po of
       None \<Rightarrow> kpanic ''sleep''
     | Some p \<Rightarrow>
         kbind (kwhen (lk \<noteq> LK_ptable) (kseq [lk_acquire LK_ptable, lk_release lk])) (\<lambda>_.
         kbind (upd_proc p (\<lambda>q. q\<lparr>chan := Some c\<rparr>)) (\<lambda>_.
         kbind (upd_proc p (\<lambda>q. q\<lparr>pstate := SLEEPING\<rparr>)) (\<lambda>_.
         kbind sched (\<lambda>_ s. Sleep c s)))))"

definition sleep_resume :: "lockid \<Rightarrow> ('z ptab_scheme, unit) kprog" where
  "sleep_resume lk = with_proc (\<lambda>p.
     kbind (upd_proc p (\<lambda>q. q\<lparr>chan := None\<rparr>)) (\<lambda>_.
     kwhen (lk \<noteq> LK_ptable) (kseq [lk_release LK_ptable, lk_acquire lk])))"

definition kill :: "i32 \<Rightarrow> ('z ptab_scheme, int) kprog" where
  "kill n =
     kbind (lk_acquire LK_ptable) (\<lambda>_.
     kbind (kgets (\<lambda>s. find_index (\<lambda>p. pid p = n) (ptable s))) (\<lambda>found.
       case found of
         Some p \<Rightarrow>
           kbind (upd_proc p (\<lambda>q. q\<lparr>killed := True\<rparr>)) (\<lambda>_.
           kbind (upd_proc p (\<lambda>q. if pstate q = SLEEPING then q\<lparr>pstate := RUNNABLE\<rparr> else q)) (\<lambda>_.
           kbind (lk_release LK_ptable) (\<lambda>_. kreturn 0)))
       | None \<Rightarrow> kbind (lk_release LK_ptable) (\<lambda>_. kreturn (- 1))))"

definition settickets :: "i32 \<Rightarrow> i32 \<Rightarrow> ('z ptab_scheme, int) kprog" where
  "settickets n tk =
     (if sint tk \<le> 0 then kreturn (- 1)
      else kbind (lk_acquire LK_ptable) (\<lambda>_.
        kbind (kgets (\<lambda>s. find_index (\<lambda>p. pid p = n) (ptable s))) (\<lambda>found.
          case found of
            Some p \<Rightarrow>
              kbind (upd_proc p (\<lambda>q. q\<lparr>tickets := tk\<rparr>)) (\<lambda>_.
              kbind (lk_release LK_ptable) (\<lambda>_. kreturn 0))
          | None \<Rightarrow> kbind (lk_release LK_ptable) (\<lambda>_. kreturn (- 1)))))"

subsection \<open>The scheduler\<close>

definition total_tickets :: "proc list \<Rightarrow> i32" where
  "total_tickets ps = fold (\<lambda>p t. if pstate p = RUNNABLE then t + tickets p else t) ps 0"

fun lottery :: "proc list \<Rightarrow> nat \<Rightarrow> i32 \<Rightarrow> i32 \<Rightarrow> nat option" where
  "lottery [] i counter winner = None"
| "lottery (p # ps) i counter winner =
     (if pstate p \<noteq> RUNNABLE then lottery ps (Suc i) counter winner
      else (let counter = counter + tickets p
            in if sint counter > sint winner then Some i
               else lottery ps (Suc i) counter winner))"

text \<open>
  One round of the loop, up to the \<^verbatim>\<open>swtch\<close> into the process it has chosen (\<open>Some p\<close>, with
  \<open>ptable.lock\<close> held) or to the end of the round (\<open>None\<close>). \<open>random_at_most\<close> may not return.
\<close>

definition scheduler_start :: "('z ptab_scheme, unit) kprog" where
  "scheduler_start = kmodify (\<lambda>s. s\<lparr>curproc := None\<rparr>)"

definition scheduler :: "('z ptab_scheme, nat option) kprog" where
  "scheduler =
     kbind (lk_acquire LK_ptable) (\<lambda>_.
     kbind (kgets (\<lambda>s. total_tickets (ptable s))) (\<lambda>total.
     kbind (if sint total > 0
            then (\<lambda>s. case random_at_most (total - 1) (lfsr s) of
                None \<Rightarrow> Diverge
              | Some (winner, l) \<Rightarrow> Ok (lottery (ptable s) 0 0 winner) (s\<lparr>lfsr := l\<rparr>))
            else kreturn None) (\<lambda>won.
       case won of
         None \<Rightarrow> kbind (lk_release LK_ptable) (\<lambda>_. kreturn None)
       | Some p \<Rightarrow>
           kbind (kmodify (\<lambda>s. s\<lparr>curproc := Some p\<rparr>)) (\<lambda>_.
           kbind (kgets (\<lambda>s. ptable s ! p)) (\<lambda>q.
           kbind (switchuvm (Some q)) (\<lambda>_.
           kbind (upd_proc p (\<lambda>q. q\<lparr>pstate := RUNNING\<rparr>)) (\<lambda>_.
           kreturn (Some p))))))))"

text \<open>The end of the round, when the process has switched back.\<close>

definition scheduler_resume :: "('z ptab_scheme, unit) kprog" where
  "scheduler_resume = kseq [switchkvm, kmodify (\<lambda>s. s\<lparr>curproc := None\<rparr>), lk_release LK_ptable]"

subsection \<open>The lottery\<close>

text \<open>The tickets in the game, as a natural number, and the bound under which no sum overflows.\<close>

definition stake :: "proc \<Rightarrow> nat" where
  "stake p = (if pstate p = RUNNABLE then unat (tickets p) else 0)"

definition fair_table :: "proc list \<Rightarrow> bool" where
  "fair_table ps \<longleftrightarrow> (\<forall>p\<in>set ps. pstate p = RUNNABLE \<longrightarrow> 0 < sint (tickets p)) \<and>
     sum_list (map stake ps) < 2147483648"

lemma fair_table_Cons [simp]:
  "fair_table (p # ps) \<longleftrightarrow> (pstate p = RUNNABLE \<longrightarrow> 0 < sint (tickets p)) \<and> fair_table ps \<and>
     stake p + sum_list (map stake ps) < 2147483648"
  by (auto simp: fair_table_def)

lemma unat_add_small: "unat (a :: u32) + unat b < 2147483648 \<Longrightarrow> unat (a + b) = unat a + unat b"
  by (simp add: unat_plus_if')

lemma total_tickets_fold:
  assumes "fair_table ps" "unat t + sum_list (map stake ps) < 2147483648"
  shows "unat (fold (\<lambda>p t. if pstate p = RUNNABLE then t + tickets p else t) ps t) =
    unat t + sum_list (map stake ps)"
  using assms
proof (induction ps arbitrary: t)
  case (Cons p ps)
  let ?t = "if pstate p = RUNNABLE then t + tickets p else t"
  have u: "unat ?t = unat t + stake p"
    using Cons.prems(2) by (auto simp: stake_def intro!: unat_add_small)
  show ?case using Cons.IH[of ?t] Cons.prems u by simp
qed simp

lemma total_tickets_unat: "fair_table ps \<Longrightarrow> unat (total_tickets ps) = sum_list (map stake ps)"
  using total_tickets_fold[of ps 0] by (simp add: total_tickets_def fair_table_def)

lemma lottery_ge: "lottery ps i c w = Some m \<Longrightarrow> i \<le> m"
  by (induction ps arbitrary: i c) (fastforce split: if_splits simp: Let_def dest: Suc_leD)+

text \<open>The drawing reads off the prefix sums of the stakes.\<close>

lemma lottery_Some_iff:
  assumes "fair_table ps" "unat c + sum_list (map stake ps) < 2147483648" "unat c \<le> unat w"
    "unat w < 2147483648"
  shows "lottery ps i c w = Some (i + k) \<longleftrightarrow> k < length ps \<and>
    unat c + sum_list (map stake (take k ps)) \<le> unat w \<and>
    unat w < unat c + sum_list (map stake (take (Suc k) ps))"
  using assms
proof (induction ps arbitrary: i c k)
  case (Cons p ps)
  show ?case
  proof (cases "pstate p = RUNNABLE")
    case False
    then have z: "stake p = 0" by (simp add: stake_def)
    show ?thesis
    proof (cases k)
      case 0
      have "lottery ps (Suc i) c w \<noteq> Some i" using lottery_ge[of ps "Suc i" c w i] by auto
      then show ?thesis using 0 False z Cons.prems(3) by simp
    next
      case (Suc l)
      then show ?thesis using Cons.IH[of c "Suc i" l] Cons.prems False z by simp
    qed
  next
    case True
    then have st: "stake p = unat (tickets p)" "0 < stake p"
      using Cons.prems(1) unat_of_sint[of "tickets p"] by (auto simp: stake_def unat_gt_0)
    let ?c = "c + tickets p"
    have u: "unat ?c = unat c + stake p"
      using Cons.prems(2) st(1) by (intro trans[OF unat_add_small]) simp_all
    have s: "sint ?c = int (unat ?c)" "sint w = int (unat w)"
      using Cons.prems(2,4) u by (intro sint_unat_iff; simp)+
    have cmp: "sint w < sint ?c \<longleftrightarrow> unat w < unat ?c" unfolding s by (rule of_nat_less_iff)
    show ?thesis
    proof (cases "unat w < unat ?c")
      case True
      then have "lottery (p # ps) i c w = Some i" using \<open>pstate p = RUNNABLE\<close> cmp by (simp add: Let_def)
      then show ?thesis using True u Cons.prems(3) by (cases k) auto
    next
      case False
      then have l: "lottery (p # ps) i c w = lottery ps (Suc i) ?c w" using \<open>pstate p = RUNNABLE\<close> cmp by (simp add: Let_def)
      show ?thesis
      proof (cases k)
        case 0
        then show ?thesis using l False u lottery_ge[of ps "Suc i" ?c w i] by auto
      next
        case (Suc m)
        then show ?thesis using l False u Cons.prems Cons.IH[of ?c "Suc i" m] by (simp add: add.assoc)
      qed
    qed
  qed
qed simp

lemma sum_stake_take: "k < length ps \<Longrightarrow>
    sum_list (map stake (take (Suc k) ps)) = sum_list (map stake (take k ps)) + stake (ps ! k)"
  by (simp add: take_Suc_conv_app_nth)

lemma sum_stake_mono: "sum_list (map stake (take k ps)) \<le> sum_list (map stake ps)"
  by (metis append_take_drop_id le_add1 map_append sum_list_append)

lemma prefix_interval:
  assumes "(w::nat) < sum_list (map stake ps)"
  shows "\<exists>k<length ps. sum_list (map stake (take k ps)) \<le> w \<and> w < sum_list (map stake (take (Suc k) ps))"
  using assms
proof (induction ps rule: rev_induct)
  case (snoc p ps)
  show ?case
  proof (cases "w < sum_list (map stake ps)")
    case True
    with snoc obtain k where "k < length ps" "sum_list (map stake (take k ps)) \<le> w"
      "w < sum_list (map stake (take (Suc k) ps))" by blast
    then show ?thesis by (intro exI[of _ k]) simp
  next
    case False
    then show ?thesis using snoc.prems by (intro exI[of _ "length ps"]) simp
  qed
qed simp

lemma lottery_runnable: "lottery ps 0 c w = Some k \<Longrightarrow> k < length ps \<and> pstate (ps ! k) = RUNNABLE"
proof -
  have "lottery ps i c w = Some k \<Longrightarrow> k - i < length ps \<and> i \<le> k \<and> pstate (ps ! (k - i)) = RUNNABLE" for i
  proof (induction ps arbitrary: i c)
    case (Cons p ps)
    show ?case
    proof (cases "k = i \<and> pstate p = RUNNABLE")
      case False
      then obtain c' where "lottery ps (Suc i) c' w = Some k"
        using Cons.prems by (auto simp: Let_def split: if_splits)
      from Cons.IH[OF this] show ?thesis by (auto simp: Suc_diff_le nth_Cons' Suc_le_eq)
    qed simp
  qed simp
  from this[of 0] show "lottery ps 0 c w = Some k \<Longrightarrow> k < length ps \<and> pstate (ps ! k) = RUNNABLE" by simp
qed

lemma lottery_numbers:
  assumes "fair_table ps" "k < length ps"
  shows "{w. sint w \<ge> 0 \<and> sint w < sint (total_tickets ps) \<and> lottery ps 0 0 w = Some k} =
    {w. unat w \<in> {sum_list (map stake (take k ps))..<sum_list (map stake (take (Suc k) ps))}}"
proof -
  let ?T = "sum_list (map stake ps)"
  have T: "?T < 2147483648" using assms(1) by (simp add: fair_table_def)
  have t: "sint (total_tickets ps) = int ?T"
    using sint_unat_iff[of "total_tickets ps"] total_tickets_unat[OF assms(1)] T by simp
  have l: "lottery ps 0 0 w = Some k \<longleftrightarrow> sum_list (map stake (take k ps)) \<le> unat w \<and>
      unat w < sum_list (map stake (take (Suc k) ps))" if "unat w < 2147483648" for w
    using lottery_Some_iff[of ps 0 w 0 k] assms T that by simp
  have le: "sum_list (map stake (take (Suc k) ps)) \<le> ?T" by (rule sum_stake_mono)
  show ?thesis
  proof (rule set_eqI)
    fix w :: u32
    have "sint w \<ge> 0 \<and> sint w < int ?T \<longleftrightarrow> unat w < ?T"
    proof
      assume "sint w \<ge> 0 \<and> sint w < int ?T"
      then show "unat w < ?T" using unat_sint_bound[of w ?T] by simp
    next
      assume "unat w < ?T"
      then have "sint w = int (unat w)" using T by (intro sint_unat_iff) simp
      then show "sint w \<ge> 0 \<and> sint w < int ?T" using \<open>unat w < ?T\<close> by (simp only:) linarith
    qed
    then show "w \<in> {w. sint w \<ge> 0 \<and> sint w < sint (total_tickets ps) \<and> lottery ps 0 0 w = Some k} \<longleftrightarrow>
      w \<in> {w. unat w \<in> {sum_list (map stake (take k ps))..<sum_list (map stake (take (Suc k) ps))}}"
      unfolding t mem_Collect_eq atLeastLessThan_iff using l[of w] T le by linarith
  qed
qed

lemma lottery_winner:
  fixes w :: u32
  assumes "fair_table ps" "sint w \<ge> 0" "sint w < sint (total_tickets ps)"
  shows "\<exists>k<length ps. lottery ps 0 0 w = Some k \<and> pstate (ps ! k) = RUNNABLE"
proof -
  have "sint (total_tickets ps) = int (sum_list (map stake ps))"
    using sint_unat_iff[of "total_tickets ps"] total_tickets_unat[OF assms(1)] assms(1)
    by (simp add: fair_table_def)
  then have "unat w < sum_list (map stake ps)" using assms(2,3) unat_sint_bound[of w] by simp
  from prefix_interval[OF this] obtain k where k: "k < length ps"
    "w \<in> {w. unat w \<in> {sum_list (map stake (take k ps))..<sum_list (map stake (take (Suc k) ps))}}" by auto
  then have "lottery ps 0 0 w = Some k" using lottery_numbers[OF assms(1) k(1)] by blast
  then show ?thesis using lottery_runnable[of ps 0 w k] by blast
qed

lemma card_unat_interval:
  assumes "b \<le> 4294967296"
  shows "card {w :: u32. unat w \<in> {a..<b}} = b - a"
proof -
  have "bij_betw unat {w :: u32. unat w \<in> {a..<b}} {a..<b}"
    by (rule bij_betw_byWitness[where f' = of_nat]) (use assms in \<open>auto simp: unat_of_nat_u32\<close>)
  then show ?thesis by (simp add: bij_betw_same_card)
qed

text \<open>
  C7. The lottery is proportional: among the \<open>total_tickets\<close> possible winning numbers, exactly
  \<open>tickets\<close> of them select a given runnable process, and every number selects some runnable process.
\<close>

theorem lottery_proportional:
  assumes "fair_table ps"
  shows "(\<forall>k<length ps. card {w. sint w \<ge> 0 \<and> sint w < sint (total_tickets ps) \<and> lottery ps 0 0 w = Some k} =
      (if pstate (ps ! k) = RUNNABLE then nat (sint (tickets (ps ! k))) else 0)) \<and>
    (\<forall>w. sint w \<ge> 0 \<longrightarrow> sint w < sint (total_tickets ps) \<longrightarrow>
      (\<exists>k<length ps. lottery ps 0 0 w = Some k \<and> pstate (ps ! k) = RUNNABLE))"
proof (intro conjI allI impI)
  have T: "sum_list (map stake ps) < 2147483648" using assms by (simp add: fair_table_def)
  {
    fix k assume k: "k < length ps"
    let ?a = "sum_list (map stake (take k ps))" and ?b = "sum_list (map stake (take (Suc k) ps))"
    have "?b \<le> 4294967296" using sum_stake_mono[of "Suc k" ps] T by linarith
    then have "card {w. sint w \<ge> 0 \<and> sint w < sint (total_tickets ps) \<and> lottery ps 0 0 w = Some k} = ?b - ?a"
      unfolding lottery_numbers[OF assms k] by (rule card_unat_interval)
    also have "\<dots> = stake (ps ! k)" using sum_stake_take[OF k] by simp
    also have "\<dots> = (if pstate (ps ! k) = RUNNABLE then nat (sint (tickets (ps ! k))) else 0)"
      using assms k sint_unat[of "tickets (ps ! k)"] by (auto simp: stake_def fair_table_def)
    finally show "card {w. sint w \<ge> 0 \<and> sint w < sint (total_tickets ps) \<and> lottery ps 0 0 w = Some k} =
      (if pstate (ps ! k) = RUNNABLE then nat (sint (tickets (ps ! k))) else 0)" .
  }
  fix w :: u32 assume "sint w \<ge> 0" "sint w < sint (total_tickets ps)"
  then show "\<exists>k<length ps. lottery ps 0 0 w = Some k \<and> pstate (ps ! k) = RUNNABLE"
    by (rule lottery_winner[OF assms])
qed

definition demo_table :: "proc list" where
  "demo_table = [proc0\<lparr>pstate := RUNNABLE, pid := 1, tickets := 10\<rparr>, proc0,
     proc0\<lparr>pstate := SLEEPING, pid := 2, tickets := 50\<rparr>, proc0\<lparr>pstate := RUNNABLE, pid := 3, tickets := 30\<rparr>]"

theorem lottery_proportional_witness:
  "card {w. sint w \<ge> 0 \<and> sint w < 40 \<and> lottery demo_table 0 0 w = Some 3} = 30"
proof -
  have f: "fair_table demo_table" by (simp add: demo_table_def fair_table_def stake_def proc0_def)
  have t: "total_tickets demo_table = 40" by (simp add: demo_table_def total_tickets_def proc0_def)
  have "3 < length demo_table" by (simp add: demo_table_def)
  then show ?thesis
    using lottery_proportional[OF f, THEN conjunct1, rule_format, of 3] unfolding t
    by (simp add: demo_table_def proc0_def)
qed

subsection \<open>What the operations do\<close>

lemma wakeup_run: "LK_ptable \<notin> set (held s) \<Longrightarrow>
    wakeup c s = Ok () (s\<lparr>ptable := map (wake c) (ptable s)\<rparr>)"
  by (simp add: wakeup_def wakeup1_def)

lemma wp_wakeup [wp_rules, simp]:
  "wp (wakeup c) Q s \<longleftrightarrow> LK_ptable \<notin> set (held s) \<and> Q () (s\<lparr>ptable := map (wake c) (ptable s)\<rparr>)"
  by (auto simp: wakeup_def wakeup1_def)

lemma sleep_run:
  assumes "curproc s = Some p" "p < length (ptable s)" "held s = [lk]"
  shows "sleep c lk s = Sleep c (s\<lparr>held := [LK_ptable],
    ptable := upd_at p (\<lambda>q. q\<lparr>chan := Some c, pstate := SLEEPING\<rparr>) (ptable s)\<rparr>)"
  using assms by (cases "lk = LK_ptable")
    (auto simp: sleep_def sched_def with_proc_def upd_proc_def kwhen_def)

lemma sleep_resume_run:
  assumes "curproc s = Some p" "held s = [LK_ptable]"
  shows "sleep_resume lk s = Ok () (s\<lparr>held := [lk], ptable := upd_at p (\<lambda>q. q\<lparr>chan := None\<rparr>) (ptable s)\<rparr>)"
  using assms by (cases "lk = LK_ptable") (auto simp: sleep_resume_def with_proc_def upd_proc_def kwhen_def)

lemma yield_run:
  assumes "curproc s = Some p" "p < length (ptable s)" "held s = []"
  shows "yield s = Ok () (s\<lparr>held := [LK_ptable],
    ptable := upd_at p (\<lambda>q. q\<lparr>preempted := False, pstate := RUNNABLE\<rparr>) (ptable s)\<rparr>)"
  using assms by (auto simp: yield_def sched_def with_proc_def upd_proc_def)

lemma switchuvm_run:
  assumes "kstack p \<noteq> 0" "pgdir p \<noteq> 0"
  shows "\<exists>g t. switchuvm (Some p) s = Ok () (s\<lparr>gdt := g, cpu_ts := t, cr3 := V2P (pgdir p)\<rparr>)"
  using assms by (auto simp: switchuvm_def)

lemma kill_run:
  assumes "LK_ptable \<notin> set (held s)"
  shows "kill n s = (case find_index (\<lambda>p. pid p = n) (ptable s) of
      None \<Rightarrow> Ok (- 1) s
    | Some p \<Rightarrow> Ok 0 (s\<lparr>ptable := upd_at p (\<lambda>q. q\<lparr>killed := True,
        pstate := (if pstate q = SLEEPING then RUNNABLE else pstate q)\<rparr>) (ptable s)\<rparr>))"
  using assms by (auto simp: kill_def upd_proc_def split: option.splits intro!: arg_cong[where f = "\<lambda>f. ptable_update f s" for s] upd_at_cong)

lemma settickets_run:
  assumes "LK_ptable \<notin> set (held s)"
  shows "settickets n tk s = (if sint tk \<le> 0 then Ok (- 1) s
    else case find_index (\<lambda>p. pid p = n) (ptable s) of
      None \<Rightarrow> Ok (- 1) s
    | Some p \<Rightarrow> Ok 0 (s\<lparr>ptable := upd_at p (\<lambda>q. q\<lparr>tickets := tk\<rparr>) (ptable s)\<rparr>))"
  using assms by (auto simp: settickets_def upd_proc_def split: option.splits)

text \<open>A process that can run has a kernel stack and a page table.\<close>

definition runnable_ok :: "proc list \<Rightarrow> bool" where
  "runnable_ok ps \<longleftrightarrow> (\<forall>p\<in>set ps. pstate p = RUNNABLE \<longrightarrow> kstack p \<noteq> 0 \<and> pgdir p \<noteq> 0)"

lemma sint_total: "fair_table ps \<Longrightarrow> sint (total_tickets ps) = int (sum_list (map stake ps))"
  using sint_unat_iff[of "total_tickets ps"] total_tickets_unat[of ps] by (simp add: fair_table_def)

lemma fair_positive:
  assumes "fair_table ps" "p \<in> set ps" "pstate p = RUNNABLE"
  shows "0 < sum_list (map stake ps)"
proof -
  have "0 < stake p"
    using assms unat_of_sint[of "tickets p"] by (auto simp: fair_table_def stake_def unat_gt_0)
  moreover have "stake p \<le> sum_list (map stake ps)" using assms(2) by (intro member_le_sum_list) auto
  ultimately show ?thesis by linarith
qed

lemma sint_pred: "0 < sint (x :: u32) \<Longrightarrow> sint (x - 1) = sint x - 1"
proof -
  assume a: "0 < sint x"
  then have u: "sint x = int (unat x)" "unat x < 2147483648" "0 < unat x"
    using sint_unat[of x] unat_of_sint[of x] by (auto simp: unat_gt_0)
  have "x \<noteq> 0" using a by auto
  then have "unat (x - 1) = unat x - 1" by (rule unat_minus_one)
  then show ?thesis using u sint_unat_iff[of "x - 1"] by linarith
qed

text \<open>
  C6. A round of the scheduler picks a process: with a fair table whose runnable processes have
  kernel stacks and page tables and hold between 1 and 65536 tickets together, it ends at the
  switch into a process that was runnable, which is now the only one that changed (to running),
  with its page table installed and \<open>ptable.lock\<close> held.
\<close>

theorem scheduler_picks:
  assumes "LK_ptable \<notin> set (held s)" "fair_table (ptable s)" "runnable_ok (ptable s)"
    "0 < sint (total_tickets (ptable s))" "sint (total_tickets (ptable s)) \<le> 65536"
  shows "\<exists>p t. scheduler s = Ok (Some p) t \<and> p < length (ptable s) \<and> pstate (ptable s ! p) = RUNNABLE \<and>
    ptable t = upd_at p (\<lambda>q. q\<lparr>pstate := RUNNING\<rparr>) (ptable s) \<and> curproc t = Some p \<and>
    cr3 t = V2P (pgdir (ptable s ! p)) \<and> held t = LK_ptable # held s"
proof -
  let ?tot = "total_tickets (ptable s)"
  have m: "sint (?tot - 1) = sint ?tot - 1" using assms(4) by (rule sint_pred)
  obtain w k where r: "random_at_most (?tot - 1) (lfsr s) = Some (w, (rand ^^ k) (lfsr s))"
    "0 \<le> sint w" "sint w \<le> max 0 (sint (?tot - 1))"
    using random_returns[of "?tot - 1" "lfsr s"] m assms(5) by auto
  then have "sint w < sint ?tot" using m assms(4) by simp
  with r(2) obtain p where p: "p < length (ptable s)" "lottery (ptable s) 0 0 w = Some p"
    "pstate (ptable s ! p) = RUNNABLE"
    using lottery_winner[OF assms(2)] by blast
  let ?s = "s\<lparr>held := LK_ptable # held s, lfsr := (rand ^^ k) (lfsr s), curproc := Some p\<rparr>"
  have "kstack (ptable s ! p) \<noteq> 0" "pgdir (ptable s ! p) \<noteq> 0"
    using assms(3) p(1,3) by (auto simp: runnable_ok_def)
  from switchuvm_run[OF this, of ?s] obtain g u where
    "switchuvm (Some (ptable s ! p)) ?s = Ok () (?s\<lparr>gdt := g, cpu_ts := u, cr3 := V2P (pgdir (ptable s ! p))\<rparr>)"
    by blast
  then show ?thesis
    using assms(1,4) r(1) p by (intro exI[of _ p]) (auto simp: scheduler_def upd_proc_def)
qed

definition demo_ptab :: ptab where
  "demo_ptab = \<lparr>held = [], kmemory = (\<lambda>_. 0), kend = 0x80100000, use_lock = True, freelist = 0,
     kdata = 0x80108000, kpgdir = 0x803FF000, cr3 = 0x3FF000, gdt = replicate 6 (SEG 0 0 0 0),
     cpu_ts = \<lparr>ts_esp0 = 0, ts_ss0 = 0, ts_iomb = 0\<rparr>, ts_base = 0x80112000, kout = [],
     ptable = [proc0\<lparr>pstate := RUNNABLE, pid := 1, tickets := 10, kstack := 0x80200000, pgdir := 0x80300000\<rparr>, proc0],
     nextpid = 2, initproc = Some 0, curproc = None, lfsr = lfsr_init, sym_trapret = 0x80105000,
     sym_forkret = 0x80104000\<rparr>"

theorem scheduler_picks_witness:
  "\<exists>p t. scheduler demo_ptab = Ok (Some p) t \<and> pstate (ptable demo_ptab ! p) = RUNNABLE \<and> curproc t = Some p"
proof -
  have "LK_ptable \<notin> set (held demo_ptab)" by (simp add: demo_ptab_def)
  moreover have "fair_table (ptable demo_ptab)" "runnable_ok (ptable demo_ptab)"
    by (simp_all add: demo_ptab_def fair_table_def runnable_ok_def stake_def proc0_def)
  moreover have "total_tickets (ptable demo_ptab) = 10" by (simp add: demo_ptab_def total_tickets_def proc0_def)
  then have "0 < sint (total_tickets (ptable demo_ptab))" "sint (total_tickets (ptable demo_ptab)) \<le> 65536"
    by simp_all
  ultimately show ?thesis using scheduler_picks[of demo_ptab] by blast
qed

text \<open>
  C8. A table whose runnable processes hold more than 65536 tickets hangs the scheduler: the draw
  never ends, with \<open>ptable.lock\<close> held. A single \<open>settickets\<close> call can bring the table there.
\<close>

theorem scheduler_hangs:
  assumes "LK_ptable \<notin> set (held s)" "65536 < sint (total_tickets (ptable s))"
  shows "scheduler s = Diverge"
proof -
  have "65536 \<le> sint (total_tickets (ptable s) - 1)" using assms(2) sint_pred[of "total_tickets (ptable s)"] by simp
  from random_at_most_diverges[OF this, of "lfsr s"] show ?thesis
    using assms by (simp add: scheduler_def)
qed

theorem scheduler_hangs_witness:
  "\<exists>t. settickets 1 65537 demo_ptab = Ok 0 t \<and> scheduler t = Diverge"
proof -
  let ?t = "demo_ptab\<lparr>ptable := upd_at 0 (\<lambda>q. q\<lparr>tickets := 65537\<rparr>) (ptable demo_ptab)\<rparr>"
  have "settickets 1 65537 demo_ptab = Ok 0 ?t"
    by (simp add: settickets_run demo_ptab_def)
  moreover have "total_tickets (ptable ?t) = 65537"
    by (simp add: demo_ptab_def total_tickets_def proc0_def upd_at_def)
  then have "65536 < sint (total_tickets (ptable ?t))" by simp
  then have "scheduler ?t = Diverge" by (intro scheduler_hangs) (simp_all add: demo_ptab_def)
  ultimately show ?thesis by blast
qed

end
