(* ===== verification/Mailbox.thy ===== *)
theory Mailbox
  imports Proc
begin

text \<open>
  Mailbox IPC, \<^verbatim>\<open>src/mailbox.c\<close> and \<^verbatim>\<open>src/mailbox.h\<close>: sixteen one-message buffers with blocking
  \<open>ksend\<close> and \<open>krecv\<close>. The user buffer of \<open>ksend\<close> is the list of its bytes; \<open>krecv\<close> returns the
  bytes it copies out with its result. \<open>ksend_loop\<close> and \<open>krecv_loop\<close> start at the head of the
  \<^verbatim>\<open>while\<close> loop, where a process continues after \<^verbatim>\<open>sleep\<close>.
\<close>

subsection \<open>State\<close>

definition NUM_MAILBOXES :: nat where "NUM_MAILBOXES = 16"
definition MAILBOX_MSGSIZE :: nat where "MAILBOX_MSGSIZE = 128"

record mailbox =
  mb_msg :: "u8 list"
  mb_msglen :: i32
  mb_full :: bool

record mbtab = ptab +
  mailboxes :: "mailbox list"

definition upd_mb :: "nat \<Rightarrow> (mailbox \<Rightarrow> mailbox) \<Rightarrow> ('z mbtab_scheme, unit) kprog" where
  "upd_mb i f = kmodify (\<lambda>s. s\<lparr>mailboxes := upd_at i f (mailboxes s)\<rparr>)"

subsection \<open>Operations\<close>

definition mailboxinit :: "('z mbtab_scheme, unit) kprog" where
  "mailboxinit = kfor [0..<NUM_MAILBOXES] (\<lambda>i. kseq [
     lk_init (LK_mailbox i),
     upd_mb i (\<lambda>m. m\<lparr>mb_full := False\<rparr>),
     upd_mb i (\<lambda>m. m\<lparr>mb_msglen := 0\<rparr>)])"

definition ksend_loop :: "nat \<Rightarrow> u8 list \<Rightarrow> i32 \<Rightarrow> ('z mbtab_scheme, int) kprog" where
  "ksend_loop i buf len = kbind (kgets (\<lambda>s. mailboxes s ! i)) (\<lambda>mb.
     if mb_full mb then sleep (Ch_mailbox i) (LK_mailbox i)
     else kbind (kseq [
       upd_mb i (\<lambda>m. m\<lparr>mb_msg := take (unat len) buf @ drop (unat len) (mb_msg m)\<rparr>),
       upd_mb i (\<lambda>m. m\<lparr>mb_msglen := len\<rparr>),
       upd_mb i (\<lambda>m. m\<lparr>mb_full := True\<rparr>),
       wakeup (Ch_mailbox i),
       lk_release (LK_mailbox i)]) (\<lambda>_. kreturn 0))"

definition ksend :: "i32 \<Rightarrow> u8 list \<Rightarrow> i32 \<Rightarrow> ('z mbtab_scheme, int) kprog" where
  "ksend ch buf len =
     (if sint ch < 0 \<or> sint ch \<ge> int NUM_MAILBOXES then kreturn (- 1)
      else if sint len \<le> 0 \<or> sint len > int MAILBOX_MSGSIZE then kreturn (- 1)
      else kbind (lk_acquire (LK_mailbox (unat ch))) (\<lambda>_. ksend_loop (unat ch) buf len))"

definition krecv_loop :: "nat \<Rightarrow> i32 \<Rightarrow> ('z mbtab_scheme, int \<times> u8 list) kprog" where
  "krecv_loop i maxlen = kbind (kgets (\<lambda>s. mailboxes s ! i)) (\<lambda>mb.
     if \<not> mb_full mb then sleep (Ch_mailbox i) (LK_mailbox i)
     else (let n = (if sint (mb_msglen mb) > sint maxlen then maxlen else mb_msglen mb)
       in kbind (kseq [
            upd_mb i (\<lambda>m. m\<lparr>mb_full := False\<rparr>),
            upd_mb i (\<lambda>m. m\<lparr>mb_msglen := 0\<rparr>),
            wakeup (Ch_mailbox i),
            lk_release (LK_mailbox i)]) (\<lambda>_.
          kreturn (sint n, take (unat n) (mb_msg mb)))))"

definition krecv :: "i32 \<Rightarrow> i32 \<Rightarrow> ('z mbtab_scheme, int \<times> u8 list) kprog" where
  "krecv ch maxlen =
     (if sint ch < 0 \<or> sint ch \<ge> int NUM_MAILBOXES then kreturn (- 1, [])
      else if sint maxlen \<le> 0 then kreturn (- 1, [])
      else kbind (lk_acquire (LK_mailbox (unat ch))) (\<lambda>_. krecv_loop (unat ch) maxlen))"

subsection \<open>What the operations do\<close>

lemma upd_mb_run [simp]: "upd_mb i f s = Ok () (s\<lparr>mailboxes := upd_at i f (mailboxes s)\<rparr>)"
  by (simp add: upd_mb_def)

definition put_msg :: "u8 list \<Rightarrow> i32 \<Rightarrow> mailbox \<Rightarrow> mailbox" where
  "put_msg buf len m = m\<lparr>mb_msg := take (unat len) buf @ drop (unat len) (mb_msg m), mb_msglen := len, mb_full := True\<rparr>"

definition take_msg :: "mailbox \<Rightarrow> mailbox" where
  "take_msg m = m\<lparr>mb_full := False, mb_msglen := 0\<rparr>"

lemma ksend_loop_free:
  assumes "\<not> mb_full (mailboxes s ! i)" "held s = [LK_mailbox i]"
  shows "ksend_loop i buf len s = Ok 0 (s\<lparr>mailboxes := upd_at i (put_msg buf len) (mailboxes s),
    ptable := map (wake (Ch_mailbox i)) (ptable s), held := []\<rparr>)"
  using assms by (simp add: ksend_loop_def wakeup_run put_msg_def[abs_def])

lemma krecv_loop_full:
  assumes "mb_full (mailboxes s ! i)" "held s = [LK_mailbox i]"
  shows "krecv_loop i maxlen s = (let mb = mailboxes s ! i;
      n = (if sint (mb_msglen mb) > sint maxlen then maxlen else mb_msglen mb)
    in Ok (sint n, take (unat n) (mb_msg mb)) (s\<lparr>mailboxes := upd_at i take_msg (mailboxes s),
      ptable := map (wake (Ch_mailbox i)) (ptable s), held := []\<rparr>))"
  using assms by (simp add: krecv_loop_def wakeup_run take_msg_def[abs_def] Let_def)

lemma mailbox_blocks:
  assumes "curproc s = Some p" "p < length (ptable s)" "held s = [LK_mailbox i]"
  shows "mb_full (mailboxes s ! i) \<Longrightarrow> ksend_loop i buf len s = Sleep (Ch_mailbox i) (s\<lparr>held := [LK_ptable],
      ptable := upd_at p (\<lambda>q. q\<lparr>chan := Some (Ch_mailbox i), pstate := SLEEPING\<rparr>) (ptable s)\<rparr>)"
    and "\<not> mb_full (mailboxes s ! i) \<Longrightarrow> krecv_loop i maxlen s = Sleep (Ch_mailbox i) (s\<lparr>held := [LK_ptable],
      ptable := upd_at p (\<lambda>q. q\<lparr>chan := Some (Ch_mailbox i), pstate := SLEEPING\<rparr>) (ptable s)\<rparr>)"
  using assms by (simp_all add: ksend_loop_def krecv_loop_def sleep_run)

subsection \<open>Processes that send and receive\<close>

text \<open>
  What each process is blocked in, and the history of every mailbox: the messages sent, and for
  each message received the room of the receiver and the bytes it got. A step is one process's
  run from the point where it takes \<open>mb->lock\<close> (or is resumed) to its return or its next \<open>sleep\<close>.
\<close>

datatype mb_call = MIdle | MSend nat "u8 list" i32 | MRecv nat i32

record mb_sys =
  ks :: mbtab
  doing :: "nat \<Rightarrow> mb_call"
  sent :: "nat \<Rightarrow> u8 list list"
  rcvd :: "nat \<Rightarrow> (nat \<times> u8 list) list"

text \<open>Process \<open>p\<close> runs on a CPU without locks; the scheduler resumes it with \<open>ptable.lock\<close> held.\<close>

definition enter :: "nat \<Rightarrow> mbtab \<Rightarrow> mbtab" where
  "enter p s = s\<lparr>curproc := Some p, held := []\<rparr>"

definition dispatch :: "nat \<Rightarrow> mbtab \<Rightarrow> mbtab" where
  "dispatch p s = s\<lparr>curproc := Some p, held := [LK_ptable],
     ptable := upd_at p (\<lambda>q. q\<lparr>pstate := RUNNING\<rparr>) (ptable s)\<rparr>"

definition is_proc :: "nat \<Rightarrow> procstate \<Rightarrow> mb_sys \<Rightarrow> bool" where
  "is_proc p st y \<longleftrightarrow> p < length (ptable (ks y)) \<and> pstate (ptable (ks y) ! p) = st"

definition log_sent :: "nat \<Rightarrow> u8 list \<Rightarrow> i32 \<Rightarrow> mb_sys \<Rightarrow> mb_sys" where
  "log_sent i buf len y = y\<lparr>sent := (sent y)(i := sent y i @ [take (unat len) buf])\<rparr>"

definition log_rcvd :: "nat \<Rightarrow> i32 \<Rightarrow> u8 list \<Rightarrow> mb_sys \<Rightarrow> mb_sys" where
  "log_rcvd i maxlen got y = y\<lparr>rcvd := (rcvd y)(i := rcvd y i @ [(unat maxlen, got)])\<rparr>"

definition set_ks :: "mbtab \<Rightarrow> nat \<Rightarrow> mb_call \<Rightarrow> mb_sys \<Rightarrow> mb_sys" where
  "set_ks t p call y = y\<lparr>ks := t, doing := (doing y)(p := call)\<rparr>"

inductive mb_step :: "mb_sys \<Rightarrow> mb_sys \<Rightarrow> bool" where
  send_fails: "is_proc p RUNNING y \<Longrightarrow> doing y p = MIdle \<Longrightarrow> ksend ch buf len (enter p (ks y)) = Ok (- 1) t \<Longrightarrow>
    mb_step y (set_ks t p MIdle y)"
| send_now: "is_proc p RUNNING y \<Longrightarrow> doing y p = MIdle \<Longrightarrow> unat len \<le> length buf \<Longrightarrow>
    ksend ch buf len (enter p (ks y)) = Ok 0 t \<Longrightarrow>
    mb_step y (log_sent (unat ch) buf len (set_ks t p MIdle y))"
| send_block: "is_proc p RUNNING y \<Longrightarrow> doing y p = MIdle \<Longrightarrow> unat len \<le> length buf \<Longrightarrow>
    ksend ch buf len (enter p (ks y)) = Sleep c t \<Longrightarrow>
    mb_step y (set_ks t p (MSend (unat ch) buf len) y)"
| send_resume: "is_proc p RUNNABLE y \<Longrightarrow> doing y p = MSend i buf len \<Longrightarrow>
    kbind (sleep_resume (LK_mailbox i)) (\<lambda>_. ksend_loop i buf len) (dispatch p (ks y)) = Ok r t \<Longrightarrow>
    mb_step y (log_sent i buf len (set_ks t p MIdle y))"
| send_again: "is_proc p RUNNABLE y \<Longrightarrow> doing y p = MSend i buf len \<Longrightarrow>
    kbind (sleep_resume (LK_mailbox i)) (\<lambda>_. ksend_loop i buf len) (dispatch p (ks y)) = Sleep c t \<Longrightarrow>
    mb_step y (set_ks t p (MSend i buf len) y)"
| recv_fails: "is_proc p RUNNING y \<Longrightarrow> doing y p = MIdle \<Longrightarrow> krecv ch maxlen (enter p (ks y)) = Ok (- 1, got) t \<Longrightarrow>
    mb_step y (set_ks t p MIdle y)"
| recv_now: "is_proc p RUNNING y \<Longrightarrow> doing y p = MIdle \<Longrightarrow> krecv ch maxlen (enter p (ks y)) = Ok (n, got) t \<Longrightarrow>
    n \<noteq> - 1 \<Longrightarrow> mb_step y (log_rcvd (unat ch) maxlen got (set_ks t p MIdle y))"
| recv_block: "is_proc p RUNNING y \<Longrightarrow> doing y p = MIdle \<Longrightarrow> krecv ch maxlen (enter p (ks y)) = Sleep c t \<Longrightarrow>
    mb_step y (set_ks t p (MRecv (unat ch) maxlen) y)"
| recv_resume: "is_proc p RUNNABLE y \<Longrightarrow> doing y p = MRecv i maxlen \<Longrightarrow>
    kbind (sleep_resume (LK_mailbox i)) (\<lambda>_. krecv_loop i maxlen) (dispatch p (ks y)) = Ok (n, got) t \<Longrightarrow>
    mb_step y (log_rcvd i maxlen got (set_ks t p MIdle y))"
| recv_again: "is_proc p RUNNABLE y \<Longrightarrow> doing y p = MRecv i maxlen \<Longrightarrow>
    kbind (sleep_resume (LK_mailbox i)) (\<lambda>_. krecv_loop i maxlen) (dispatch p (ks y)) = Sleep c t \<Longrightarrow>
    mb_step y (set_ks t p (MRecv i maxlen) y)"
| killed: "is_proc p RUNNING y \<Longrightarrow> kill n (enter p (ks y)) = Ok r t \<Longrightarrow> mb_step y (y\<lparr>ks := t\<rparr>)"
| preempted: "is_proc p RUNNING y \<Longrightarrow> yield (enter p (ks y)) = Ok () t \<Longrightarrow> mb_step y (y\<lparr>ks := t\<rparr>)"
| scheduled: "is_proc p RUNNABLE y \<Longrightarrow> doing y p = MIdle \<Longrightarrow>
    yield_resume (dispatch p (ks y)) = Ok () t \<Longrightarrow> mb_step y (y\<lparr>ks := t\<rparr>)"

definition mb_message :: "mailbox \<Rightarrow> u8 list" where
  "mb_message m = take (unat (mb_msglen m)) (mb_msg m)"

text \<open>Start: empty mailboxes, no history, nobody blocked.\<close>

definition mb_start :: "mb_sys \<Rightarrow> bool" where
  "mb_start y \<longleftrightarrow> length (mailboxes (ks y)) = NUM_MAILBOXES \<and>
     (\<forall>i<NUM_MAILBOXES. \<not> mb_full (mailboxes (ks y) ! i) \<and> mb_msglen (mailboxes (ks y) ! i) = 0) \<and>
     (\<forall>p<length (ptable (ks y)). pstate (ptable (ks y) ! p) \<noteq> SLEEPING) \<and>
     (\<forall>p. doing y p = MIdle) \<and> (\<forall>i. sent y i = [] \<and> rcvd y i = [])"

inductive mb_reach :: "mb_sys \<Rightarrow> bool" where
  start: "mb_start y \<Longrightarrow> mb_reach y"
| step: "mb_reach y \<Longrightarrow> mb_step y z \<Longrightarrow> mb_reach z"

text \<open>A sleeper on a mailbox is a sender if the mailbox is full and a receiver if it is empty.\<close>

definition blocked_ok :: "mb_call \<Rightarrow> nat \<Rightarrow> mailbox list \<Rightarrow> bool" where
  "blocked_ok call i mbs = (case call of
     MIdle \<Rightarrow> False
   | MSend j buf len \<Rightarrow> j = i \<and> mb_full (mbs ! i)
   | MRecv j maxlen \<Rightarrow> j = i \<and> \<not> mb_full (mbs ! i))"

definition history_ok :: "(nat \<times> u8 list) list \<Rightarrow> u8 list list \<Rightarrow> mailbox \<Rightarrow> bool" where
  "history_ok rs ss mb \<longleftrightarrow> (\<exists>ms. list_all2 (\<lambda>(n, got) m. got = take n m) rs ms \<and>
     ss = ms @ (if mb_full mb then [mb_message mb] else []))"

definition sleeps_on :: "proc \<Rightarrow> nat \<Rightarrow> bool" where
  "sleeps_on q i \<longleftrightarrow> pstate q = SLEEPING \<and> chan q = Some (Ch_mailbox i)"

definition call_ok :: "mb_call \<Rightarrow> bool" where
  "call_ok call = (case call of MIdle \<Rightarrow> True
     | MSend i buf len \<Rightarrow> i < NUM_MAILBOXES \<and> unat len \<le> length buf \<and> 0 < sint len
     | MRecv i maxlen \<Rightarrow> i < NUM_MAILBOXES \<and> 0 < sint maxlen)"

definition mb_inv :: "mailbox list \<Rightarrow> proc list \<Rightarrow> (nat \<Rightarrow> mb_call) \<Rightarrow> (nat \<Rightarrow> u8 list list) \<Rightarrow>
    (nat \<Rightarrow> (nat \<times> u8 list) list) \<Rightarrow> bool" where
  "mb_inv mbs ps d ss rs \<longleftrightarrow> length mbs = NUM_MAILBOXES \<and>
     (\<forall>p<length ps. \<forall>i. sleeps_on (ps ! p) i \<longrightarrow> blocked_ok (d p) i mbs) \<and>
     (\<forall>i<NUM_MAILBOXES. history_ok (rs i) (ss i) (mbs ! i) \<and> 0 \<le> sint (mb_msglen (mbs ! i))) \<and>
     (\<forall>p. call_ok (d p))"

lemma mb_invD:
  assumes "mb_inv mbs ps d ss rs"
  shows "length mbs = NUM_MAILBOXES"
    "p < length ps \<Longrightarrow> sleeps_on (ps ! p) i \<Longrightarrow> blocked_ok (d p) i mbs"
    "i < NUM_MAILBOXES \<Longrightarrow> history_ok (rs i) (ss i) (mbs ! i)"
    "i < NUM_MAILBOXES \<Longrightarrow> 0 \<le> sint (mb_msglen (mbs ! i))"
    "call_ok (d p)"
  using assms by (auto simp: mb_inv_def)

text \<open>Table \<open>ps'\<close> has only sleepers of \<open>ps\<close>, and none that \<open>P\<close> excludes.\<close>

definition fewer_sleepers :: "(nat \<Rightarrow> nat \<Rightarrow> bool) \<Rightarrow> proc list \<Rightarrow> proc list \<Rightarrow> bool" where
  "fewer_sleepers P ps' ps \<longleftrightarrow> length ps' = length ps \<and>
     (\<forall>q<length ps. \<forall>j. sleeps_on (ps' ! q) j \<longrightarrow> sleeps_on (ps ! q) j \<and> P q j)"

lemma fewer_wake:
  assumes "p < length ps" "pstate (f (ps ! p)) = RUNNING"
  shows "fewer_sleepers (\<lambda>q j. q \<noteq> p \<and> j \<noteq> i) (map (wake (Ch_mailbox i)) (upd_at p f ps)) ps"
  using assms by (auto simp: fewer_sleepers_def sleeps_on_def wake_def nth_upd_at split: if_splits)

lemma mb_inv_put:
  assumes "mb_inv mbs ps d ss rs" "i < NUM_MAILBOXES" "\<not> mb_full (mbs ! i)"
    "unat len \<le> length buf" "0 < sint len" "fewer_sleepers (\<lambda>q j. q \<noteq> p \<and> j \<noteq> i) ps' ps"
  shows "mb_inv (upd_at i (put_msg buf len) mbs) ps' (d(p := MIdle)) (ss(i := ss i @ [take (unat len) buf])) rs"
proof -
  note inv = mb_invD[OF assms(1)]
  have "blocked_ok ((d(p := MIdle)) q) j (upd_at i (put_msg buf len) mbs)"
    if "q < length ps'" "sleeps_on (ps' ! q) j" for q j
  proof -
    have "q \<noteq> p" "j \<noteq> i" "blocked_ok (d q) j mbs"
      using assms(6) that inv(2)[of q j] by (auto simp: fewer_sleepers_def)
    then show ?thesis by (auto simp: blocked_ok_def split: mb_call.splits)
  qed
  moreover have "history_ok (rs i) (ss i @ [take (unat len) buf]) (put_msg buf len (mbs ! i))"
    using inv(3)[OF assms(2)] assms(3,4) by (auto simp: history_ok_def put_msg_def mb_message_def)
  ultimately show ?thesis
    using inv assms(2,5) by (auto simp: mb_inv_def nth_upd_at put_msg_def call_ok_def)
qed

lemma mb_inv_take:
  assumes "mb_inv mbs ps d ss rs" "i < NUM_MAILBOXES" "mb_full (mbs ! i)" "0 < sint maxlen"
    "fewer_sleepers (\<lambda>q j. q \<noteq> p \<and> j \<noteq> i) ps' ps"
    "got = take (unat (if sint (mb_msglen (mbs ! i)) > sint maxlen then maxlen else mb_msglen (mbs ! i))) (mb_msg (mbs ! i))"
  shows "mb_inv (upd_at i take_msg mbs) ps' (d(p := MIdle)) ss (rs(i := rs i @ [(unat maxlen, got)]))"
proof -
  note inv = mb_invD[OF assms(1)]
  have "blocked_ok ((d(p := MIdle)) q) j (upd_at i take_msg mbs)"
    if "q < length ps'" "sleeps_on (ps' ! q) j" for q j
  proof -
    have "q \<noteq> p" "j \<noteq> i" "blocked_ok (d q) j mbs"
      using assms(5) that inv(2)[of q j] by (auto simp: fewer_sleepers_def)
    then show ?thesis by (auto simp: blocked_ok_def split: mb_call.splits)
  qed
  moreover have "history_ok (rs i @ [(unat maxlen, got)]) (ss i) (take_msg (mbs ! i))"
  proof -
    obtain ms where ms: "list_all2 (\<lambda>(n, got) m. got = take n m) (rs i) ms" "ss i = ms @ [mb_message (mbs ! i)]"
      using inv(3)[OF assms(2)] assms(3) by (auto simp: history_ok_def)
    have "sint maxlen < sint (mb_msglen (mbs ! i)) \<longleftrightarrow> unat maxlen < unat (mb_msglen (mbs ! i))"
      using assms(4) inv(4)[OF assms(2)] by (intro sint_less_unat) simp_all
    then have "got = take (unat maxlen) (mb_message (mbs ! i))"
      using assms(6) by (simp add: mb_message_def min_def)
    then show ?thesis
      using ms by (auto simp: history_ok_def take_msg_def intro!: exI[of _ "ms @ [mb_message (mbs ! i)]"] list_all2_appendI)
  qed
  ultimately show ?thesis
    using inv assms(2) by (auto simp: mb_inv_def nth_upd_at take_msg_def call_ok_def)
qed

lemma mb_inv_block:
  assumes "mb_inv mbs ps d ss rs" "blocked_ok call i mbs" "call_ok call"
  shows "mb_inv mbs (upd_at p (\<lambda>q. (f q)\<lparr>chan := Some (Ch_mailbox i), pstate := SLEEPING\<rparr>) ps) (d(p := call)) ss rs"
proof -
  note inv = mb_invD[OF assms(1)]
  let ?ps = "upd_at p (\<lambda>q. (f q)\<lparr>chan := Some (Ch_mailbox i), pstate := SLEEPING\<rparr>) ps"
  have "blocked_ok ((d(p := call)) q) j mbs" if "q < length ?ps" "sleeps_on (?ps ! q) j" for q j
  proof (cases "q = p")
    case True
    then have "j = i" using that by (simp add: sleeps_on_def)
    then show ?thesis using True assms(2) by simp
  next
    case False
    then show ?thesis using that inv(2)[of q j] by simp
  qed
  then show ?thesis using inv assms(3) by (simp add: mb_inv_def)
qed

lemma mb_inv_fewer:
  assumes "mb_inv mbs ps d ss rs" "fewer_sleepers (\<lambda>q j. True) ps' ps"
  shows "mb_inv mbs ps' d ss rs"
  using mb_invD[OF assms(1)] assms(2) by (simp add: mb_inv_def fewer_sleepers_def)

subsection \<open>Every step keeps the invariant\<close>

lemma ksend_loop_inv:
  assumes "mb_inv (mailboxes s) ps d ss rs" "call_ok (MSend i buf len)" "p < length ps"
    "ptable s = upd_at p f ps" "pstate (f (ps ! p)) = RUNNING" "curproc s = Some p" "held s = [LK_mailbox i]"
  shows "ksend_loop i buf len s = Ok r t \<Longrightarrow>
      mb_inv (mailboxes t) (ptable t) (d(p := MIdle)) (ss(i := ss i @ [take (unat len) buf])) rs"
    and "ksend_loop i buf len s = Sleep c t \<Longrightarrow> mb_inv (mailboxes t) (ptable t) (d(p := MSend i buf len)) ss rs"
proof -
  have c: "i < NUM_MAILBOXES" "unat len \<le> length buf" "0 < sint len" using assms(2) by (auto simp: call_ok_def)
  note blk = mailbox_blocks(1)[OF assms(6) _ assms(7), of buf len]
  {
    assume "ksend_loop i buf len s = Ok r t"
    then have f: "\<not> mb_full (mailboxes s ! i)" using blk assms(3,4) by auto
    show "mb_inv (mailboxes t) (ptable t) (d(p := MIdle)) (ss(i := ss i @ [take (unat len) buf])) rs"
      using \<open>ksend_loop i buf len s = Ok r t\<close> ksend_loop_free[OF f assms(7), of buf len] assms(4)
        mb_inv_put[OF assms(1) c(1) f c(2,3) fewer_wake[where p = p and f = f]] assms(3,5) by auto
  next
    assume "ksend_loop i buf len s = Sleep c t"
    then have f: "mb_full (mailboxes s ! i)" using ksend_loop_free[OF _ assms(7), of buf len] by auto
    then have "blocked_ok (MSend i buf len) i (mailboxes s)" by (simp add: blocked_ok_def)
    then show "mb_inv (mailboxes t) (ptable t) (d(p := MSend i buf len)) ss rs"
      using \<open>ksend_loop i buf len s = Sleep c t\<close> blk[OF _ f] assms(2,3,4) mb_inv_block[OF assms(1), of _ i p f] by auto
  }
qed

lemma krecv_loop_inv:
  assumes "mb_inv (mailboxes s) ps d ss rs" "call_ok (MRecv i maxlen)" "p < length ps"
    "ptable s = upd_at p f ps" "pstate (f (ps ! p)) = RUNNING" "curproc s = Some p" "held s = [LK_mailbox i]"
  shows "krecv_loop i maxlen s = Ok (n, got) t \<Longrightarrow>
      mb_inv (mailboxes t) (ptable t) (d(p := MIdle)) ss (rs(i := rs i @ [(unat maxlen, got)]))"
    and "krecv_loop i maxlen s = Sleep c t \<Longrightarrow> mb_inv (mailboxes t) (ptable t) (d(p := MRecv i maxlen)) ss rs"
proof -
  have c: "i < NUM_MAILBOXES" "0 < sint maxlen" using assms(2) by (auto simp: call_ok_def)
  note blk = mailbox_blocks(2)[OF assms(6) _ assms(7), of maxlen]
  {
    assume "krecv_loop i maxlen s = Ok (n, got) t"
    then have f: "mb_full (mailboxes s ! i)" using blk assms(3,4) by auto
    show "mb_inv (mailboxes t) (ptable t) (d(p := MIdle)) ss (rs(i := rs i @ [(unat maxlen, got)]))"
      using \<open>krecv_loop i maxlen s = Ok (n, got) t\<close> krecv_loop_full[OF f assms(7), of maxlen] assms(4)
        mb_inv_take[OF assms(1) c(1) f c(2) fewer_wake[where p = p and f = f]] assms(3,5) by (auto simp: Let_def)
  next
    assume "krecv_loop i maxlen s = Sleep c t"
    then have f: "\<not> mb_full (mailboxes s ! i)" using krecv_loop_full[OF _ assms(7), of maxlen] by (auto simp: Let_def)
    then have "blocked_ok (MRecv i maxlen) i (mailboxes s)" by (simp add: blocked_ok_def)
    then show "mb_inv (mailboxes t) (ptable t) (d(p := MRecv i maxlen)) ss rs"
      using \<open>krecv_loop i maxlen s = Sleep c t\<close> blk[OF _ f] assms(2,3,4) mb_inv_block[OF assms(1), of _ i p f] by auto
  }
qed

abbreviation sys_inv :: "mb_sys \<Rightarrow> bool" where
  "sys_inv y \<equiv> mb_inv (mailboxes (ks y)) (ptable (ks y)) (doing y) (sent y) (rcvd y)"

lemma resume_run:
  "kbind (sleep_resume lk) (\<lambda>_. m) (dispatch p s) =
     m (s\<lparr>curproc := Some p, held := [lk], ptable := upd_at p (\<lambda>q. q\<lparr>pstate := RUNNING, chan := None\<rparr>) (ptable s)\<rparr>)"
  by (simp add: sleep_resume_run[where p = p] dispatch_def)

lemma ksend_valid:
  "ksend ch buf len (enter p s) = Ok 0 t \<or> ksend ch buf len (enter p s) = Sleep c t \<Longrightarrow>
     unat ch < NUM_MAILBOXES \<and> 0 < sint len \<and>
     ksend ch buf len (enter p s) = ksend_loop (unat ch) buf len (s\<lparr>curproc := Some p, held := [LK_mailbox (unat ch)]\<rparr>)"
  using unat_sint_bound[of ch NUM_MAILBOXES] by (auto simp: ksend_def enter_def split: if_splits)

lemma krecv_valid:
  "(krecv ch maxlen (enter p s) = Ok (n, got) t \<and> n \<noteq> - 1) \<or> krecv ch maxlen (enter p s) = Sleep c t \<Longrightarrow>
     unat ch < NUM_MAILBOXES \<and> 0 < sint maxlen \<and>
     krecv ch maxlen (enter p s) = krecv_loop (unat ch) maxlen (s\<lparr>curproc := Some p, held := [LK_mailbox (unat ch)]\<rparr>)"
  using unat_sint_bound[of ch NUM_MAILBOXES] by (auto simp: krecv_def enter_def split: if_splits)

lemma ksend_fails:
  assumes "ksend ch buf len (enter p s) = Ok (- 1) t" "p < length (ptable s)"
  shows "t = enter p s"
proof (cases "sint ch < 0 \<or> sint ch \<ge> int NUM_MAILBOXES \<or> sint len \<le> 0 \<or> sint len > int MAILBOX_MSGSIZE")
  case False
  let ?s = "s\<lparr>curproc := Some p, held := [LK_mailbox (unat ch)]\<rparr>"
  have "ksend_loop (unat ch) buf len ?s = Ok (- 1) t"
    using assms(1) False by (simp add: ksend_def enter_def)
  then show ?thesis
    using assms(2) mailbox_blocks(1)[of ?s p "unat ch" buf len] ksend_loop_free[of ?s "unat ch" buf len]
    by (cases "mb_full (mailboxes s ! unat ch)") auto
qed (use assms in \<open>auto simp: ksend_def split: if_splits\<close>)

lemma krecv_fails:
  assumes "krecv ch maxlen (enter p s) = Ok (- 1, got) t" "p < length (ptable s)"
    "\<forall>i<NUM_MAILBOXES. 0 \<le> sint (mb_msglen (mailboxes s ! i))"
  shows "t = enter p s"
proof (cases "sint ch < 0 \<or> sint ch \<ge> int NUM_MAILBOXES \<or> sint maxlen \<le> 0")
  case False
  let ?s = "s\<lparr>curproc := Some p, held := [LK_mailbox (unat ch)]\<rparr>"
  have i: "unat ch < NUM_MAILBOXES" using False unat_sint_bound[of ch NUM_MAILBOXES] by simp
  have "krecv_loop (unat ch) maxlen ?s = Ok (- 1, got) t"
    using assms(1) False by (simp add: krecv_def enter_def)
  then show ?thesis
    using assms(2) False mailbox_blocks(2)[of ?s p "unat ch" maxlen] krecv_loop_full[of ?s "unat ch" maxlen]
      assms(3)[rule_format, OF i]
    by (cases "mb_full (mailboxes s ! unat ch)") (auto simp: Let_def split: if_splits)
qed (use assms in \<open>auto simp: krecv_def split: if_splits\<close>)

lemma sys_fields [simp]:
  "ks (set_ks t p call y) = t" "doing (set_ks t p call y) = (doing y)(p := call)"
  "sent (set_ks t p call y) = sent y" "rcvd (set_ks t p call y) = rcvd y"
  "ks (log_sent i buf len y) = ks y" "doing (log_sent i buf len y) = doing y"
  "sent (log_sent i buf len y) = (sent y)(i := sent y i @ [take (unat len) buf])" "rcvd (log_sent i buf len y) = rcvd y"
  "ks (log_rcvd i n got y) = ks y" "doing (log_rcvd i n got y) = doing y" "sent (log_rcvd i n got y) = sent y"
  "rcvd (log_rcvd i n got y) = (rcvd y)(i := rcvd y i @ [(unat n, got)])"
  by (simp_all add: set_ks_def log_sent_def log_rcvd_def)

lemma fewer_upd:
  assumes "\<And>q. pstate (f q) \<noteq> SLEEPING \<or> (pstate (f q) = pstate q \<and> chan (f q) = chan q)"
  shows "fewer_sleepers (\<lambda>q j. True) (upd_at p f ps) ps"
  unfolding fewer_sleepers_def sleeps_on_def
proof (intro conjI allI impI)
  fix q j assume "q < length ps" "pstate (upd_at p f ps ! q) = SLEEPING \<and> chan (upd_at p f ps ! q) = Some (Ch_mailbox j)"
  then show "pstate (ps ! q) = SLEEPING" "chan (ps ! q) = Some (Ch_mailbox j)"
    using assms[of "ps ! q"] by (auto simp: nth_upd_at split: if_splits)
qed simp_all

text \<open>A process that runs, and one that is resumed.\<close>

lemma running_inv:
  assumes "sys_inv y" "is_proc p RUNNING y"
  shows "call_ok (MSend i buf len) \<Longrightarrow> ksend_loop i buf len ((ks y)\<lparr>curproc := Some p, held := [LK_mailbox i]\<rparr>) = Ok r t \<Longrightarrow>
      sys_inv (log_sent i buf len (set_ks t p MIdle y))"
    and "call_ok (MSend i buf len) \<Longrightarrow> ksend_loop i buf len ((ks y)\<lparr>curproc := Some p, held := [LK_mailbox i]\<rparr>) = Sleep c t \<Longrightarrow>
      sys_inv (set_ks t p (MSend i buf len) y)"
    and "call_ok (MRecv i maxlen) \<Longrightarrow> krecv_loop i maxlen ((ks y)\<lparr>curproc := Some p, held := [LK_mailbox i]\<rparr>) = Ok (n, got) t \<Longrightarrow>
      sys_inv (log_rcvd i maxlen got (set_ks t p MIdle y))"
    and "call_ok (MRecv i maxlen) \<Longrightarrow> krecv_loop i maxlen ((ks y)\<lparr>curproc := Some p, held := [LK_mailbox i]\<rparr>) = Sleep c t \<Longrightarrow>
      sys_inv (set_ks t p (MRecv i maxlen) y)"
proof -
  let ?s = "(ks y)\<lparr>curproc := Some p, held := [LK_mailbox i]\<rparr>"
  have p: "p < length (ptable (ks y))" "pstate (ptable (ks y) ! p) = RUNNING" using assms(2) by (simp_all add: is_proc_def)
  have i: "mb_inv (mailboxes ?s) (ptable (ks y)) (doing y) (sent y) (rcvd y)"
    "ptable ?s = upd_at p (\<lambda>q. q) (ptable (ks y))" "curproc ?s = Some p" "held ?s = [LK_mailbox i]"
    using assms(1) by simp_all
  note snd = ksend_loop_inv[OF i(1) _ p(1) i(2) p(2) i(3,4)] and rcv = krecv_loop_inv[OF i(1) _ p(1) i(2) p(2) i(3,4)]
  show "call_ok (MSend i buf len) \<Longrightarrow> ksend_loop i buf len ?s = Ok r t \<Longrightarrow> sys_inv (log_sent i buf len (set_ks t p MIdle y))"
    and "call_ok (MSend i buf len) \<Longrightarrow> ksend_loop i buf len ?s = Sleep c t \<Longrightarrow> sys_inv (set_ks t p (MSend i buf len) y)"
    and "call_ok (MRecv i maxlen) \<Longrightarrow> krecv_loop i maxlen ?s = Ok (n, got) t \<Longrightarrow>
      sys_inv (log_rcvd i maxlen got (set_ks t p MIdle y))"
    and "call_ok (MRecv i maxlen) \<Longrightarrow> krecv_loop i maxlen ?s = Sleep c t \<Longrightarrow> sys_inv (set_ks t p (MRecv i maxlen) y)"
    unfolding sys_fields by (fact snd rcv)+
qed

lemma resumed_inv:
  assumes "sys_inv y" "is_proc p RUNNABLE y"
  shows "doing y p = MSend i buf len \<Longrightarrow>
      kbind (sleep_resume (LK_mailbox i)) (\<lambda>_. ksend_loop i buf len) (dispatch p (ks y)) = Ok r t \<Longrightarrow>
      sys_inv (log_sent i buf len (set_ks t p MIdle y))"
    and "doing y p = MSend i buf len \<Longrightarrow>
      kbind (sleep_resume (LK_mailbox i)) (\<lambda>_. ksend_loop i buf len) (dispatch p (ks y)) = Sleep c t \<Longrightarrow>
      sys_inv (set_ks t p (MSend i buf len) y)"
    and "doing y p = MRecv i maxlen \<Longrightarrow>
      kbind (sleep_resume (LK_mailbox i)) (\<lambda>_. krecv_loop i maxlen) (dispatch p (ks y)) = Ok (n, got) t \<Longrightarrow>
      sys_inv (log_rcvd i maxlen got (set_ks t p MIdle y))"
    and "doing y p = MRecv i maxlen \<Longrightarrow>
      kbind (sleep_resume (LK_mailbox i)) (\<lambda>_. krecv_loop i maxlen) (dispatch p (ks y)) = Sleep c t \<Longrightarrow>
      sys_inv (set_ks t p (MRecv i maxlen) y)"
proof -
  let ?f = "\<lambda>q. q\<lparr>pstate := RUNNING, chan := None\<rparr>"
  let ?s = "(ks y)\<lparr>curproc := Some p, held := [LK_mailbox i], ptable := upd_at p ?f (ptable (ks y))\<rparr>"
  have p: "p < length (ptable (ks y))" "pstate (?f (ptable (ks y) ! p)) = RUNNING"
    using assms(2) by (simp_all add: is_proc_def)
  have i: "mb_inv (mailboxes ?s) (ptable (ks y)) (doing y) (sent y) (rcvd y)"
    "ptable ?s = upd_at p ?f (ptable (ks y))" "curproc ?s = Some p" "held ?s = [LK_mailbox i]"
    using assms(1) by simp_all
  have c: "call_ok (doing y p)" by (rule mb_invD(5)[OF assms(1)])
  note snd = ksend_loop_inv[OF i(1) _ p(1) i(2) p(2) i(3,4)] and rcv = krecv_loop_inv[OF i(1) _ p(1) i(2) p(2) i(3,4)]
  show "doing y p = MSend i buf len \<Longrightarrow> kbind (sleep_resume (LK_mailbox i)) (\<lambda>_. ksend_loop i buf len) (dispatch p (ks y)) = Ok r t \<Longrightarrow>
      sys_inv (log_sent i buf len (set_ks t p MIdle y))"
    and "doing y p = MSend i buf len \<Longrightarrow> kbind (sleep_resume (LK_mailbox i)) (\<lambda>_. ksend_loop i buf len) (dispatch p (ks y)) = Sleep c t \<Longrightarrow>
      sys_inv (set_ks t p (MSend i buf len) y)"
    and "doing y p = MRecv i maxlen \<Longrightarrow> kbind (sleep_resume (LK_mailbox i)) (\<lambda>_. krecv_loop i maxlen) (dispatch p (ks y)) = Ok (n, got) t \<Longrightarrow>
      sys_inv (log_rcvd i maxlen got (set_ks t p MIdle y))"
    and "doing y p = MRecv i maxlen \<Longrightarrow> kbind (sleep_resume (LK_mailbox i)) (\<lambda>_. krecv_loop i maxlen) (dispatch p (ks y)) = Sleep c t \<Longrightarrow>
      sys_inv (set_ks t p (MRecv i maxlen) y)"
    unfolding sys_fields resume_run using c snd rcv by metis+
qed

lemma sys_inv_ks: "sys_inv y \<Longrightarrow> mailboxes t = mailboxes (ks y) \<Longrightarrow>
    fewer_sleepers (\<lambda>q j. True) (ptable t) (ptable (ks y)) \<Longrightarrow> sys_inv (y\<lparr>ks := t\<rparr>)"
  using mb_inv_fewer by simp

lemma sys_inv_idle: "sys_inv y \<Longrightarrow> doing y p = MIdle \<Longrightarrow> sys_inv (set_ks (enter p (ks y)) p MIdle y)"
proof -
  assume "doing y p = MIdle"
  then have "(doing y)(p := MIdle) = doing y" by auto
  then show "sys_inv y \<Longrightarrow> sys_inv (set_ks (enter p (ks y)) p MIdle y)" by (simp add: enter_def)
qed

lemma kill_fewer:
  assumes "kill n s = Ok r t" "held s = []"
  shows "mailboxes t = mailboxes s" "fewer_sleepers (\<lambda>q j. True) (ptable t) (ptable s)"
proof -
  have "fewer_sleepers (\<lambda>q j. True) (ptable s) (ptable s)" by (simp add: fewer_sleepers_def)
  then show "mailboxes t = mailboxes s" "fewer_sleepers (\<lambda>q j. True) (ptable t) (ptable s)"
    using assms by (auto simp: kill_run split: option.splits if_splits intro!: fewer_upd)
qed

lemma mb_step_inv: "mb_step y z \<Longrightarrow> sys_inv y \<Longrightarrow> sys_inv z"
proof (induction rule: mb_step.induct)
  case (send_fails p y ch buf len t)
  then have "t = enter p (ks y)" by (intro ksend_fails) (auto simp: is_proc_def)
  then show ?case using sys_inv_idle[OF send_fails(4,2)] by (simp only:)
next
  case (send_now p y len buf ch t)
  then show ?case
    using running_inv(1)[OF send_now(5,1), of "unat ch" buf len 0 t] ksend_valid[OF disjI1, OF send_now(4)]
    by (simp add: call_ok_def del: sys_fields)
next
  case (send_block p y len buf ch c t)
  then show ?case
    using running_inv(2)[OF send_block(5,1), of "unat ch" buf len c t] ksend_valid[OF disjI2, OF send_block(4)]
    by (simp add: call_ok_def del: sys_fields)
next
  case (recv_fails p y ch maxlen got t)
  then have "t = enter p (ks y)"
    by (intro krecv_fails) (auto simp: is_proc_def intro: mb_invD(4)[OF recv_fails(4)])
  then show ?case using sys_inv_idle[OF recv_fails(4,2)] by (simp only:)
next
  case (recv_now p y ch maxlen n got t)
  then show ?case
    using running_inv(3)[OF recv_now(5,1), of "unat ch" maxlen n got t] krecv_valid[OF disjI1, OF conjI, OF recv_now(3,4)]
    by (simp add: call_ok_def del: sys_fields)
next
  case (recv_block p y ch maxlen c t)
  then show ?case
    using running_inv(4)[OF recv_block(4,1), of "unat ch" maxlen c t] krecv_valid[OF disjI2, OF recv_block(3)]
    by (simp add: call_ok_def del: sys_fields)
next
  case (killed p y n r t)
  then have "mailboxes t = mailboxes (ks y)" "fewer_sleepers (\<lambda>q j. True) (ptable t) (ptable (ks y))"
    using kill_fewer[of n "enter p (ks y)" r t] by (simp_all add: enter_def)
  then show ?case using sys_inv_ks[OF killed(3)] by blast
next
  case (preempted p y t)
  then have "mailboxes t = mailboxes (ks y)" "fewer_sleepers (\<lambda>q j. True) (ptable t) (ptable (ks y))"
    by (auto simp: yield_run[where p = p] enter_def is_proc_def intro!: fewer_upd)
  then show ?case using sys_inv_ks[OF preempted(3)] by blast
next
  case (scheduled p y t)
  then have "mailboxes t = mailboxes (ks y)" "fewer_sleepers (\<lambda>q j. True) (ptable t) (ptable (ks y))"
    by (auto simp: yield_resume_def dispatch_def intro!: fewer_upd)
  then show ?case using sys_inv_ks[OF scheduled(4)] by blast
qed (blast intro: resumed_inv)+

lemma mb_reach_inv: "mb_reach y \<Longrightarrow> sys_inv y"
proof (induction rule: mb_reach.induct)
  case (start y)
  then show ?case
    by (auto simp: mb_start_def mb_inv_def sleeps_on_def history_ok_def call_ok_def)
qed (rule mb_step_inv)

text \<open>A start state with two running processes.\<close>

definition demo_mb :: mb_sys where
  "demo_mb = \<lparr>ks = ptab.extend (demo_ptab\<lparr>ptable := replicate 2 (proc0\<lparr>pstate := RUNNING\<rparr>)\<rparr>)
       \<lparr>mailboxes = replicate NUM_MAILBOXES \<lparr>mb_msg = replicate 128 0, mb_msglen = 0, mb_full = False\<rparr>\<rparr>,
     doing = (\<lambda>_. MIdle), sent = (\<lambda>_. []), rcvd = (\<lambda>_. [])\<rparr>"

lemma demo_mb_procs: "p < 2 \<Longrightarrow> is_proc p RUNNING demo_mb"
  by (simp add: is_proc_def demo_mb_def ptab.defs)

lemma demo_mb_mailbox: "i < NUM_MAILBOXES \<Longrightarrow> \<not> mb_full (mailboxes (ks demo_mb) ! i) \<and> mb_msglen (mailboxes (ks demo_mb) ! i) = 0"
  by (simp add: demo_mb_def ptab.defs)

lemma demo_mb_idle: "doing demo_mb p = MIdle" "sent demo_mb i = []" "rcvd demo_mb i = []"
  by (simp_all add: demo_mb_def)

lemma demo_mb_held: "held (ks demo_mb) = []" "length (ptable (ks demo_mb)) = 2" "length (mailboxes (ks demo_mb)) = NUM_MAILBOXES"
  by (simp_all add: demo_mb_def ptab.defs demo_ptab_def)

lemma demo_mb_start: "mb_start demo_mb"
  using demo_mb_procs demo_mb_mailbox by (auto simp: mb_start_def demo_mb_idle demo_mb_held is_proc_def)

lemma demo_send: "\<exists>t. ksend 3 [7, 8] 2 (enter 0 (ks demo_mb)) = Ok 0 t"
proof -
  let ?s = "(ks demo_mb)\<lparr>curproc := Some 0, held := [LK_mailbox 3]\<rparr>"
  have "ksend 3 [7, 8] 2 (enter 0 (ks demo_mb)) = ksend_loop 3 [7, 8] 2 ?s"
    by (simp add: ksend_def enter_def NUM_MAILBOXES_def MAILBOX_MSGSIZE_def)
  moreover have "\<not> mb_full (mailboxes ?s ! 3)" using demo_mb_mailbox[of 3] by (simp add: NUM_MAILBOXES_def)
  ultimately show ?thesis by (simp add: ksend_loop_free)
qed

lemma demo_recv: "\<exists>t. krecv 5 16 (enter 1 (ks demo_mb)) = Sleep (Ch_mailbox 5) t \<and> 1 < length (ptable t) \<and>
    pstate (ptable t ! 1) = SLEEPING \<and> chan (ptable t ! 1) = Some (Ch_mailbox 5)"
proof -
  let ?s = "(ks demo_mb)\<lparr>curproc := Some 1, held := [LK_mailbox 5]\<rparr>"
  have "krecv 5 16 (enter 1 (ks demo_mb)) = krecv_loop 5 16 ?s"
    by (simp add: krecv_def enter_def NUM_MAILBOXES_def)
  moreover have "\<not> mb_full (mailboxes ?s ! 5)" using demo_mb_mailbox[of 5] by (simp add: NUM_MAILBOXES_def)
  ultimately show ?thesis using mailbox_blocks(2)[of ?s 1 5 16] demo_mb_held by simp
qed

text \<open>
  C2. Messages are delivered exactly once and in order: in every reachable state the messages sent
  to a mailbox are those received from it, in the same order, followed by the one it still holds;
  each receiver got its message cut at the room it offered.
\<close>

theorem mailbox_exactly_once:
  assumes "mb_reach y" "i < NUM_MAILBOXES"
  shows "\<exists>ms. sent y i = ms @ (if mb_full (mailboxes (ks y) ! i) then [mb_message (mailboxes (ks y) ! i)] else []) \<and>
    list_all2 (\<lambda>(n, got) m. got = take n m) (rcvd y i) ms"
  using mb_invD(3)[OF mb_reach_inv[OF assms(1)] assms(2)] by (auto simp: history_ok_def)

theorem mailbox_exactly_once_witness:
  "\<exists>y ms. mb_reach y \<and> sent y 3 = [[7, 8]] \<and>
    sent y 3 = ms @ (if mb_full (mailboxes (ks y) ! 3) then [mb_message (mailboxes (ks y) ! 3)] else []) \<and>
    list_all2 (\<lambda>(n, got) m. got = take n m) (rcvd y 3) ms"
proof -
  obtain t where "ksend 3 [7, 8] 2 (enter 0 (ks demo_mb)) = Ok 0 t" using demo_send by blast
  then have "mb_step demo_mb (log_sent 3 [7, 8] 2 (set_ks t 0 MIdle demo_mb))"
    using mb_step.send_now[of 0 demo_mb 2 "[7, 8]" 3 t] demo_mb_procs[of 0] demo_mb_idle(1)[of 0] by (simp del: sys_fields)
  then have r: "mb_reach (log_sent 3 [7, 8] 2 (set_ks t 0 MIdle demo_mb))" (is "mb_reach ?y")
    by (rule mb_reach.step[OF mb_reach.start[OF demo_mb_start]])
  have s: "sent ?y 3 = [[7, 8]]" by (simp add: demo_mb_idle)
  have "3 < NUM_MAILBOXES" by (simp add: NUM_MAILBOXES_def)
  from mailbox_exactly_once[OF r this] obtain ms where
    "sent ?y 3 = ms @ (if mb_full (mailboxes (ks ?y) ! 3) then [mb_message (mailboxes (ks ?y) ! 3)] else [])"
    "list_all2 (\<lambda>(n, got) m. got = take n m) (rcvd ?y 3) ms" by (elim exE conjE)
  with r s show ?thesis by (intro exI conjI)
qed

text \<open>
  C3. No wake-up is lost: a process asleep on a mailbox is a sender and the mailbox is full, or it is
  a receiver and the mailbox is empty. So no process ever sleeps on an operation that could go on.
\<close>

theorem mailbox_no_lost_wakeup:
  assumes "mb_reach y" "p < length (ptable (ks y))" "pstate (ptable (ks y) ! p) = SLEEPING"
    "chan (ptable (ks y) ! p) = Some (Ch_mailbox i)"
  shows "case doing y p of MIdle \<Rightarrow> False
    | MSend j buf len \<Rightarrow> j = i \<and> mb_full (mailboxes (ks y) ! i)
    | MRecv j maxlen \<Rightarrow> j = i \<and> \<not> mb_full (mailboxes (ks y) ! i)"
  using mb_invD(2)[OF mb_reach_inv[OF assms(1)] assms(2), of i] assms(3,4)
  by (simp add: sleeps_on_def blocked_ok_def)

theorem mailbox_no_lost_wakeup_witness:
  "\<exists>y. mb_reach y \<and> pstate (ptable (ks y) ! 1) = SLEEPING \<and> doing y 1 = MRecv 5 16 \<and> \<not> mb_full (mailboxes (ks y) ! 5)"
proof -
  obtain t where t: "krecv 5 16 (enter 1 (ks demo_mb)) = Sleep (Ch_mailbox 5) t"
    "1 < length (ptable t)" "pstate (ptable t ! 1) = SLEEPING" "chan (ptable t ! 1) = Some (Ch_mailbox 5)"
    using demo_recv by blast
  then have "mb_step demo_mb (set_ks t 1 (MRecv 5 16) demo_mb)"
    using mb_step.recv_block[of 1 demo_mb 5 16 _ t] demo_mb_procs[of 1] demo_mb_idle(1)[of 1] by (simp del: sys_fields)
  then have r: "mb_reach (set_ks t 1 (MRecv 5 16) demo_mb)" (is "mb_reach ?y")
    by (rule mb_reach.step[OF mb_reach.start[OF demo_mb_start]])
  from mailbox_no_lost_wakeup[OF r, of 1 5] t(2,3,4) have "\<not> mb_full (mailboxes (ks ?y) ! 5)" by simp
  then show ?thesis using r t(3) by (intro exI[of _ ?y]) simp
qed

text \<open>
  C19. A process killed while it waits in \<open>ksend\<close> does not leave: it is woken, finds the mailbox still
  full and sleeps again, whatever its \<open>killed\<close> flag. (Compare \<open>pipewrite\<close>, which tests the flag.)
\<close>

theorem killed_sender_sleeps_again:
  assumes "p < length (ptable s)" "mb_full (mailboxes s ! i)" "killed (ptable s ! p)"
  shows "\<exists>t. kbind (sleep_resume (LK_mailbox i)) (\<lambda>_. ksend_loop i buf len) (dispatch p s) = Sleep (Ch_mailbox i) t \<and>
    killed (ptable t ! p) \<and> pstate (ptable t ! p) = SLEEPING"
  unfolding resume_run using assms
  by (subst mailbox_blocks(1)[where p = p]) simp_all

theorem killed_sender_sleeps_again_witness:
  "\<exists>s t. kbind (sleep_resume (LK_mailbox 0)) (\<lambda>_. ksend_loop 0 [1] 1) (dispatch 0 s) = Sleep (Ch_mailbox 0) t \<and>
    killed (ptable t ! 0) \<and> pstate (ptable t ! 0) = SLEEPING"
proof -
  let ?s = "(ks demo_mb)\<lparr>ptable := [proc0\<lparr>killed := True, pstate := RUNNABLE\<rparr>],
    mailboxes := [\<lparr>mb_msg = [1], mb_msglen = 1, mb_full = True\<rparr>]\<rparr>"
  have "0 < length (ptable ?s)" "mb_full (mailboxes ?s ! 0)" "killed (ptable ?s ! 0)" by simp_all
  from killed_sender_sleeps_again[OF this] show ?thesis by blast
qed

end
