(* ===== verification/Sleeplock.thy ===== *)
theory Sleeplock
  imports Mailbox
begin

text \<open>
  Sleep locks, \<^verbatim>\<open>src/sleeplock.c\<close>: the long-term locks of buffers and inodes. The locks are kept in
  one table indexed by the object they belong to; the spin lock inside each is \<open>LK_sleep\<close>.
\<close>

record sleeplock =
  slk_locked :: bool
  slk_name :: string
  slk_pid :: i32

record slk = mbtab +
  slocks :: "slock \<Rightarrow> sleeplock"

definition upd_slk :: "slock \<Rightarrow> (sleeplock \<Rightarrow> sleeplock) \<Rightarrow> ('z slk_scheme, unit) kprog" where
  "upd_slk l f = kmodify (\<lambda>s. s\<lparr>slocks := (slocks s)(l := f (slocks s l))\<rparr>)"

definition initsleeplock :: "slock \<Rightarrow> string \<Rightarrow> ('z slk_scheme, unit) kprog" where
  "initsleeplock l nm = kseq [
     lk_init (LK_sleep l),
     upd_slk l (\<lambda>k. k\<lparr>slk_name := nm\<rparr>),
     upd_slk l (\<lambda>k. k\<lparr>slk_locked := False\<rparr>),
     upd_slk l (\<lambda>k. k\<lparr>slk_pid := 0\<rparr>)]"

text \<open>\<open>acquiresleep_loop\<close> starts at the \<^verbatim>\<open>while\<close>, where a woken process continues.\<close>

definition acquiresleep_loop :: "slock \<Rightarrow> ('z slk_scheme, unit) kprog" where
  "acquiresleep_loop l = kbind (kgets (\<lambda>s. slocks s l)) (\<lambda>k.
     if slk_locked k then sleep (Ch_sleeplock l) (LK_sleep l)
     else kbind (upd_slk l (\<lambda>k. k\<lparr>slk_locked := True\<rparr>)) (\<lambda>_.
       kbind (myproc_get pid) (\<lambda>pd.
       kbind (upd_slk l (\<lambda>k. k\<lparr>slk_pid := pd\<rparr>)) (\<lambda>_.
       lk_release (LK_sleep l)))))"

definition acquiresleep :: "slock \<Rightarrow> ('z slk_scheme, unit) kprog" where
  "acquiresleep l = kbind (lk_acquire (LK_sleep l)) (\<lambda>_. acquiresleep_loop l)"

definition releasesleep :: "slock \<Rightarrow> ('z slk_scheme, unit) kprog" where
  "releasesleep l = kseq [
     lk_acquire (LK_sleep l),
     upd_slk l (\<lambda>k. k\<lparr>slk_locked := False\<rparr>),
     upd_slk l (\<lambda>k. k\<lparr>slk_pid := 0\<rparr>),
     wakeup (Ch_sleeplock l),
     lk_release (LK_sleep l)]"

definition holdingsleep :: "slock \<Rightarrow> ('z slk_scheme, bool) kprog" where
  "holdingsleep l =
     kbind (lk_acquire (LK_sleep l)) (\<lambda>_.
     kbind (kgets (\<lambda>s. slocks s l)) (\<lambda>k.
     kbind (if slk_locked k then kbind (myproc_get pid) (\<lambda>pd. kreturn (slk_pid k = pd)) else kreturn False) (\<lambda>r.
     kbind (lk_release (LK_sleep l)) (\<lambda>_.
     kreturn r))))"

subsection \<open>What the operations do\<close>

text \<open>The locks an operation may take: none of the locks of the calling process is in the way.\<close>

definition free_locks :: "'z slk_scheme \<Rightarrow> bool" where
  "free_locks s \<longleftrightarrow> LK_ptable \<notin> set (held s) \<and> (\<forall>l. LK_sleep l \<notin> set (held s))"

lemma free_locks_held [simp]: "held s = [] \<Longrightarrow> free_locks s"
  by (simp add: free_locks_def)

lemma upd_slk_run [simp]: "upd_slk l f s = Ok () (s\<lparr>slocks := (slocks s)(l := f (slocks s l))\<rparr>)"
  by (simp add: upd_slk_def)

text \<open>The lock when it is free and when process \<open>p\<close> holds it.\<close>

definition locked_by :: "'z slk_scheme \<Rightarrow> slock \<Rightarrow> nat \<Rightarrow> bool" where
  "locked_by s l p \<longleftrightarrow> slk_locked (slocks s l) \<and> slk_pid (slocks s l) = pid (ptable s ! p)"

lemma acquiresleep_free:
  assumes "free_locks s" "\<not> slk_locked (slocks s l)" "curproc s = Some p"
  shows "acquiresleep l s = Ok () (s\<lparr>slocks := (slocks s)(l :=
    (slocks s l)\<lparr>slk_locked := True, slk_pid := pid (ptable s ! p)\<rparr>)\<rparr>)"
  using assms by (simp add: acquiresleep_def acquiresleep_loop_def myproc_get_def with_proc_def free_locks_def)

lemma acquiresleep_busy:
  assumes "held s = []" "slk_locked (slocks s l)" "curproc s = Some p" "p < length (ptable s)"
  shows "acquiresleep l s = Sleep (Ch_sleeplock l) (s\<lparr>held := [LK_ptable],
    ptable := upd_at p (\<lambda>q. q\<lparr>chan := Some (Ch_sleeplock l), pstate := SLEEPING\<rparr>) (ptable s)\<rparr>)"
  using assms by (simp add: acquiresleep_def acquiresleep_loop_def sleep_run[where p = p])

lemma releasesleep_run:
  assumes "free_locks s"
  shows "releasesleep l s = Ok () (s\<lparr>slocks := (slocks s)(l := (slocks s l)\<lparr>slk_locked := False, slk_pid := 0\<rparr>),
    ptable := map (wake (Ch_sleeplock l)) (ptable s)\<rparr>)"
  using assms by (simp add: releasesleep_def wakeup_run free_locks_def)

lemma holdingsleep_run:
  assumes "free_locks s" "curproc s = Some p"
  shows "holdingsleep l s = Ok (locked_by s l p) s"
  using assms by (simp add: holdingsleep_def myproc_get_def with_proc_def free_locks_def locked_by_def)

end
