(* ===== verification/Bytes.thy ===== *)
theory Bytes
  imports Prelude
begin

text \<open>
  Structures laid over byte arrays. The file system and the loader read and write C structs in
  disk blocks (\<^verbatim>\<open>(struct dinode*)bp->data\<close>); \<open>get16\<close>, \<open>get32\<close> and \<open>put16\<close>, \<open>put32\<close> are the accesses
  to a little-endian field at a byte offset. \<open>put_at\<close> overwrites a range of a byte array
  (\<^verbatim>\<open>memmove\<close> into it).
\<close>

definition put_at :: "nat \<Rightarrow> 'a list \<Rightarrow> 'a list \<Rightarrow> 'a list" where
  "put_at off bs xs = take off xs @ bs @ drop (off + length bs) xs"

definition sub_bytes :: "nat \<Rightarrow> nat \<Rightarrow> 'a list \<Rightarrow> 'a list" where
  "sub_bytes off n xs = take n (drop off xs)"

definition le16 :: "u16 \<Rightarrow> u8 list" where
  "le16 v = [ucast v, ucast (drop_bit 8 v)]"

definition le32 :: "u32 \<Rightarrow> u8 list" where
  "le32 v = [ucast v, ucast (drop_bit 8 v), ucast (drop_bit 16 v), ucast (drop_bit 24 v)]"

definition get16 :: "nat \<Rightarrow> u8 list \<Rightarrow> u16" where
  "get16 off xs = ucast (xs ! off) OR push_bit 8 (ucast (xs ! (off + 1)))"

definition get32 :: "nat \<Rightarrow> u8 list \<Rightarrow> u32" where
  "get32 off xs = ucast (xs ! off) OR push_bit 8 (ucast (xs ! (off + 1)))
     OR push_bit 16 (ucast (xs ! (off + 2))) OR push_bit 24 (ucast (xs ! (off + 3)))"

definition put16 :: "nat \<Rightarrow> u16 \<Rightarrow> u8 list \<Rightarrow> u8 list" where
  "put16 off v xs = put_at off (le16 v) xs"

definition put32 :: "nat \<Rightarrow> u32 \<Rightarrow> u8 list \<Rightarrow> u8 list" where
  "put32 off v xs = put_at off (le32 v) xs"

subsection \<open>Ranges\<close>

lemma length_put_at [simp]: "off + length bs \<le> length xs \<Longrightarrow> length (put_at off bs xs) = length xs"
  by (simp add: put_at_def)

lemma nth_put_at:
  assumes "off + length bs \<le> length xs" "i < length xs"
  shows "put_at off bs xs ! i = (if off \<le> i \<and> i < off + length bs then bs ! (i - off) else xs ! i)"
  using assms by (auto simp: put_at_def nth_append not_less min_absorb2)

lemma put_at_Nil [simp]: "put_at off [] xs = xs"
  by (simp add: put_at_def)

lemma length_sub_bytes [simp]: "off + n \<le> length xs \<Longrightarrow> length (sub_bytes off n xs) = n"
  by (simp add: sub_bytes_def)

lemma nth_sub_bytes: "off + n \<le> length xs \<Longrightarrow> i < n \<Longrightarrow> sub_bytes off n xs ! i = xs ! (off + i)"
  by (simp add: sub_bytes_def)

lemma sub_bytes_put_at_same: "off + length bs \<le> length xs \<Longrightarrow> n = length bs \<Longrightarrow> sub_bytes off n (put_at off bs xs) = bs"
  by (simp add: sub_bytes_def put_at_def)

lemma sub_bytes_put_at_other:
  assumes "off + length bs \<le> length xs" "off' + n \<le> length xs" "off + length bs \<le> off' \<or> off' + n \<le> off"
  shows "sub_bytes off' n (put_at off bs xs) = sub_bytes off' n xs"
  by (rule nth_equalityI) (use assms in \<open>auto simp: nth_sub_bytes nth_put_at\<close>)

lemma put_at_sub_bytes: "off + n \<le> length xs \<Longrightarrow> put_at off (sub_bytes off n xs) xs = xs"
  by (rule nth_equalityI) (auto simp: nth_put_at nth_sub_bytes)

lemma put_at_put_at: "off + length bs \<le> length xs \<Longrightarrow> length bs = length cs \<Longrightarrow>
    put_at off cs (put_at off bs xs) = put_at off cs xs"
  by (rule nth_equalityI) (auto simp: nth_put_at)

lemma put_at_append:
  assumes "off + length bs + length cs \<le> length xs"
  shows "put_at (off + length bs) cs (put_at off bs xs) = put_at off (bs @ cs) xs"
  by (rule nth_equalityI) (use assms in \<open>auto simp: nth_put_at nth_append\<close>)

subsection \<open>Fields\<close>

lemma length_le [simp]: "length (le16 v) = 2" "length (le32 w) = 4"
  by (simp_all add: le16_def le32_def)

lemma length_put16 [simp]: "off + 2 \<le> length xs \<Longrightarrow> length (put16 off v xs) = length xs"
  by (simp add: put16_def)

lemma length_put32 [simp]: "off + 4 \<le> length xs \<Longrightarrow> length (put32 off v xs) = length xs"
  by (simp add: put32_def)

lemma le32_join:
  "ucast (ucast v :: u8) OR push_bit 8 (ucast (ucast (drop_bit 8 v) :: u8)) OR
    push_bit 16 (ucast (ucast (drop_bit 16 v) :: u8)) OR push_bit 24 (ucast (ucast (drop_bit 24 v) :: u8)) = (v :: u32)"
proof (rule bit_word_eqI)
  fix n assume "n < LENGTH(32)"
  then consider "n < 8" | "8 \<le> n" "n < 16" | "16 \<le> n" "n < 24" | "24 \<le> n" "n < 32" by force
  then show "bit (ucast (ucast v :: u8) OR push_bit 8 (ucast (ucast (drop_bit 8 v) :: u8)) OR
    push_bit 16 (ucast (ucast (drop_bit 16 v) :: u8)) OR push_bit 24 (ucast (ucast (drop_bit 24 v) :: u8)) :: u32) n = bit v n"
    by cases (auto simp: bit_simps)
qed

lemma le16_join: "ucast (ucast v :: u8) OR push_bit 8 (ucast (ucast (drop_bit 8 v) :: u8)) = (v :: u16)"
proof (rule bit_word_eqI)
  fix n assume "n < LENGTH(16)"
  then consider "n < 8" | "8 \<le> n" "n < 16" by force
  then show "bit (ucast (ucast v :: u8) OR push_bit 8 (ucast (ucast (drop_bit 8 v) :: u8)) :: u16) n = bit v n"
    by cases (auto simp: bit_simps)
qed

lemma get32_put32_same [simp]: "off + 4 \<le> length xs \<Longrightarrow> get32 off (put32 off v xs) = v"
  using le32_join[of v] by (simp add: get32_def put32_def nth_put_at le32_def)

lemma get16_put16_same [simp]: "off + 2 \<le> length xs \<Longrightarrow> get16 off (put16 off v xs) = v"
  using le16_join[of v] by (simp add: get16_def put16_def nth_put_at le16_def)

lemma get32_put_at_other:
  "off + length bs \<le> length xs \<Longrightarrow> off' + 4 \<le> length xs \<Longrightarrow> off + length bs \<le> off' \<or> off' + 4 \<le> off \<Longrightarrow>
    get32 off' (put_at off bs xs) = get32 off' xs"
  by (auto simp: get32_def nth_put_at)

lemma get16_put_at_other:
  "off + length bs \<le> length xs \<Longrightarrow> off' + 2 \<le> length xs \<Longrightarrow> off + length bs \<le> off' \<or> off' + 2 \<le> off \<Longrightarrow>
    get16 off' (put_at off bs xs) = get16 off' xs"
  by (auto simp: get16_def nth_put_at)

lemma get_put_other [simp]:
  "off + 4 \<le> length xs \<Longrightarrow> off' + 4 \<le> length xs \<Longrightarrow> off + 4 \<le> off' \<or> off' + 4 \<le> off \<Longrightarrow>
    get32 off' (put32 off v xs) = get32 off' xs"
  "off + 2 \<le> length xs \<Longrightarrow> off' + 4 \<le> length xs \<Longrightarrow> off + 2 \<le> off' \<or> off' + 4 \<le> off \<Longrightarrow>
    get32 off' (put16 off w xs) = get32 off' xs"
  "off + 4 \<le> length xs \<Longrightarrow> off' + 2 \<le> length xs \<Longrightarrow> off + 4 \<le> off' \<or> off' + 2 \<le> off \<Longrightarrow>
    get16 off' (put32 off v xs) = get16 off' xs"
  "off + 2 \<le> length xs \<Longrightarrow> off' + 2 \<le> length xs \<Longrightarrow> off + 2 \<le> off' \<or> off' + 2 \<le> off \<Longrightarrow>
    get16 off' (put16 off w xs) = get16 off' xs"
  by (simp_all add: put32_def put16_def get32_put_at_other get16_put_at_other)

end
