(* ===== verification/Bio.thy ===== *)
theory Bio
  imports Sleeplock Bytes
begin

text \<open>
  The buffer cache, \<^verbatim>\<open>src/bio.c\<close>, over the memory disk of \<^verbatim>\<open>src/memide.c\<close> (the \<^verbatim>\<open>kernelmemfs\<close> build).
  The buffers form a circular doubly-linked list through \<open>b_prev\<close> and \<open>b_next\<close>; a pointer is a
  buffer's index and the list head is index \<open>NBUF\<close>. \<open>dll\<close> relates the pointers to the list of
  buffers in order of last use.

  \<open>dtrace\<close> is not part of the program: it records the writes that have reached the disk, in order,
  so that a crash can be taken between any two of them.
\<close>

subsection \<open>State\<close>

definition BSIZE :: nat where "BSIZE = 512"
definition B_VALID :: u32 where "B_VALID = 2"
definition B_DIRTY :: u32 where "B_DIRTY = 4"

record buf =
  b_flags :: u32
  b_dev :: u32
  b_blockno :: u32
  b_refcnt :: u32
  b_prev :: nat
  b_next :: nat
  b_data :: "u8 list"

record bio = slk +
  bufs :: "buf list"
  disk :: "u32 \<Rightarrow> u8 list"
  disksize :: u32
  dtrace :: "(u32 \<times> u8 list) list"

definition upd_buf :: "nat \<Rightarrow> (buf \<Rightarrow> buf) \<Rightarrow> ('z bio_scheme, unit) kprog" where
  "upd_buf i f = kmodify (\<lambda>s. s\<lparr>bufs := upd_at i f (bufs s)\<rparr>)"

definition get_buf :: "nat \<Rightarrow> ('z bio_scheme, buf) kprog" where
  "get_buf i = kgets (\<lambda>s. bufs s ! i)"

subsection \<open>The memory disk\<close>

definition iderw :: "nat \<Rightarrow> ('z bio_scheme, unit) kprog" where
  "iderw i =
     kbind (holdingsleep (SL_buf i)) (\<lambda>h.
     if \<not> h then kpanic ''iderw: buf not locked''
     else kbind (get_buf i) (\<lambda>b.
       if b_flags b AND (B_VALID OR B_DIRTY) = B_VALID then kpanic ''iderw: nothing to do''
       else if b_dev b \<noteq> 1 then kpanic ''iderw: request not for disk 1''
       else kbind (kgets disksize) (\<lambda>ds.
         if b_blockno b \<ge> ds then kpanic ''iderw: block out of range''
         else kbind (if b_flags b AND B_DIRTY \<noteq> 0
               then kseq [
                 upd_buf i (\<lambda>b. b\<lparr>b_flags := b_flags b AND NOT B_DIRTY\<rparr>),
                 kmodify (\<lambda>s. s\<lparr>disk := (disk s)(b_blockno b := b_data b),
                   dtrace := dtrace s @ [(b_blockno b, b_data b)]\<rparr>)]
               else kbind (kgets (\<lambda>s. disk s (b_blockno b))) (\<lambda>d. upd_buf i (\<lambda>b. b\<lparr>b_data := d\<rparr>))) (\<lambda>_.
           upd_buf i (\<lambda>b. b\<lparr>b_flags := b_flags b OR B_VALID\<rparr>)))))"

subsection \<open>The cache\<close>

definition binit :: "('z bio_scheme, unit) kprog" where
  "binit = kseq [
     lk_init LK_bcache,
     upd_buf NBUF (\<lambda>h. h\<lparr>b_prev := NBUF\<rparr>),
     upd_buf NBUF (\<lambda>h. h\<lparr>b_next := NBUF\<rparr>),
     kfor [0..<NBUF] (\<lambda>b.
       kbind (get_buf NBUF) (\<lambda>h. kseq [
         upd_buf b (\<lambda>x. x\<lparr>b_next := b_next h\<rparr>),
         upd_buf b (\<lambda>x. x\<lparr>b_prev := NBUF\<rparr>),
         initsleeplock (SL_buf b) ''buffer'',
         upd_buf (b_next h) (\<lambda>x. x\<lparr>b_prev := b\<rparr>),
         upd_buf NBUF (\<lambda>x. x\<lparr>b_next := b\<rparr>)]))]"

text \<open>
  A walk along the list from \<open>b\<close> that stops at the first buffer satisfying \<open>P\<close> (\<open>Some (Some i)\<close>) or at
  the head (\<open>Some None\<close>); \<open>None\<close> when \<open>NBUF + 1\<close> steps do not reach the head.
\<close>

fun bscan :: "nat \<Rightarrow> (buf \<Rightarrow> nat) \<Rightarrow> (buf \<Rightarrow> bool) \<Rightarrow> buf list \<Rightarrow> nat \<Rightarrow> nat option option" where
  "bscan 0 dir P bs b = None"
| "bscan (Suc fuel) dir P bs b =
     (if b = NBUF then Some None
      else if P (bs ! b) then Some (Some b)
      else bscan fuel dir P bs (dir (bs ! b)))"

definition bget :: "u32 \<Rightarrow> u32 \<Rightarrow> ('z bio_scheme, nat) kprog" where
  "bget dv bn =
     kbind (lk_acquire LK_bcache) (\<lambda>_.
     kbind (kgets bufs) (\<lambda>bs.
     case bscan (Suc NBUF) b_next (\<lambda>b. b_dev b = dv \<and> b_blockno b = bn) bs (b_next (bs ! NBUF)) of
       None \<Rightarrow> kdiverge
     | Some (Some b) \<Rightarrow>
         kbind (upd_buf b (\<lambda>x. x\<lparr>b_refcnt := b_refcnt x + 1\<rparr>)) (\<lambda>_.
         kbind (lk_release LK_bcache) (\<lambda>_.
         kbind (acquiresleep (SL_buf b)) (\<lambda>_.
         kreturn b)))
     | Some None \<Rightarrow>
         (case bscan (Suc NBUF) b_prev (\<lambda>b. b_refcnt b = 0 \<and> b_flags b AND B_DIRTY = 0) bs (b_prev (bs ! NBUF)) of
            None \<Rightarrow> kdiverge
          | Some None \<Rightarrow> kpanic ''bget: no buffers''
          | Some (Some b) \<Rightarrow>
              kbind (upd_buf b (\<lambda>x. x\<lparr>b_dev := dv, b_blockno := bn, b_flags := 0, b_refcnt := 1\<rparr>)) (\<lambda>_.
              kbind (lk_release LK_bcache) (\<lambda>_.
              kbind (acquiresleep (SL_buf b)) (\<lambda>_.
              kreturn b))))))"

definition bread :: "u32 \<Rightarrow> u32 \<Rightarrow> ('z bio_scheme, nat) kprog" where
  "bread dv bn =
     kbind (bget dv bn) (\<lambda>b.
     kbind (get_buf b) (\<lambda>x.
     kbind (kwhen (b_flags x AND B_VALID = 0) (iderw b)) (\<lambda>_.
     kreturn b)))"

definition bwrite :: "nat \<Rightarrow> ('z bio_scheme, unit) kprog" where
  "bwrite b =
     kbind (holdingsleep (SL_buf b)) (\<lambda>h.
     if \<not> h then kpanic ''bwrite''
     else kbind (upd_buf b (\<lambda>x. x\<lparr>b_flags := b_flags x OR B_DIRTY\<rparr>)) (\<lambda>_.
       iderw b))"

definition brelse :: "nat \<Rightarrow> ('z bio_scheme, unit) kprog" where
  "brelse b =
     kbind (holdingsleep (SL_buf b)) (\<lambda>h.
     if \<not> h then kpanic ''brelse''
     else kseq [
       releasesleep (SL_buf b),
       lk_acquire LK_bcache,
       upd_buf b (\<lambda>x. x\<lparr>b_refcnt := b_refcnt x - 1\<rparr>),
       kbind (get_buf b) (\<lambda>x.
         kwhen (b_refcnt x = 0) (kseq [
           upd_buf (b_next x) (\<lambda>y. y\<lparr>b_prev := b_prev x\<rparr>),
           upd_buf (b_prev x) (\<lambda>y. y\<lparr>b_next := b_next x\<rparr>),
           kbind (get_buf NBUF) (\<lambda>h. kseq [
             upd_buf b (\<lambda>y. y\<lparr>b_next := b_next h\<rparr>),
             upd_buf b (\<lambda>y. y\<lparr>b_prev := NBUF\<rparr>),
             upd_buf (b_next h) (\<lambda>y. y\<lparr>b_prev := b\<rparr>),
             upd_buf NBUF (\<lambda>y. y\<lparr>b_next := b\<rparr>)])])),
       lk_release LK_bcache])"

subsection \<open>The list of buffers\<close>

text \<open>\<open>seg bs a xs z\<close>: the links lead from \<open>a\<close> through \<open>xs\<close> to \<open>z\<close>, in both directions.\<close>

fun seg :: "buf list \<Rightarrow> nat \<Rightarrow> nat list \<Rightarrow> nat \<Rightarrow> bool" where
  "seg bs a [] z \<longleftrightarrow> b_next (bs ! a) = z \<and> b_prev (bs ! z) = a"
| "seg bs a (x # xs) z \<longleftrightarrow> b_next (bs ! a) = x \<and> b_prev (bs ! x) = a \<and> seg bs x xs z"

definition dll :: "buf list \<Rightarrow> nat list \<Rightarrow> bool" where
  "dll bs xs \<longleftrightarrow> length bs = Suc NBUF \<and> distinct xs \<and> set xs = {0..<NBUF} \<and> seg bs NBUF xs NBUF"

lemma dllD:
  assumes "dll bs xs"
  shows "length bs = Suc NBUF" "distinct xs" "x \<in> set xs \<longleftrightarrow> x < NBUF" "seg bs NBUF xs NBUF" "length xs = NBUF"
proof -
  show "length bs = Suc NBUF" "distinct xs" "x \<in> set xs \<longleftrightarrow> x < NBUF" "seg bs NBUF xs NBUF"
    using assms by (auto simp: dll_def)
  have "card (set xs) = length xs" using assms unfolding dll_def by (intro distinct_card) simp
  then show "length xs = NBUF" using assms by (simp add: dll_def)
qed

lemma seg_append: "seg bs a (xs @ y # ys) z \<longleftrightarrow> seg bs a xs y \<and> seg bs y ys z"
  by (induction xs arbitrary: a) auto

lemma seg_cong:
  assumes "\<forall>y\<in>set (a # xs). b_next (bs' ! y) = b_next (bs ! y)" "\<forall>y\<in>set (xs @ [z]). b_prev (bs' ! y) = b_prev (bs ! y)"
  shows "seg bs' a xs z \<longleftrightarrow> seg bs a xs z"
  using assms by (induction xs arbitrary: a) auto

lemma seg_first: "seg bs a xs z \<Longrightarrow> b_next (bs ! a) = hd (xs @ [z])"
  by (cases xs) auto

lemma seg_last: "seg bs a xs z \<Longrightarrow> b_prev (bs ! z) = last (a # xs)"
  by (induction xs arbitrary: a) auto

text \<open>The two walks of \<open>bget\<close> visit the list forwards and backwards.\<close>

lemma bscan_next:
  "seg bs a xs NBUF \<Longrightarrow> NBUF \<notin> set xs \<Longrightarrow> length xs < fuel \<Longrightarrow>
    bscan fuel b_next P bs (b_next (bs ! a)) = Some (find (\<lambda>i. P (bs ! i)) xs)"
proof (induction xs arbitrary: a fuel)
  case Nil
  then show ?case by (cases fuel) auto
next
  case (Cons x xs)
  then obtain f where "fuel = Suc f" by (cases fuel) auto
  then show ?case using Cons by auto
qed

lemma bscan_prev:
  "seg bs NBUF xs z \<Longrightarrow> NBUF \<notin> set xs \<Longrightarrow> length xs < fuel \<Longrightarrow>
    bscan fuel b_prev P bs (b_prev (bs ! z)) = Some (find (\<lambda>i. P (bs ! i)) (rev xs))"
proof (induction xs arbitrary: z fuel rule: rev_induct)
  case Nil
  then show ?case by (cases fuel) auto
next
  case (snoc x xs)
  then obtain f where "fuel = Suc f" by (cases fuel) auto
  then show ?case using snoc by (auto simp: seg_append)
qed

lemma bscan_dll:
  assumes "dll bs xs"
  shows "bscan (Suc NBUF) b_next P bs (b_next (bs ! NBUF)) = Some (find (\<lambda>i. P (bs ! i)) xs)"
    and "bscan (Suc NBUF) b_prev P bs (b_prev (bs ! NBUF)) = Some (find (\<lambda>i. P (bs ! i)) (rev xs))"
  using dllD(3,5)[OF assms] bscan_next[OF dllD(4)[OF assms], of "Suc NBUF" P] bscan_prev[OF dllD(4)[OF assms], of "Suc NBUF" P]
  by (simp_all del: bscan.simps)

declare bscan.simps [simp del]

lemma find_split: "find P xs = Some x \<Longrightarrow> \<exists>us vs. xs = us @ x # vs \<and> (\<forall>y\<in>set us. \<not> P y)"
proof (induction xs)
  case (Cons a xs)
  then show ?case by (cases "P a") (auto intro: exI[of _ "[]"], metis (no_types, lifting) append_Cons set_ConsD)
qed simp

lemma find_SomeD: "find P xs = Some x \<Longrightarrow> x \<in> set xs \<and> P x"
  by (auto simp: find_Some_iff)

text \<open>Taking a buffer out of the list and putting it at the front, as \<open>brelse\<close> does.\<close>

definition unlink :: "nat \<Rightarrow> buf list \<Rightarrow> buf list" where
  "unlink b bs = upd_at (b_prev (bs ! b)) (\<lambda>y. y\<lparr>b_next := b_next (bs ! b)\<rparr>)
     (upd_at (b_next (bs ! b)) (\<lambda>y. y\<lparr>b_prev := b_prev (bs ! b)\<rparr>) bs)"

definition push_front :: "nat \<Rightarrow> buf list \<Rightarrow> buf list" where
  "push_front b bs = (let f = b_next (bs ! NBUF)
     in upd_at NBUF (\<lambda>y. y\<lparr>b_next := b\<rparr>) (upd_at f (\<lambda>y. y\<lparr>b_prev := b\<rparr>)
        (upd_at b (\<lambda>y. y\<lparr>b_prev := NBUF\<rparr>) (upd_at b (\<lambda>y. y\<lparr>b_next := f\<rparr>) bs))))"

lemma seg_replace_end:
  assumes "seg bs a us b" "distinct (a # us)" "n \<notin> set us" "set (a # n # us) \<subseteq> {..<length bs}"
    "bs' = upd_at (b_prev (bs ! b)) (\<lambda>y. y\<lparr>b_next := n\<rparr>) (upd_at n (\<lambda>y. y\<lparr>b_prev := b_prev (bs ! b)\<rparr>) bs)"
  shows "seg bs' a us n"
  using assms
proof (induction us arbitrary: a)
  case Nil
  then show ?case by (auto simp: nth_upd_at)
next
  case (Cons x us)
  have "b_prev (bs ! b) = last (x # us)" using Cons.prems(1) by (auto dest: seg_last)
  then have "b_prev (bs ! b) \<in> set (x # us)" by (metis last_in_set list.discI)
  then have "b_prev (bs ! b) \<noteq> a" "b_prev (bs ! b) < length bs" using Cons.prems(2,4) by auto
  then show ?case using Cons by (auto simp: nth_upd_at)
qed

lemma seg_unlink:
  assumes "seg bs NBUF (us @ b # vs) NBUF" "distinct (NBUF # us @ b # vs)" "set (us @ b # vs) \<subseteq> {..<NBUF}"
    "length bs = Suc NBUF"
  shows "seg (unlink b bs) NBUF (us @ vs) NBUF"
proof -
  have s: "seg bs NBUF us b" "seg bs b vs NBUF" using assms(1) by (simp_all add: seg_append)
  let ?n = "b_next (bs ! b)" and ?p = "b_prev (bs ! b)"
  have n: "?n = hd (vs @ [NBUF])" using s(2) by (rule seg_first)
  have p: "?p = last (NBUF # us)" using s(1) by (rule seg_last)
  then have pin: "?p \<in> set (NBUF # us)" by (metis last_in_set list.discI)
  have "?n \<notin> set us" "?n < Suc NBUF" using n assms(2,3) by (cases vs; auto)+
  then have u: "seg (unlink b bs) NBUF us ?n"
    using assms by (intro seg_replace_end[OF s(1)]) (auto simp: unlink_def)
  show ?thesis
  proof (cases vs)
    case Nil
    then show ?thesis using u n by simp
  next
    case (Cons v vs')
    have nn: "?n \<notin> set (vs' @ [NBUF])" "?p \<notin> set (v # vs')" using n pin Cons assms(2,3) by auto
    have "seg (unlink b bs) v vs' NBUF \<longleftrightarrow> seg bs v vs' NBUF"
    proof (rule seg_cong; rule ballI)
      fix y assume "y \<in> set (v # vs')"
      with nn(2) have "?p \<noteq> y" by metis
      then show "b_next (unlink b bs ! y) = b_next (bs ! y)" by (simp add: unlink_def nth_upd_at_field)
    next
      fix y assume "y \<in> set (vs' @ [NBUF])"
      with nn(1) have "?n \<noteq> y" by metis
      then show "b_prev (unlink b bs ! y) = b_prev (bs ! y)" by (simp add: unlink_def nth_upd_at_field)
    qed
    then show ?thesis using u n s(2) Cons by (simp add: seg_append)
  qed
qed

lemma seg_push_front:
  assumes "seg bs NBUF ys NBUF" "distinct (NBUF # b # ys)" "set (b # ys) \<subseteq> {..<NBUF}" "length bs = Suc NBUF"
  shows "seg (push_front b bs) NBUF (b # ys) NBUF"
proof (cases ys)
  case Nil
  then show ?thesis using assms by (auto simp: push_front_def nth_upd_at)
next
  case (Cons f ys')
  have f: "b_next (bs ! NBUF) = f" using assms(1) Cons by simp
  have "seg (push_front b bs) f ys' NBUF \<longleftrightarrow> seg bs f ys' NBUF"
    using f Cons assms(2,3,4) by (intro seg_cong) (auto simp: push_front_def nth_upd_at)
  then show ?thesis using f Cons assms by (auto simp: push_front_def nth_upd_at)
qed

lemma length_unlink [simp]: "length (unlink b bs) = length bs" "length (push_front b bs) = length bs"
  by (simp_all add: unlink_def push_front_def Let_def)

text \<open>Links apart, the moves leave the buffers as they are.\<close>

definition same_content :: "buf \<Rightarrow> buf \<Rightarrow> bool" where
  "same_content x y \<longleftrightarrow> b_flags x = b_flags y \<and> b_dev x = b_dev y \<and> b_blockno x = b_blockno y \<and>
     b_refcnt x = b_refcnt y \<and> b_data x = b_data y"

lemma same_content_moves: "same_content (push_front b (unlink b bs) ! i) (bs ! i)"
  by (simp add: same_content_def push_front_def unlink_def Let_def nth_upd_at_field)

lemma dll_move_front:
  assumes "dll bs xs" "b < NBUF"
  shows "dll (push_front b (unlink b bs)) (b # remove1 b xs)"
proof -
  note d = dllD[OF assms(1)]
  obtain us vs where xs: "xs = us @ b # vs" using d(3) assms(2) by (metis split_list)
  have dist: "distinct (NBUF # us @ b # vs)" "set (us @ b # vs) \<subseteq> {..<NBUF}" using d(2,3) xs by auto
  have r: "remove1 b xs = us @ vs" using d(2) xs by (simp add: remove1_append)
  have "seg (unlink b bs) NBUF (us @ vs) NBUF" using d(4) xs dist d(1) by (intro seg_unlink) simp_all
  then have "seg (push_front b (unlink b bs)) NBUF (b # us @ vs) NBUF"
    using dist d(1) by (intro seg_push_front) auto
  moreover have "set (b # us @ vs) = {0..<NBUF}" using assms(1) xs by (auto simp: dll_def)
  ultimately show ?thesis using d(1) dist(1) r by (simp add: dll_def)
qed

subsection \<open>What the cache holds\<close>

abbreviation valid :: "buf \<Rightarrow> bool" where "valid x \<equiv> b_flags x AND B_VALID \<noteq> 0"
abbreviation dirty :: "buf \<Rightarrow> bool" where "dirty x \<equiv> b_flags x AND B_DIRTY \<noteq> 0"

text \<open>Buffer \<open>i\<close> is the cached copy of block \<open>b\<close>.\<close>

definition caches :: "buf list \<Rightarrow> nat \<Rightarrow> u32 \<Rightarrow> bool" where
  "caches bs i b \<longleftrightarrow> i < NBUF \<and> b_dev (bs ! i) = 1 \<and> b_blockno (bs ! i) = b"

text \<open>The contents of a block as the kernel sees it: the cached copy, or the disk.\<close>

definition bview :: "'z bio_scheme \<Rightarrow> u32 \<Rightarrow> u8 list" where
  "bview s b = (case find_index (\<lambda>i. caches (bufs s) i b \<and> valid (bufs s ! i)) [0..<NBUF] of
     Some i \<Rightarrow> b_data (bufs s ! i) | None \<Rightarrow> disk s b)"

definition bdirty :: "'z bio_scheme \<Rightarrow> u32 set" where
  "bdirty s = {b. \<exists>i. caches (bufs s) i b \<and> dirty (bufs s ! i)}"

abbreviation blk :: "'z slk_scheme \<Rightarrow> nat \<Rightarrow> bool" where
  "blk s i \<equiv> slk_locked (slocks s (SL_buf i))"

definition blocked :: "'z bio_scheme \<Rightarrow> u32 set" where
  "blocked s = {b. \<exists>i. caches (bufs s) i b \<and> blk s i}"

text \<open>
  The invariant of the cache when process \<open>p\<close> is the only one that holds buffers: no block is cached
  twice; a clean buffer that nobody holds agrees with the disk; the reference count of a buffer
  is 1 while it is held, and a buffer that has been given a block is valid.
\<close>

definition buf_ok :: "'z bio_scheme \<Rightarrow> nat \<Rightarrow> nat \<Rightarrow> bool" where
  "buf_ok s p i \<longleftrightarrow>
     length (b_data (bufs s ! i)) = BSIZE \<and>
     b_refcnt (bufs s ! i) = (if blk s i then 1 else 0) \<and>
     (blk s i \<longrightarrow> locked_by s (SL_buf i) p \<and> b_dev (bufs s ! i) = 1) \<and>
     (dirty (bufs s ! i) \<longrightarrow> b_dev (bufs s ! i) = 1) \<and>
     (b_dev (bufs s ! i) = 1 \<longrightarrow> valid (bufs s ! i) \<and> b_blockno (bufs s ! i) < disksize s) \<and>
     (b_dev (bufs s ! i) = 1 \<and> \<not> dirty (bufs s ! i) \<and> \<not> blk s i \<longrightarrow>
        b_data (bufs s ! i) = disk s (b_blockno (bufs s ! i)))"

definition bio_inv :: "nat \<Rightarrow> 'z bio_scheme \<Rightarrow> bool" where
  "bio_inv p s \<longleftrightarrow> (\<exists>xs. dll (bufs s) xs) \<and> (\<forall>i<NBUF. buf_ok s p i) \<and>
     (\<forall>i j b. caches (bufs s) i b \<and> caches (bufs s) j b \<longrightarrow> i = j) \<and>
     (\<forall>b. length (disk s b) = BSIZE) \<and> held s = [] \<and> curproc s = Some p \<and> p < length (ptable s)"

lemma bio_invD:
  assumes "bio_inv p s"
  shows "\<exists>xs. dll (bufs s) xs" "i < NBUF \<Longrightarrow> buf_ok s p i"
    "caches (bufs s) i b \<Longrightarrow> caches (bufs s) j b \<Longrightarrow> i = j"
    "length (disk s b) = BSIZE" "held s = []" "curproc s = Some p" "p < length (ptable s)"
    "length (bufs s) = Suc NBUF"
  using assms by (auto simp: bio_inv_def dest: dllD(1))

lemma caches_lt [simp]: "caches bs i b \<Longrightarrow> i < NBUF"
  by (simp add: caches_def)

lemma bview_hit:
  assumes "\<And>i j b. caches (bufs s) i b \<Longrightarrow> caches (bufs s) j b \<Longrightarrow> i = j" "caches (bufs s) i b" "valid (bufs s ! i)"
  shows "bview s b = b_data (bufs s ! i)"
proof -
  have "find_index (\<lambda>i. caches (bufs s) i b \<and> valid (bufs s ! i)) [0..<NBUF] = Some i"
    unfolding find_index_Some
  proof (intro conjI allI impI)
    fix j assume "j < i"
    then have "[0..<NBUF] ! j = j" using caches_lt[OF assms(2)] by simp
    then show "\<not> (caches (bufs s) ([0..<NBUF] ! j) b \<and> valid (bufs s ! ([0..<NBUF] ! j)))"
      using assms(1)[of j b i] assms(2) \<open>j < i\<close> by auto
  qed (use assms(2,3) caches_lt[OF assms(2)] in simp_all)
  then show ?thesis by (simp add: bview_def)
qed

lemma bview_miss:
  assumes "\<And>i. caches (bufs s) i b \<Longrightarrow> \<not> valid (bufs s ! i)"
  shows "bview s b = disk s b"
proof -
  have "find_index (\<lambda>i. caches (bufs s) i b \<and> valid (bufs s ! i)) [0..<NBUF] = None"
    using assms by (auto simp: find_index_None)
  then show ?thesis by (simp add: bview_def)
qed

lemma bview_clean:
  assumes "bio_inv p s" "b \<notin> bdirty s" "b \<notin> blocked s"
  shows "bview s b = disk s b"
proof (cases "\<exists>i. caches (bufs s) i b \<and> valid (bufs s ! i)")
  case True
  then obtain i where i: "caches (bufs s) i b" "valid (bufs s ! i)" by blast
  then have "\<not> dirty (bufs s ! i)" "\<not> blk s i" using assms(2,3) by (auto simp: bdirty_def blocked_def)
  moreover have "buf_ok s p i" using bio_invD(2)[OF assms(1)] caches_lt[OF i(1)] by simp
  ultimately show ?thesis using i bview_hit[OF bio_invD(3)[OF assms(1)] i] by (auto simp: buf_ok_def caches_def)
next
  case False
  then show ?thesis by (intro bview_miss) blast
qed

lemma bview_len: "bio_inv p s \<Longrightarrow> length (bview s b) = BSIZE"
proof -
  assume i: "bio_inv p s"
  show "length (bview s b) = BSIZE"
    using bio_invD(2)[OF i] bio_invD(4)[OF i]
    by (auto simp: bview_def buf_ok_def find_index_Some split: option.splits)
qed

text \<open>Everything outside the cache is left alone by its operations.\<close>

definition bio_frame :: "'z bio_scheme \<Rightarrow> 'z bio_scheme \<Rightarrow> bool" where
  "bio_frame s t \<longleftrightarrow> bio.more t = bio.more s \<and> map pid (ptable t) = map pid (ptable s) \<and>
     (\<forall>l. slocks t (SL_inode l) = slocks s (SL_inode l)) \<and> disksize t = disksize s \<and>
     mailboxes t = mailboxes s \<and> kmemory t = kmemory s \<and> freelist t = freelist s"

lemma bio_frame_refl [simp]: "bio_frame s s"
  by (simp add: bio_frame_def)

lemma bio_frame_trans: "bio_frame s t \<Longrightarrow> bio_frame t u \<Longrightarrow> bio_frame s u"
  by (simp add: bio_frame_def)

subsection \<open>Runs of the operations\<close>

lemma B_bits [simp]:
  "(x OR B_VALID) AND B_VALID = B_VALID" "(x OR B_DIRTY) AND B_DIRTY = B_DIRTY" "B_VALID \<noteq> 0" "B_DIRTY \<noteq> 0"
  "(x OR B_VALID) AND B_DIRTY = x AND B_DIRTY" "(x OR B_DIRTY) AND B_VALID = x AND B_VALID"
  "(x AND NOT B_DIRTY) AND B_DIRTY = 0" "(x AND NOT B_DIRTY) AND B_VALID = x AND B_VALID"
  "0 AND B_DIRTY = 0" "0 OR B_VALID = B_VALID" "B_VALID AND B_DIRTY = 0"
proof -
  have v: "B_VALID = push_bit 1 1" "B_DIRTY = push_bit 2 1" by (simp_all add: B_VALID_def B_DIRTY_def)
  show "(x OR B_VALID) AND B_VALID = B_VALID" "(x OR B_DIRTY) AND B_DIRTY = B_DIRTY"
    "(x OR B_VALID) AND B_DIRTY = x AND B_DIRTY" "(x OR B_DIRTY) AND B_VALID = x AND B_VALID"
    "(x AND NOT B_DIRTY) AND B_DIRTY = 0" "(x AND NOT B_DIRTY) AND B_VALID = x AND B_VALID"
    unfolding v by (rule bit_word_eqI; auto simp: bit_simps)+
qed (simp_all add: B_VALID_def B_DIRTY_def)

lemma nothing_to_do_iff: "x AND (B_VALID OR B_DIRTY) = B_VALID \<longleftrightarrow> x AND B_VALID \<noteq> 0 \<and> x AND B_DIRTY = 0"
proof -
  have v: "B_VALID = push_bit 1 1" "B_DIRTY = push_bit 2 1" by (simp_all add: B_VALID_def B_DIRTY_def)
  have n: "bit (push_bit 1 1 :: u32) n \<longleftrightarrow> n = 1" "bit (push_bit 2 1 :: u32) n \<longleftrightarrow> n = 2" for n
    by (auto simp only: bit_push_bit_iff bit_1_iff possible_bit_word) simp_all
  have b1: "x AND B_VALID \<noteq> 0 \<longleftrightarrow> bit x 1" unfolding v bit_eq_iff[of "x AND _" 0] bit_and_iff n by (auto simp: possible_bit_word)
  have b2: "x AND B_DIRTY = 0 \<longleftrightarrow> \<not> bit x 2" unfolding v bit_eq_iff[of "x AND _" 0] bit_and_iff n
  proof
    assume a: "\<forall>m. possible_bit TYPE(u32) m \<longrightarrow> (bit x m \<and> m = 2) = bit (0 :: u32) m"
    show "\<not> bit x 2" using a[rule_format, of 2] by (simp add: possible_bit_word)
  qed auto
  show ?thesis unfolding b1 b2
  proof
    assume a: "x AND (B_VALID OR B_DIRTY) = B_VALID"
    then have "bit (x AND (B_VALID OR B_DIRTY)) 1 = bit B_VALID 1" "bit (x AND (B_VALID OR B_DIRTY)) 2 = bit B_VALID 2"
      by simp_all
    then show "bit x 1 \<and> \<not> bit x 2" unfolding v by (auto simp: bit_simps)
  next
    assume "bit x 1 \<and> \<not> bit x 2"
    then show "x AND (B_VALID OR B_DIRTY) = B_VALID" unfolding v
      by (intro bit_word_eqI) (unfold bit_and_iff bit_or_iff n, auto)
  qed
qed

lemma upd_buf_run [simp]: "upd_buf i f s = Ok () (s\<lparr>bufs := upd_at i f (bufs s)\<rparr>)"
  by (simp add: upd_buf_def)

lemma get_buf_run [simp]: "get_buf i s = Ok (bufs s ! i) s"
  by (simp add: get_buf_def)

definition lock_buf :: "nat \<Rightarrow> nat \<Rightarrow> 'z slk_scheme \<Rightarrow> slock \<Rightarrow> sleeplock" where
  "lock_buf p i s = (slocks s)(SL_buf i := (slocks s (SL_buf i))\<lparr>slk_locked := True, slk_pid := pid (ptable s ! p)\<rparr>)"

lemma bread_hit:
  assumes "bio_inv p s" "caches (bufs s) i b" "\<not> blk s i" "valid (bufs s ! i)"
  shows "bread 1 b s = Ok i (s\<lparr>bufs := upd_at i (\<lambda>x. x\<lparr>b_refcnt := b_refcnt x + 1\<rparr>) (bufs s), slocks := lock_buf p i s\<rparr>)"
proof -
  note inv = bio_invD[OF assms(1)]
  obtain xs where xs: "dll (bufs s) xs" using inv(1) by blast
  have "find (\<lambda>j. b_dev (bufs s ! j) = 1 \<and> b_blockno (bufs s ! j) = b) xs = Some i"
  proof (cases "find (\<lambda>j. b_dev (bufs s ! j) = 1 \<and> b_blockno (bufs s ! j) = b) xs")
    case None
    then show ?thesis using assms(2) dllD(3)[OF xs, of i] by (auto simp: find_None_iff caches_def)
  next
    case (Some j)
    then have "caches (bufs s) j b" using dllD(3)[OF xs, of j] by (auto simp: caches_def dest: find_SomeD)
    then show ?thesis using Some inv(3)[OF assms(2)] by auto
  qed
  then have "bscan (Suc NBUF) b_next (\<lambda>x. b_dev x = 1 \<and> b_blockno x = b) (bufs s) (b_next (bufs s ! NBUF)) = Some (Some i)"
    by (simp add: bscan_dll(1)[OF xs])
  moreover have "i < NBUF" using assms(2) by (rule caches_lt)
  ultimately show ?thesis
    using inv(5,6,8) assms(3,4)
    by (simp add: bread_def bget_def acquiresleep_free[where p = p] lock_buf_def kwhen_def)
qed

text \<open>There is a buffer to recycle as long as the dirty and the held ones do not fill the cache.\<close>

lemma free_buffer_exists:
  assumes "bio_inv p s" "card (bdirty s \<union> blocked s) < NBUF"
  shows "\<exists>i<NBUF. \<not> blk s i \<and> \<not> dirty (bufs s ! i)"
proof (rule ccontr)
  assume n: "\<not> ?thesis"
  note inv = bio_invD[OF assms(1)]
  have c: "caches (bufs s) i (b_blockno (bufs s ! i)) \<and> b_blockno (bufs s ! i) \<in> bdirty s \<union> blocked s" if "i < NBUF" for i
  proof -
    have "blk s i \<or> dirty (bufs s ! i)" using n that by blast
    then have "b_dev (bufs s ! i) = 1" using inv(2)[OF that] by (auto simp: buf_ok_def)
    then have "caches (bufs s) i (b_blockno (bufs s ! i))" using that by (simp add: caches_def)
    then show ?thesis using \<open>blk s i \<or> dirty (bufs s ! i)\<close> by (auto simp: bdirty_def blocked_def)
  qed
  have "inj_on (\<lambda>i. b_blockno (bufs s ! i)) {..<NBUF}"
    by (rule inj_onI) (metis c inv(3) lessThan_iff)
  then have "card ((\<lambda>i. b_blockno (bufs s ! i)) ` {..<NBUF}) = NBUF" by (simp add: card_image)
  moreover have "card ((\<lambda>i. b_blockno (bufs s ! i)) ` {..<NBUF}) \<le> card (bdirty s \<union> blocked s)"
    using c by (intro card_mono) auto
  ultimately show False using assms(2) by simp
qed

lemma held_self: "held s = h \<Longrightarrow> s\<lparr>held := h\<rparr> = s"
  by auto

lemma iderw_read:
  assumes "free_locks s" "curproc s = Some p" "locked_by s (SL_buf i) p" "b_flags (bufs s ! i) = 0"
    "b_dev (bufs s ! i) = 1" "b_blockno (bufs s ! i) < disksize s"
  shows "iderw i s = Ok () (s\<lparr>bufs := upd_at i (\<lambda>x. x\<lparr>b_data := disk s (b_blockno (bufs s ! i)), b_flags := b_flags x OR B_VALID\<rparr>) (bufs s)\<rparr>)"
  using assms by (simp add: iderw_def holdingsleep_run[where p = p])

lemma iderw_write:
  assumes "free_locks s" "curproc s = Some p" "locked_by s (SL_buf i) p" "dirty (bufs s ! i)"
    "b_dev (bufs s ! i) = 1" "b_blockno (bufs s ! i) < disksize s"
  shows "iderw i s = Ok () (s\<lparr>bufs := upd_at i (\<lambda>x. x\<lparr>b_flags := (b_flags x AND NOT B_DIRTY) OR B_VALID\<rparr>) (bufs s),
    disk := (disk s)(b_blockno (bufs s ! i) := b_data (bufs s ! i)),
    dtrace := dtrace s @ [(b_blockno (bufs s ! i), b_data (bufs s ! i))]\<rparr>)"
  using assms by (simp add: iderw_def holdingsleep_run[where p = p] nothing_to_do_iff)

lemma bread_miss_lru:
  assumes "bio_inv p s" "\<And>i. \<not> caches (bufs s) i b" "card (bdirty s \<union> blocked s) < NBUF" "b < disksize s" "dll (bufs s) xs"
  shows "\<exists>i<NBUF. find (\<lambda>j. b_refcnt (bufs s ! j) = 0 \<and> b_flags (bufs s ! j) AND B_DIRTY = 0) (rev xs) = Some i \<and> \<not> blk s i \<and> \<not> dirty (bufs s ! i) \<and>
    bread 1 b s = Ok i (s\<lparr>slocks := lock_buf p i s, bufs := upd_at i (\<lambda>x. x\<lparr>b_dev := 1, b_blockno := b, b_refcnt := 1,
      b_data := disk s b, b_flags := B_VALID\<rparr>) (bufs s)\<rparr>)"
proof -
  note inv = bio_invD[OF assms(1)]
  note xs = assms(5)
  let ?bs = "bufs s"
  have "find (\<lambda>j. b_dev (?bs ! j) = 1 \<and> b_blockno (?bs ! j) = b) xs = None"
    using assms(2) dllD(3)[OF xs] by (auto simp: find_None_iff caches_def)
  then have s1: "bscan (Suc NBUF) b_next (\<lambda>x. b_dev x = 1 \<and> b_blockno x = b) ?bs (b_next (?bs ! NBUF)) = Some None"
    by (simp add: bscan_dll(1)[OF xs])
  obtain i where i: "find (\<lambda>j. b_refcnt (?bs ! j) = 0 \<and> b_flags (?bs ! j) AND B_DIRTY = 0) (rev xs) = Some i"
  proof (cases "find (\<lambda>j. b_refcnt (?bs ! j) = 0 \<and> b_flags (?bs ! j) AND B_DIRTY = 0) (rev xs)")
    case None
    obtain j where "j < NBUF" "\<not> blk s j" "\<not> dirty (?bs ! j)" using free_buffer_exists[OF assms(1,3)] by blast
    then show ?thesis using None inv(2)[of j] dllD(3)[OF xs, of j] by (auto simp: find_None_iff buf_ok_def)
  qed
  then have s2: "bscan (Suc NBUF) b_prev (\<lambda>x. b_refcnt x = 0 \<and> b_flags x AND B_DIRTY = 0) ?bs (b_prev (?bs ! NBUF)) = Some (Some i)"
    by (simp add: bscan_dll(2)[OF xs])
  have f: "i < NBUF" "b_refcnt (?bs ! i) = 0" "\<not> dirty (?bs ! i)"
    using find_SomeD[OF i] dllD(3)[OF xs, of i] by auto
  then have nb: "\<not> blk s i" using inv(2)[of i] by (auto simp: buf_ok_def split: if_splits)
  let ?t = "s\<lparr>bufs := upd_at i (\<lambda>x. x\<lparr>b_dev := 1, b_blockno := b, b_flags := 0, b_refcnt := 1\<rparr>) ?bs, slocks := lock_buf p i s\<rparr>"
  have g: "bget 1 b s = Ok i ?t"
    using f nb inv(5,6,8) s1 s2
    by (simp add: bget_def acquiresleep_free[where p = p] lock_buf_def held_self)
  have "iderw i ?t = Ok () (?t\<lparr>bufs := upd_at i (\<lambda>x. x\<lparr>b_data := disk s b, b_flags := b_flags x OR B_VALID\<rparr>) (bufs ?t)\<rparr>)"
    using f(1) inv(5,6,8) assms(4) by (subst iderw_read[where p = p]) (simp_all add: lock_buf_def locked_by_def)
  with g f i nb inv(8) show ?thesis
    by (intro exI[of _ i]) (simp add: bread_def kwhen_def)
qed

lemma bread_miss:
  assumes "bio_inv p s" "\<And>i. \<not> caches (bufs s) i b" "card (bdirty s \<union> blocked s) < NBUF" "b < disksize s"
  shows "\<exists>i<NBUF. \<not> blk s i \<and> \<not> dirty (bufs s ! i) \<and>
    bread 1 b s = Ok i (s\<lparr>slocks := lock_buf p i s, bufs := upd_at i (\<lambda>x. x\<lparr>b_dev := 1, b_blockno := b, b_refcnt := 1,
      b_data := disk s b, b_flags := B_VALID\<rparr>) (bufs s)\<rparr>)"
proof -
  obtain xs where "dll (bufs s) xs" using bio_invD(1)[OF assms(1)] by blast
  from bread_miss_lru[OF assms this] show ?thesis by blast
qed

lemma bwrite_run:
  assumes "bio_inv p s" "caches (bufs s) i b" "blk s i"
  shows "bwrite i s = Ok () (s\<lparr>bufs := upd_at i (\<lambda>x. x\<lparr>b_flags := ((b_flags x OR B_DIRTY) AND NOT B_DIRTY) OR B_VALID\<rparr>) (bufs s),
    disk := (disk s)(b := b_data (bufs s ! i)), dtrace := dtrace s @ [(b, b_data (bufs s ! i))]\<rparr>)"
proof -
  note inv = bio_invD[OF assms(1)]
  have i: "i < NBUF" "b_dev (bufs s ! i) = 1" "b_blockno (bufs s ! i) = b" using assms(2) by (simp_all add: caches_def)
  then have l: "locked_by s (SL_buf i) p" "b < disksize s" using inv(2)[OF i(1)] assms(3) by (auto simp: buf_ok_def)
  let ?t = "s\<lparr>bufs := upd_at i (\<lambda>x. x\<lparr>b_flags := b_flags x OR B_DIRTY\<rparr>) (bufs s)\<rparr>"
  have "locked_by ?t (SL_buf i) p" using l(1) by (simp add: locked_by_def)
  then have "iderw i ?t = Ok () (?t\<lparr>bufs := upd_at i (\<lambda>x. x\<lparr>b_flags := (b_flags x AND NOT B_DIRTY) OR B_VALID\<rparr>) (bufs ?t),
      disk := (disk s)(b := b_data (bufs s ! i)), dtrace := dtrace s @ [(b, b_data (bufs s ! i))]\<rparr>)"
    using i l inv(5,6,8) by (subst iderw_write[where p = p]) simp_all
  then show ?thesis using l(1) inv(5,6) by (simp add: bwrite_def holdingsleep_run[where p = p])
qed

lemma brelse_run:
  assumes "bio_inv p s" "caches (bufs s) i b" "blk s i"
  shows "brelse i s = Ok () (s\<lparr>slocks := (slocks s)(SL_buf i := (slocks s (SL_buf i))\<lparr>slk_locked := False, slk_pid := 0\<rparr>),
    ptable := map (wake (Ch_sleeplock (SL_buf i))) (ptable s),
    bufs := push_front i (unlink i (upd_at i (\<lambda>x. x\<lparr>b_refcnt := 0\<rparr>) (bufs s)))\<rparr>)"
proof -
  note inv = bio_invD[OF assms(1)]
  have i: "i < NBUF" using assms(2) by (rule caches_lt)
  then have l: "locked_by s (SL_buf i) p" "b_refcnt (bufs s ! i) = 1" using inv(2)[OF i] assms(3) by (auto simp: buf_ok_def)
  have u: "upd_at i (\<lambda>x. x\<lparr>b_refcnt := b_refcnt x - 1\<rparr>) (bufs s) = upd_at i (\<lambda>x. x\<lparr>b_refcnt := 0\<rparr>) (bufs s)"
    using l(2) by (intro upd_at_cong) simp
  show ?thesis
    using inv(5,6,8) i l
    by (simp add: brelse_def holdingsleep_run[where p = p] releasesleep_run kwhen_def u unlink_def push_front_def Let_def held_self)
qed

subsection \<open>The cache seen by its clients\<close>

lemma view_caches:
  assumes "bio_inv p s" "caches (bufs s) i b"
  shows "bview s b = b_data (bufs s ! i)"
proof -
  have "valid (bufs s ! i)"
    using bio_invD(2)[OF assms(1) caches_lt[OF assms(2)]] assms(2) by (simp add: buf_ok_def caches_def)
  with assms(2) show ?thesis by (intro bview_hit) (rule bio_invD(3)[OF assms(1)])
qed

lemma view_none: "(\<And>i. \<not> caches (bufs s) i b) \<Longrightarrow> bview s b = disk s b"
  by (rule bview_miss) blast

text \<open>
  A step that changes the content of buffer \<open>i\<close> only. The conditions are on the buffer itself and on
  the blocks of the others.
\<close>

lemma bio_inv_change:
  assumes "bio_inv p s" "i < NBUF" "\<exists>xs. dll (bufs t) xs" "buf_ok t p i"
    "\<And>j. j < NBUF \<Longrightarrow> j \<noteq> i \<Longrightarrow> same_content (bufs t ! j) (bufs s ! j) \<and> slocks t (SL_buf j) = slocks s (SL_buf j)"
    "\<And>j. j < NBUF \<Longrightarrow> j \<noteq> i \<Longrightarrow> b_dev (bufs s ! j) = 1 \<Longrightarrow>
      disk t (b_blockno (bufs s ! j)) = disk s (b_blockno (bufs s ! j)) \<and> b_blockno (bufs t ! i) \<noteq> b_blockno (bufs s ! j)"
    "\<And>b. length (disk t b) = BSIZE" "held t = []" "curproc t = Some p" "map pid (ptable t) = map pid (ptable s)"
    "disksize t = disksize s"
  shows "bio_inv p t"
proof -
  note inv = bio_invD[OF assms(1)]
  have len: "length (ptable t) = length (ptable s)" using assms(10) by (metis length_map)
  then have pd: "pid (ptable t ! p) = pid (ptable s ! p)" using assms(10) inv(7) by (metis nth_map)
  have "buf_ok t p j" if "j < NBUF" for j
  proof (cases "j = i")
    case False
    then show ?thesis
      using inv(2)[OF that] assms(5,6)[OF that False] pd assms(11)
      by (auto simp: buf_ok_def same_content_def locked_by_def)
  qed (use assms(4) in simp)
  moreover have "j = k" if c: "caches (bufs t) j b" "caches (bufs t) k b" for j k b
  proof (rule ccontr)
    assume ne: "j \<noteq> k"
    have jk: "j < NBUF" "k < NBUF" using c by auto
    have cs: "caches (bufs s) l b" if "caches (bufs t) l b" "l \<noteq> i" for l
      using that assms(5)[of l] by (auto simp: caches_def same_content_def)
    show False
    proof (cases "j = i \<or> k = i")
      case True
      then obtain l where "l < NBUF" "l \<noteq> i" "caches (bufs t) l b" "caches (bufs t) i b" using ne jk c by blast
      then show False using cs[of l] assms(6)[of l] by (auto simp: caches_def)
    next
      case False
      then show False using cs[of j] cs[of k] c inv(3) ne by blast
    qed
  qed
  ultimately show ?thesis using assms(3,7,8,9) len inv(7) unfolding bio_inv_def by auto
qed

lemma dll_content:
  assumes "dll bs xs" "\<And>x. b_prev (f x) = b_prev x \<and> b_next (f x) = b_next x"
  shows "dll (upd_at i f bs) xs"
proof -
  have "seg (upd_at i f bs) NBUF xs NBUF \<longleftrightarrow> seg bs NBUF xs NBUF"
    using assms(2) by (intro seg_cong ballI) (simp_all add: nth_upd_at_field)
  then show ?thesis using assms(1) by (simp add: dll_def)
qed

lemma same_content_refl [simp]: "same_content x x"
  by (simp add: same_content_def)

lemma slocks_lock_buf [simp]:
  "lock_buf p i s (SL_buf j) = (if j = i then (slocks s (SL_buf i))\<lparr>slk_locked := True, slk_pid := pid (ptable s ! p)\<rparr> else slocks s (SL_buf j))"
  "lock_buf p i s (SL_inode l) = slocks s (SL_inode l)"
  by (auto simp: lock_buf_def)

text \<open>Buffer \<open>i\<close> is held, for block \<open>b\<close>.\<close>

definition holds :: "'z bio_scheme \<Rightarrow> nat \<Rightarrow> u32 \<Rightarrow> bool" where
  "holds s i b \<longleftrightarrow> caches (bufs s) i b \<and> blk s i"

text \<open>What a client knows after \<open>bread\<close>: it holds the buffer of block \<open>b\<close>.\<close>

definition bread_post :: "nat \<Rightarrow> 'z bio_scheme \<Rightarrow> u32 \<Rightarrow> nat \<Rightarrow> 'z bio_scheme \<Rightarrow> bool" where
  "bread_post p s b i t \<longleftrightarrow> bio_inv p t \<and> holds t i b \<and> bview t = bview s \<and>
     disk t = disk s \<and> dtrace t = dtrace s \<and> bdirty t = bdirty s \<and> blocked t = insert b (blocked s) \<and>
     (\<forall>j b'. holds s j b' \<longrightarrow> holds t j b') \<and> bio_frame s t"

lemma bread_hit_post:
  assumes "bio_inv p s" "caches (bufs s) i b" "\<not> blk s i"
  shows "\<exists>t. bread 1 b s = Ok i t \<and> bread_post p s b i t"
proof -
  note inv = bio_invD[OF assms(1)]
  obtain xs where xs: "dll (bufs s) xs" using inv(1) by blast
  have i: "i < NBUF" "b_dev (bufs s ! i) = 1" "b_blockno (bufs s ! i) = b" using assms(2) by (simp_all add: caches_def)
  have ok: "buf_ok s p i" using inv(2)[OF i(1)] .
  let ?f = "\<lambda>x. x\<lparr>b_refcnt := b_refcnt x + 1\<rparr>"
  let ?t = "s\<lparr>bufs := upd_at i ?f (bufs s), slocks := lock_buf p i s\<rparr>"
  have r: "bread 1 b s = Ok i ?t" using bread_hit[OF assms] ok i(2) by (simp add: buf_ok_def)
  have ci: "caches (bufs ?t) j b' = caches (bufs s) j b'" for j b' by (simp add: caches_def nth_upd_at_field)
  have "bio_inv p ?t"
  proof (rule bio_inv_change[OF assms(1) i(1)])
    show "\<exists>ys. dll (bufs ?t) ys" by (intro exI[of _ xs]) (simp add: dll_content[OF xs])
    show "buf_ok ?t p i" using ok i inv(8) assms(3) by (auto simp: buf_ok_def locked_by_def)
    show "disk ?t (b_blockno (bufs s ! j)) = disk s (b_blockno (bufs s ! j)) \<and> b_blockno (bufs ?t ! i) \<noteq> b_blockno (bufs s ! j)"
      if "j < NBUF" "j \<noteq> i" "b_dev (bufs s ! j) = 1" for j
      using that i inv(3)[OF assms(2), of j] by (auto simp: caches_def nth_upd_at_field)
  qed (use inv in \<open>auto simp: nth_upd_at\<close>)
  moreover have "bview ?t = bview s"
    unfolding bview_def ci by (rule ext) (simp add: nth_upd_at_field cong: option.case_cong)
  moreover have "bdirty ?t = bdirty s" unfolding bdirty_def ci by (simp add: nth_upd_at_field)
  moreover have "blocked ?t = insert b (blocked s)" using assms(2) unfolding blocked_def ci by (auto simp: caches_def)
  moreover have "holds ?t i b" "\<And>j b'. holds s j b' \<Longrightarrow> holds ?t j b'" using assms(2) unfolding holds_def ci by auto
  ultimately have "bread_post p s b i ?t" by (simp add: bread_post_def bio_frame_def)
  then show ?thesis using r by blast
qed

lemma view_recycle:
  assumes "bio_inv p s" "bio_inv p t" "i < NBUF" "\<not> blk s i" "\<not> dirty (bufs s ! i)" "\<And>j. \<not> caches (bufs s) j b"
    "\<And>j b'. caches (bufs t) j b' \<longleftrightarrow> (if j = i then b' = b else caches (bufs s) j b')"
    "b_data (bufs t ! i) = disk s b" "\<And>j. j \<noteq> i \<Longrightarrow> b_data (bufs t ! j) = b_data (bufs s ! j)" "disk t = disk s"
  shows "bview t = bview s"
proof
  fix b'
  note inv = bio_invD[OF assms(1)]
  consider "b' = b" | j where "b' \<noteq> b" "caches (bufs s) j b'" "j \<noteq> i" | "b' \<noteq> b" "caches (bufs s) i b'"
    | "b' \<noteq> b" "\<And>j. \<not> caches (bufs s) j b'" by blast
  then show "bview t b' = bview s b'"
  proof cases
    case 1
    then show ?thesis using view_caches[OF assms(2), of i b'] view_none[of s b'] assms(6,7,8) by simp
  next
    case 2
    then show ?thesis using view_caches[OF assms(1) 2(2)] view_caches[OF assms(2), of j b'] assms(7,9) by simp
  next
    case 3
    then have "\<not> caches (bufs t) l b'" for l using assms(7) inv(3)[OF 3(2), of l] by auto
    then have "bview t b' = disk s b'" using assms(10) by (simp add: view_none)
    moreover have "b_data (bufs s ! i) = disk s b'" using inv(2)[OF assms(3)] assms(4,5) 3 by (auto simp: buf_ok_def caches_def)
    ultimately show ?thesis using view_caches[OF assms(1) 3(2)] by simp
  next
    case 4
    then show ?thesis using assms(7,10) by (simp add: view_none)
  qed
qed

lemma bread_miss_post:
  assumes "bio_inv p s" "\<And>i. \<not> caches (bufs s) i b" "card (bdirty s \<union> blocked s) < NBUF" "b < disksize s"
  shows "\<exists>i t. bread 1 b s = Ok i t \<and> bread_post p s b i t"
proof -
  note inv = bio_invD[OF assms(1)]
  obtain xs where xs: "dll (bufs s) xs" using inv(1) by blast
  let ?f = "\<lambda>x. x\<lparr>b_dev := 1, b_blockno := b, b_refcnt := 1, b_data := disk s b, b_flags := B_VALID\<rparr>"
  obtain i where i: "i < NBUF" "\<not> blk s i" "\<not> dirty (bufs s ! i)"
    "bread 1 b s = Ok i (s\<lparr>slocks := lock_buf p i s, bufs := upd_at i ?f (bufs s)\<rparr>)"
    using bread_miss[OF assms] by blast
  let ?t = "s\<lparr>slocks := lock_buf p i s, bufs := upd_at i ?f (bufs s)\<rparr>"
  have fi: "bufs ?t ! i = ?f (bufs s ! i)" using i(1) inv(8) by simp
  have ci: "caches (bufs ?t) j b' \<longleftrightarrow> (if j = i then b' = b else caches (bufs s) j b')" for j b'
    using i(1) fi by (auto simp: caches_def)
  have ok: "bio_inv p ?t"
  proof (rule bio_inv_change[OF assms(1) i(1)])
    show "\<exists>ys. dll (bufs ?t) ys" by (intro exI[of _ xs]) (simp add: dll_content[OF xs])
    show "buf_ok ?t p i" using fi inv(4) assms(4) by (auto simp: buf_ok_def locked_by_def)
    show "disk ?t (b_blockno (bufs s ! j)) = disk s (b_blockno (bufs s ! j)) \<and> b_blockno (bufs ?t ! i) \<noteq> b_blockno (bufs s ! j)"
      if "j < NBUF" "j \<noteq> i" "b_dev (bufs s ! j) = 1" for j
      using that fi assms(2)[of j] by (auto simp: caches_def)
  qed (use inv in \<open>auto simp: nth_upd_at\<close>)
  have "bview ?t = bview s"
    using i(2,3) fi by (intro view_recycle[OF assms(1) ok i(1) _ _ assms(2) ci]) simp_all
  moreover have "caches (bufs ?t) j b' \<and> dirty (bufs ?t ! j) \<longleftrightarrow> caches (bufs s) j b' \<and> dirty (bufs s ! j)" for j b'
    unfolding ci using i(3) fi by (cases "j = i") simp_all
  then have "bdirty ?t = bdirty s" unfolding bdirty_def by blast
  moreover have "blocked ?t = insert b (blocked s)" unfolding blocked_def ci using i(2) by (auto split: if_splits)
  moreover have "holds ?t i b" unfolding holds_def ci by simp
  moreover have "holds ?t j b'" if "holds s j b'" for j b' using that i(2) unfolding holds_def ci by auto
  ultimately have "bread_post p s b i ?t" using ok by (simp add: bread_post_def bio_frame_def)
  then show ?thesis using i(4) by blast
qed

lemma bread_spec:
  assumes "bio_inv p s" "b < disksize s" "b \<notin> blocked s" "b \<in> bdirty s \<or> card (bdirty s \<union> blocked s) < NBUF"
  shows "\<exists>i t. bread 1 b s = Ok i t \<and> bread_post p s b i t"
proof (cases "\<exists>i. caches (bufs s) i b")
  case True
  then obtain i where i: "caches (bufs s) i b" by blast
  then have "\<not> blk s i" using assms(3) by (auto simp: blocked_def)
  then show ?thesis using bread_hit_post[OF assms(1) i] by blast
next
  case False
  then have "b \<notin> bdirty s" by (auto simp: bdirty_def)
  then show ?thesis using False assms by (intro bread_miss_post) auto
qed

text \<open>The operations on a held buffer: writing its data, marking it dirty, \<open>bwrite\<close> and \<open>brelse\<close>.\<close>

definition set_data :: "nat \<Rightarrow> u8 list \<Rightarrow> ('z bio_scheme, unit) kprog" where
  "set_data i d = upd_buf i (\<lambda>x. x\<lparr>b_data := d\<rparr>)"

lemma held_update:
  fixes s :: "'z bio_scheme"
  assumes "bio_inv p s" "caches (bufs s) i b" "blk s i" "t = s\<lparr>bufs := upd_at i f (bufs s), disk := d, dtrace := w\<rparr>"
    "\<And>x. b_prev (f x) = b_prev x \<and> b_next (f x) = b_next x \<and> b_dev (f x) = b_dev x \<and> b_blockno (f x) = b_blockno x \<and> b_refcnt (f x) = b_refcnt x"
    "valid (f (bufs s ! i))" "length (b_data (f (bufs s ! i))) = BSIZE"
    "\<And>b'. b' \<noteq> b \<Longrightarrow> d b' = disk s b'" "length (d b) = BSIZE"
  shows "bio_inv p t" "bview t = (bview s)(b := b_data (f (bufs s ! i)))" "blocked t = blocked s"
    "bdirty t = (if dirty (f (bufs s ! i)) then insert b (bdirty s) else bdirty s - {b})" "bio_frame s t"
    "holds t j b' = holds s j b'"
proof -
  note inv = bio_invD[OF assms(1)]
  obtain xs where xs: "dll (bufs s) xs" using inv(1) by blast
  have i: "i < NBUF" "b_dev (bufs s ! i) = 1" "b_blockno (bufs s ! i) = b" using assms(2) by (simp_all add: caches_def)
  have fi: "bufs t ! i = f (bufs s ! i)" "\<And>j. j \<noteq> i \<Longrightarrow> bufs t ! j = bufs s ! j" using i(1) inv(8) assms(4) by auto
  have ci: "caches (bufs t) j b' = caches (bufs s) j b'" for j b'
    using fi assms(5) by (cases "j = i") (simp_all add: caches_def)
  have bt: "bufs t = upd_at i f (bufs s)" "disk t = d" "slocks t = slocks s" "ptable t = ptable s" "disksize t = disksize s"
    using assms(4) by simp_all
  show ok: "bio_inv p t"
  proof (rule bio_inv_change[OF assms(1) i(1)])
    show "\<exists>ys. dll (bufs t) ys" unfolding bt(1) using assms(5) by (intro exI[of _ xs] dll_content[OF xs]) simp
    show "buf_ok t p i" using inv(2)[OF i(1)] fi(1) assms(3,5,6,7) bt by (simp add: buf_ok_def locked_by_def)
    show "disk t (b_blockno (bufs s ! j)) = disk s (b_blockno (bufs s ! j)) \<and> b_blockno (bufs t ! i) \<noteq> b_blockno (bufs s ! j)"
      if "j < NBUF" "j \<noteq> i" "b_dev (bufs s ! j) = 1" for j
    proof -
      have "b_blockno (bufs s ! j) \<noteq> b" using that inv(3)[OF assms(2), of j] by (auto simp: caches_def)
      then show ?thesis using fi(1) assms(5,8) i(3) bt(2) by simp
    qed
    show "length (disk t b') = BSIZE" for b' using assms(8,9) inv(4) bt(2) by (cases "b' = b") simp_all
    show "same_content (bufs t ! j) (bufs s ! j) \<and> slocks t (SL_buf j) = slocks s (SL_buf j)" if "j < NBUF" "j \<noteq> i" for j
      unfolding fi(2)[OF that(2)] bt(3) by simp
    show "held t = []" "curproc t = Some p" "map pid (ptable t) = map pid (ptable s)" "disksize t = disksize s" using inv(5,6) by (simp_all only: bt) (simp_all add: assms(4))
  qed
  show "bview t = (bview s)(b := b_data (f (bufs s ! i)))"
  proof
    fix b'
    show "bview t b' = ((bview s)(b := b_data (f (bufs s ! i)))) b'"
    proof (cases "\<exists>j. caches (bufs s) j b'")
      case True
      then obtain j where j: "caches (bufs s) j b'" by blast
      then have "b' = b \<longleftrightarrow> j = i" using inv(3)[OF assms(2), of j] i by (auto simp: caches_def)
      moreover have "bview t b' = b_data (bufs t ! j)" by (rule view_caches[OF ok]) (simp only: ci j)
      ultimately show ?thesis using view_caches[OF assms(1) j] fi by (cases "j = i") simp_all
    next
      case False
      then have "b' \<noteq> b" "bview s b' = disk s b'" "bview t b' = d b'"
        using assms(2) view_none[of s b'] view_none[of t b'] by (auto simp only: ci bt(2))
      then show ?thesis using assms(8) by simp
    qed
  qed
  show "blocked t = blocked s" unfolding blocked_def ci bt(3) by (rule refl)
  show "bdirty t = (if dirty (f (bufs s ! i)) then insert b (bdirty s) else bdirty s - {b})"
  proof -
    have t: "b' \<in> bdirty t \<longleftrightarrow> (\<exists>j. caches (bufs s) j b' \<and> dirty (bufs t ! j))" for b'
      by (simp only: bdirty_def mem_Collect_eq ci)
    have "b \<in> bdirty t \<longleftrightarrow> dirty (f (bufs s ! i))"
      unfolding t using assms(2) inv(3)[OF assms(2)] fi(1) by metis
    moreover have "b' \<in> bdirty t \<longleftrightarrow> b' \<in> bdirty s" if "b' \<noteq> b" for b'
    proof -
      have "caches (bufs s) j b' \<Longrightarrow> bufs t ! j = bufs s ! j" for j
        using that i(3) fi(2)[of j] by (cases "j = i") (simp_all add: caches_def)
      then show ?thesis unfolding t by (auto simp only: bdirty_def mem_Collect_eq)
    qed
    ultimately show ?thesis by (intro set_eqI) (metis insert_iff Diff_iff singleton_iff)
  qed
  show "bio_frame s t" by (simp add: bio_frame_def assms(4))
  show "holds t j b' = holds s j b'" unfolding holds_def ci bt(3) by (rule refl)
qed

definition held_post :: "nat \<Rightarrow> 'z bio_scheme \<Rightarrow> u32 \<Rightarrow> nat \<Rightarrow> 'z bio_scheme \<Rightarrow> bool" where
  "held_post p s b i t \<longleftrightarrow> bio_inv p t \<and> (\<forall>j b'. holds t j b' = holds s j b') \<and> blocked t = blocked s \<and> bio_frame s t"

lemma bdirty_caches: "bio_inv p s \<Longrightarrow> caches (bufs s) i b \<Longrightarrow> b \<in> bdirty s \<longleftrightarrow> dirty (bufs s ! i)"
  unfolding bdirty_def mem_Collect_eq by (metis bio_invD(3))

lemma set_data_spec:
  assumes "bio_inv p s" "caches (bufs s) i b" "blk s i" "length d = BSIZE"
  shows "\<exists>t. set_data i d s = Ok () t \<and> held_post p s b i t \<and> bview t = (bview s)(b := d) \<and>
    disk t = disk s \<and> dtrace t = dtrace s \<and> bdirty t = bdirty s"
proof -
  let ?f = "\<lambda>x. x\<lparr>b_data := d\<rparr>"
  let ?t = "s\<lparr>bufs := upd_at i ?f (bufs s), disk := disk s, dtrace := dtrace s\<rparr>"
  have ok: "buf_ok s p i" "b_dev (bufs s ! i) = 1"
    using bio_invD(2)[OF assms(1) caches_lt[OF assms(2)]] assms(2) by (simp_all add: caches_def)
  have v: "valid (?f (bufs s ! i))" "length (b_data (?f (bufs s ! i))) = BSIZE" using ok assms(4) by (simp_all add: buf_ok_def)
  note h = held_update[where f = ?f and t = ?t, OF assms(1-3) refl _ v refl bio_invD(4)[OF assms(1)], simplified]
  have "(if dirty (bufs s ! i) then insert b (bdirty s) else bdirty s - {b}) = bdirty s"
    using bdirty_caches[OF assms(1,2)] by auto
  then show ?thesis using h by (intro exI[of _ ?t]) (simp add: set_data_def held_post_def)
qed

lemma mark_dirty_spec:
  assumes "bio_inv p s" "caches (bufs s) i b" "blk s i"
  shows "\<exists>t. upd_buf i (\<lambda>x. x\<lparr>b_flags := b_flags x OR B_DIRTY\<rparr>) s = Ok () t \<and> held_post p s b i t \<and>
    bview t = bview s \<and> disk t = disk s \<and> dtrace t = dtrace s \<and> bdirty t = insert b (bdirty s)"
proof -
  let ?f = "\<lambda>x. x\<lparr>b_flags := b_flags x OR B_DIRTY\<rparr>"
  let ?t = "s\<lparr>bufs := upd_at i ?f (bufs s), disk := disk s, dtrace := dtrace s\<rparr>"
  have ok: "buf_ok s p i" "b_dev (bufs s ! i) = 1"
    using bio_invD(2)[OF assms(1) caches_lt[OF assms(2)]] assms(2) by (simp_all add: caches_def)
  have v: "valid (?f (bufs s ! i))" "length (b_data (?f (bufs s ! i))) = BSIZE" using ok by (simp_all add: buf_ok_def)
  note h = held_update[where f = ?f and t = ?t, OF assms(1-3) refl _ v refl bio_invD(4)[OF assms(1)], simplified]
  have "(bview s)(b := b_data (bufs s ! i)) = bview s" using view_caches[OF assms(1,2)] by auto
  then show ?thesis using h by (intro exI[of _ ?t]) (simp add: held_post_def)
qed

lemma bwrite_spec:
  assumes "bio_inv p s" "caches (bufs s) i b" "blk s i"
  shows "\<exists>t. bwrite i s = Ok () t \<and> held_post p s b i t \<and> bview t = bview s \<and>
    disk t = (disk s)(b := bview s b) \<and> dtrace t = dtrace s @ [(b, bview s b)] \<and> bdirty t = bdirty s - {b}"
proof -
  let ?f = "\<lambda>x. x\<lparr>b_flags := ((b_flags x OR B_DIRTY) AND NOT B_DIRTY) OR B_VALID\<rparr>"
  let ?t = "s\<lparr>bufs := upd_at i ?f (bufs s), disk := (disk s)(b := bview s b), dtrace := dtrace s @ [(b, bview s b)]\<rparr>"
  have ok: "buf_ok s p i" "b_dev (bufs s ! i) = 1"
    using bio_invD(2)[OF assms(1) caches_lt[OF assms(2)]] assms(2) by (simp_all add: caches_def)
  have v: "bview s b = b_data (bufs s ! i)" by (rule view_caches[OF assms(1,2)])
  have w: "valid (?f (bufs s ! i))" "length (b_data (?f (bufs s ! i))) = BSIZE" using ok by (simp_all add: buf_ok_def)
  have d: "length (((disk s)(b := bview s b)) b) = BSIZE" using bview_len[OF assms(1), of b] by simp
  note h = held_update[where f = ?f and t = ?t, OF assms(1-3) refl _ w _ d, simplified]
  have "(bview s)(b := b_data (bufs s ! i)) = bview s" using v by auto
  moreover have "bwrite i s = Ok () ?t" using bwrite_run[OF assms] v by simp
  ultimately show ?thesis using h by (intro exI[of _ ?t]) (simp add: held_post_def)
qed

lemma brelse_spec:
  assumes "bio_inv p s" "caches (bufs s) i b" "blk s i" "b \<in> bdirty s \<or> bview s b = disk s b"
  shows "\<exists>t. brelse i s = Ok () t \<and> bio_inv p t \<and> bview t = bview s \<and> disk t = disk s \<and> dtrace t = dtrace s \<and>
    bdirty t = bdirty s \<and> blocked t = blocked s - {b} \<and> (\<forall>j b'. holds s j b' \<and> b' \<noteq> b \<longrightarrow> holds t j b') \<and> bio_frame s t"
proof -
  note inv = bio_invD[OF assms(1)]
  obtain xs where xs: "dll (bufs s) xs" using inv(1) by blast
  have i: "i < NBUF" "b_dev (bufs s ! i) = 1" "b_blockno (bufs s ! i) = b" using assms(2) by (simp_all add: caches_def)
  let ?r = "upd_at i (\<lambda>x. x\<lparr>b_refcnt := 0\<rparr>) (bufs s)"
  let ?t = "s\<lparr>slocks := (slocks s)(SL_buf i := (slocks s (SL_buf i))\<lparr>slk_locked := False, slk_pid := 0\<rparr>),
    ptable := map (wake (Ch_sleeplock (SL_buf i))) (ptable s), bufs := push_front i (unlink i ?r)\<rparr>"
  have "dll ?r xs" by (rule dll_content[OF xs]) simp
  then have d: "dll (bufs ?t) (i # remove1 i xs)" using dll_move_front[OF _ i(1)] by simp
  have sc: "same_content (bufs ?t ! j) (?r ! j)" for j using same_content_moves[of i ?r j] by simp
  have c: "b_flags (bufs ?t ! j) = b_flags (bufs s ! j)" "b_dev (bufs ?t ! j) = b_dev (bufs s ! j)"
    "b_blockno (bufs ?t ! j) = b_blockno (bufs s ! j)" "b_data (bufs ?t ! j) = b_data (bufs s ! j)" for j
    using sc[of j] by (simp_all add: same_content_def nth_upd_at_field)
  have rc: "b_refcnt (bufs ?t ! j) = (if j = i then 0 else b_refcnt (bufs s ! j))" for j
    using sc[of j] i(1) inv(8) by (simp add: same_content_def)
  have ci: "caches (bufs ?t) j b' = caches (bufs s) j b'" for j b' unfolding caches_def c ..
  have dirt: "b \<in> bdirty s \<longleftrightarrow> dirty (bufs s ! i)" by (rule bdirty_caches[OF assms(1,2)])
  have pids: "map pid (ptable ?t) = map pid (ptable s)" by (simp add: wake_def)
  have "bio_inv p ?t"
  proof (rule bio_inv_change[OF assms(1) i(1)])
    show "\<exists>ys. dll (bufs ?t) ys" using d by blast
    show "buf_ok ?t p i"
      using inv(2)[OF i(1)] assms(4) dirt view_caches[OF assms(1,2)] i(3) unfolding buf_ok_def c rc by simp
    show "same_content (bufs ?t ! j) (bufs s ! j) \<and> slocks ?t (SL_buf j) = slocks s (SL_buf j)" if "j < NBUF" "j \<noteq> i" for j
      using c[of j] rc[of j] that by (simp add: same_content_def)
    show "disk ?t (b_blockno (bufs s ! j)) = disk s (b_blockno (bufs s ! j)) \<and> b_blockno (bufs ?t ! i) \<noteq> b_blockno (bufs s ! j)"
      if "j < NBUF" "j \<noteq> i" "b_dev (bufs s ! j) = 1" for j
      using that i inv(3)[OF assms(2), of j] unfolding c by (auto simp: caches_def)
  qed (use inv pids in simp_all)
  moreover have "bview ?t = bview s" unfolding bview_def ci c by (rule ext) (simp split: option.split)
  moreover have "bdirty ?t = bdirty s" unfolding bdirty_def ci c by simp
  moreover have "blocked ?t = blocked s - {b}"
  proof (rule set_eqI)
    fix b'
    have "b' \<in> blocked ?t \<longleftrightarrow> (\<exists>j. caches (bufs s) j b' \<and> blk s j \<and> j \<noteq> i)" unfolding blocked_def mem_Collect_eq ci by auto
    also have "\<dots> \<longleftrightarrow> b' \<in> blocked s \<and> b' \<noteq> b" unfolding blocked_def mem_Collect_eq using inv(3) assms(2) i(3) by (metis caches_def)
    finally show "b' \<in> blocked ?t \<longleftrightarrow> b' \<in> blocked s - {b}" by simp
  qed
  moreover have "bio_frame s ?t" using pids by (simp add: bio_frame_def)
  moreover have "holds ?t j b'" if "holds s j b'" "b' \<noteq> b" for j b' using that i(3) unfolding holds_def ci by (auto simp: caches_def)
  ultimately show ?thesis using brelse_run[OF assms(1-3)] by (intro exI[of _ ?t]) simp
qed

subsection \<open>The cache as an interface\<close>

text \<open>
  What the log and the file system rely on. The state is seen through the contents of blocks
  (\<open>view\<close>), the disk (\<open>dsk\<close>), its history of writes (\<open>tr\<close>), the dirty and the held blocks; \<open>cap\<close> is the
  number of buffers. A held buffer may be read and written; a block that is released must be
  dirty (pinned by the log) or agree with the disk.
\<close>

locale buffer_cache =
  fixes rd :: "u32 \<Rightarrow> ('s, nat) kprog"
    and getd :: "nat \<Rightarrow> ('s, u8 list) kprog"
    and setd :: "nat \<Rightarrow> u8 list \<Rightarrow> ('s, unit) kprog"
    and wr :: "nat \<Rightarrow> ('s, unit) kprog"
    and rl :: "nat \<Rightarrow> ('s, unit) kprog"
    and inv :: "'s \<Rightarrow> bool"
    and hold :: "'s \<Rightarrow> nat \<Rightarrow> u32 \<Rightarrow> bool"
    and view :: "'s \<Rightarrow> u32 \<Rightarrow> u8 list"
    and dsk :: "'s \<Rightarrow> u32 \<Rightarrow> u8 list"
    and tr :: "'s \<Rightarrow> (u32 \<times> u8 list) list"
    and dirt :: "'s \<Rightarrow> u32 set"
    and lck :: "'s \<Rightarrow> u32 set"
    and sz :: "'s \<Rightarrow> u32"
    and frame :: "'s \<Rightarrow> 's \<Rightarrow> bool"
    and cap :: nat
  assumes rd_law: "inv s \<Longrightarrow> b < sz s \<Longrightarrow> b \<notin> lck s \<Longrightarrow> b \<in> dirt s \<or> card (dirt s \<union> lck s) < cap \<Longrightarrow>
      wp (rd b) (\<lambda>i t. inv t \<and> hold t i b \<and> view t = view s \<and> dsk t = dsk s \<and> tr t = tr s \<and> dirt t = dirt s \<and>
        lck t = insert b (lck s) \<and> (\<forall>j b'. hold s j b' \<longrightarrow> hold t j b') \<and> frame s t) s"
    and getd_law: "inv s \<Longrightarrow> hold s i b \<Longrightarrow> getd i s = Ok (view s b) s"
    and setd_law: "inv s \<Longrightarrow> hold s i b \<Longrightarrow> length d = BSIZE \<Longrightarrow>
      wp (setd i d) (\<lambda>_ t. inv t \<and> view t = (view s)(b := d) \<and> dsk t = dsk s \<and> tr t = tr s \<and> dirt t = dirt s \<and>
        lck t = lck s \<and> (\<forall>j b'. hold t j b' = hold s j b') \<and> frame s t) s"
    and wr_law: "inv s \<Longrightarrow> hold s i b \<Longrightarrow>
      wp (wr i) (\<lambda>_ t. inv t \<and> view t = view s \<and> dsk t = (dsk s)(b := view s b) \<and> tr t = tr s @ [(b, view s b)] \<and>
        dirt t = dirt s - {b} \<and> lck t = lck s \<and> (\<forall>j b'. hold t j b' = hold s j b') \<and> frame s t) s"
    and rl_law: "inv s \<Longrightarrow> hold s i b \<Longrightarrow> b \<in> dirt s \<or> view s b = dsk s b \<Longrightarrow>
      wp (rl i) (\<lambda>_ t. inv t \<and> view t = view s \<and> dsk t = dsk s \<and> tr t = tr s \<and> dirt t = dirt s \<and>
        lck t = lck s - {b} \<and> (\<forall>j b'. hold s j b' \<and> b' \<noteq> b \<longrightarrow> hold t j b') \<and> frame s t) s"
    and frame_trans: "frame s t \<Longrightarrow> frame t u \<Longrightarrow> frame s u"
    and frame_sz: "frame s t \<Longrightarrow> sz t = sz s"
    and view_len: "inv s \<Longrightarrow> length (view s b) = BSIZE"

text \<open>Three pieces of code that recur: copying one block over another, changing a block on disk, reading one.\<close>

definition copy_first where
  "copy_first rd getd setd wr rl l h = kbind (rd l) (\<lambda>lb. kbind (rd h) (\<lambda>db.
     kbind (getd lb) (\<lambda>x. kseq [setd db x, wr db, rl lb, rl db])))"

definition copy_second where
  "copy_second rd getd setd wr rl l h = kbind (rd l) (\<lambda>to. kbind (rd h) (\<lambda>from.
     kbind (getd from) (\<lambda>x. kseq [setd to x, wr to, rl from, rl to])))"

definition change_block where
  "change_block rd getd setd wr rl b g = kbind (rd b) (\<lambda>i. kbind (getd i) (\<lambda>x. kseq [setd i (g x), wr i, rl i]))"

context buffer_cache
begin

text \<open>The effect of a write through the cache.\<close>

definition wrote :: "u32 \<Rightarrow> u8 list \<Rightarrow> 's \<Rightarrow> 's \<Rightarrow> bool" where
  "wrote b d s t \<longleftrightarrow> inv t \<and> view t = (view s)(b := d) \<and> dsk t = (dsk s)(b := d) \<and> tr t = tr s @ [(b, d)] \<and>
     dirt t = dirt s - {b} \<and> lck t = lck s \<and> frame s t"

lemma getd_wp: "inv s \<Longrightarrow> hold s i b \<Longrightarrow> wp (getd i) Q s = Q (view s b) s"
  by (simp add: wp_def getd_law)

lemma copy_first_law:
  assumes "inv s" "l < sz s" "h < sz s" "l \<noteq> h" "l \<notin> lck s" "h \<notin> lck s" "view s l = dsk s l"
    "card (dirt s \<union> lck s) < cap" "h \<in> dirt s \<or> card (insert l (dirt s \<union> lck s)) < cap"
  shows "\<exists>t. copy_first rd getd setd wr rl l h s = Ok () t \<and> wrote h (view s l) s t"
proof -
  obtain lb t where t: "rd l s = Ok lb t" "inv t" "hold t lb l" "view t = view s" "dsk t = dsk s" "tr t = tr s" "dirt t = dirt s"
      "lck t = insert l (lck s)" "frame s t"
    using rd_law[OF assms(1,2,5)] assms(8) unfolding wp_Ok by blast
  obtain db u where u: "rd h t = Ok db u" "inv u" "hold u db h" "view u = view s" "dsk u = dsk s" "tr u = tr s" "dirt u = dirt s"
      "lck u = insert h (insert l (lck s))" "hold u lb l" "frame s u"
    using rd_law[OF t(2), of h] assms(3,4,6,9) t frame_sz[OF t(9)] frame_trans[OF t(9)] unfolding wp_Ok by (auto simp: insert_commute)
  obtain v where v: "setd db (view s l) u = Ok () v" "inv v" "view v = (view s)(h := view s l)" "dsk v = dsk s" "tr v = tr s"
      "dirt v = dirt s" "lck v = insert h (insert l (lck s))" "hold v lb l" "hold v db h" "frame s v"
    using setd_law[OF u(2,3), of "view s l"] view_len[OF assms(1)] u frame_trans[OF u(10)] unfolding wp_Ok by auto
  obtain w where w: "wr db v = Ok () w" "inv w" "view w = (view s)(h := view s l)" "dsk w = (dsk s)(h := view s l)"
      "tr w = tr s @ [(h, view s l)]" "dirt w = dirt s - {h}" "lck w = insert h (insert l (lck s))" "hold w lb l" "hold w db h" "frame s w"
    using wr_law[OF v(2,9)] v frame_trans[OF v(10)] unfolding wp_Ok by auto
  have "insert h (insert l (lck s)) - {l} = insert h (lck s)" using assms(4,5) by auto
  then obtain x where x: "rl lb w = Ok () x" "inv x" "view x = view w" "dsk x = dsk w" "tr x = tr w" "dirt x = dirt w"
      "lck x = insert h (lck s)" "hold x db h" "frame s x"
    using rl_law[OF w(2,8)] w assms(4,5,7) frame_trans[OF w(10)] unfolding wp_Ok by auto
  obtain y where y: "rl db x = Ok () y" "inv y" "view y = view w" "dsk y = dsk w" "tr y = tr w" "dirt y = dirt w"
      "lck y = lck s" "frame s y"
    using rl_law[OF x(2,8)] x w assms(6) frame_trans[OF x(9)] unfolding wp_Ok by auto
  show ?thesis
    using t(1) u(1) v(1) w x(1) y getd_law[OF u(2,9)] u(4)
    by (intro exI[of _ y]) (simp add: copy_first_def wrote_def)
qed

lemma copy_second_law:
  assumes "inv s" "l < sz s" "h < sz s" "l \<noteq> h" "l \<notin> lck s" "h \<notin> lck s" "h \<in> dirt s \<or> view s h = dsk s h"
    "card (dirt s \<union> lck s) < cap" "h \<in> dirt s \<or> card (insert l (dirt s \<union> lck s)) < cap"
  shows "\<exists>t. copy_second rd getd setd wr rl l h s = Ok () t \<and> wrote l (view s h) s t"
proof -
  obtain to t where t: "rd l s = Ok to t" "inv t" "hold t to l" "view t = view s" "dsk t = dsk s" "tr t = tr s" "dirt t = dirt s"
      "lck t = insert l (lck s)" "frame s t"
    using rd_law[OF assms(1,2,5)] assms(8) unfolding wp_Ok by blast
  obtain fr u where u: "rd h t = Ok fr u" "inv u" "hold u fr h" "view u = view s" "dsk u = dsk s" "tr u = tr s" "dirt u = dirt s"
      "lck u = insert h (insert l (lck s))" "hold u to l" "frame s u"
    using rd_law[OF t(2), of h] assms(3,4,6,9) t frame_sz[OF t(9)] frame_trans[OF t(9)] unfolding wp_Ok by (auto simp: insert_commute)
  obtain v where v: "setd to (view s h) u = Ok () v" "inv v" "view v = (view s)(l := view s h)" "dsk v = dsk s" "tr v = tr s"
      "dirt v = dirt s" "lck v = insert h (insert l (lck s))" "hold v to l" "hold v fr h" "frame s v"
    using setd_law[OF u(2,9), of "view s h"] view_len[OF assms(1)] u frame_trans[OF u(10)] unfolding wp_Ok by auto
  obtain w where w: "wr to v = Ok () w" "inv w" "view w = (view s)(l := view s h)" "dsk w = (dsk s)(l := view s h)"
      "tr w = tr s @ [(l, view s h)]" "dirt w = dirt s - {l}" "lck w = insert h (insert l (lck s))" "hold w to l" "hold w fr h" "frame s w"
    using wr_law[OF v(2,8)] v frame_trans[OF v(10)] unfolding wp_Ok by auto
  obtain x where x: "rl fr w = Ok () x" "inv x" "view x = view w" "dsk x = dsk w" "tr x = tr w" "dirt x = dirt w"
      "lck x = insert l (lck s)" "hold x to l" "frame s x"
    using rl_law[OF w(2,9)] w assms(4,6,7) frame_trans[OF w(10)] unfolding wp_Ok by (auto simp: insert_commute)
  obtain y where y: "rl to x = Ok () y" "inv y" "view y = view w" "dsk y = dsk w" "tr y = tr w" "dirt y = dirt w"
      "lck y = lck s" "frame s y"
    using rl_law[OF x(2,8)] x w assms(5) frame_trans[OF x(9)] unfolding wp_Ok by auto
  show ?thesis
    using t(1) u(1) v(1) w x(1) y getd_law[OF u(2,3)] u(4)
    by (intro exI[of _ y]) (simp add: copy_second_def wrote_def)
qed

lemma change_block_law:
  assumes "inv s" "b < sz s" "b \<notin> lck s" "card (dirt s \<union> lck s) < cap" "length (g (view s b)) = BSIZE"
  shows "\<exists>t. change_block rd getd setd wr rl b g s = Ok () t \<and> wrote b (g (view s b)) s t"
proof -
  obtain i t where t: "rd b s = Ok i t" "inv t" "hold t i b" "view t = view s" "dsk t = dsk s" "tr t = tr s" "dirt t = dirt s"
      "lck t = insert b (lck s)" "frame s t"
    using rd_law[OF assms(1,2,3)] assms(4) unfolding wp_Ok by blast
  obtain v where v: "setd i (g (view s b)) t = Ok () v" "inv v" "view v = (view s)(b := g (view s b))" "dsk v = dsk s" "tr v = tr s"
      "dirt v = dirt s" "lck v = insert b (lck s)" "hold v i b" "frame s v"
    using setd_law[OF t(2,3) assms(5)] t frame_trans[OF t(9)] unfolding wp_Ok by auto
  obtain w where w: "wr i v = Ok () w" "inv w" "view w = (view s)(b := g (view s b))" "dsk w = (dsk s)(b := g (view s b))"
      "tr w = tr s @ [(b, g (view s b))]" "dirt w = dirt s - {b}" "lck w = insert b (lck s)" "hold w i b" "frame s w"
    using wr_law[OF v(2,8)] v frame_trans[OF v(9)] unfolding wp_Ok by auto
  obtain y where y: "rl i w = Ok () y" "inv y" "view y = view w" "dsk y = dsk w" "tr y = tr w" "dirt y = dirt w" "lck y = lck s" "frame s y"
    using rl_law[OF w(2,8)] w assms(3) frame_trans[OF w(9)] unfolding wp_Ok by auto
  show ?thesis
    using t(1) v(1) w y getd_law[OF t(2,3)] t(4) by (intro exI[of _ y]) (simp add: change_block_def wrote_def)
qed

end

definition get_data :: "nat \<Rightarrow> ('z bio_scheme, u8 list) kprog" where
  "get_data i = kgets (\<lambda>s. b_data (bufs s ! i))"

lemma bread_wp:
  assumes "bio_inv p s" "b < disksize s" "b \<notin> blocked s" "b \<in> bdirty s \<or> card (bdirty s \<union> blocked s) < NBUF"
  shows "wp (bread 1 b) (\<lambda>i t. bio_inv p t \<and> holds t i b \<and> bview t = bview s \<and> disk t = disk s \<and> dtrace t = dtrace s \<and>
    bdirty t = bdirty s \<and> blocked t = insert b (blocked s) \<and> (\<forall>j b'. holds s j b' \<longrightarrow> holds t j b') \<and> bio_frame s t) s"
  using bread_spec[OF assms] unfolding wp_Ok bread_post_def by blast

lemma get_data_run: "bio_inv p s \<Longrightarrow> holds s i b \<Longrightarrow> get_data i s = Ok (bview s b) s"
  using view_caches[of p s i b] by (simp add: get_data_def holds_def)

lemma set_data_wp:
  assumes "bio_inv p s" "holds s i b" "length d = BSIZE"
  shows "wp (set_data i d) (\<lambda>_ t. bio_inv p t \<and> bview t = (bview s)(b := d) \<and> disk t = disk s \<and> dtrace t = dtrace s \<and>
    bdirty t = bdirty s \<and> blocked t = blocked s \<and> (\<forall>j b'. holds t j b' = holds s j b') \<and> bio_frame s t) s"
  using set_data_spec[OF assms(1) _ _ assms(3)] assms(2) unfolding wp_Ok held_post_def holds_def[of s i] by blast

lemma bwrite_wp:
  assumes "bio_inv p s" "holds s i b"
  shows "wp (bwrite i) (\<lambda>_ t. bio_inv p t \<and> bview t = bview s \<and> disk t = (disk s)(b := bview s b) \<and>
    dtrace t = dtrace s @ [(b, bview s b)] \<and> bdirty t = bdirty s - {b} \<and> blocked t = blocked s \<and>
    (\<forall>j b'. holds t j b' = holds s j b') \<and> bio_frame s t) s"
  using bwrite_spec[OF assms(1)] assms(2) unfolding wp_Ok held_post_def holds_def[of s i] by blast

lemma brelse_wp:
  assumes "bio_inv p s" "holds s i b" "b \<in> bdirty s \<or> bview s b = disk s b"
  shows "wp (brelse i) (\<lambda>_ t. bio_inv p t \<and> bview t = bview s \<and> disk t = disk s \<and> dtrace t = dtrace s \<and>
    bdirty t = bdirty s \<and> blocked t = blocked s - {b} \<and> (\<forall>j b'. holds s j b' \<and> b' \<noteq> b \<longrightarrow> holds t j b') \<and> bio_frame s t) s"
  using brelse_spec[OF assms(1) _ _ assms(3)] assms(2) unfolding wp_Ok holds_def[of s i] by blast

lemma frame_disksize: "bio_frame s t \<Longrightarrow> disksize t = disksize s"
  by (simp add: bio_frame_def)

interpretation bcache: buffer_cache "bread 1" get_data set_data bwrite brelse "bio_inv p" holds bview disk dtrace
    bdirty blocked disksize bio_frame NBUF for p
  by unfold_locales
    (rule bread_wp get_data_run set_data_wp bwrite_wp brelse_wp bio_frame_trans frame_disksize bview_len; assumption)+

subsection \<open>Start-up\<close>

text \<open>The effect of \<open>binit\<close> on one buffer is to push it to the front.\<close>

lemma binit_body:
  assumes "b < NBUF" "length (bufs s) = Suc NBUF"
  shows "kbind (get_buf NBUF) (\<lambda>h. kseq [
         upd_buf b (\<lambda>x. x\<lparr>b_next := b_next h\<rparr>),
         upd_buf b (\<lambda>x. x\<lparr>b_prev := NBUF\<rparr>),
         initsleeplock (SL_buf b) ''buffer'',
         upd_buf (b_next h) (\<lambda>x. x\<lparr>b_prev := b\<rparr>),
         upd_buf NBUF (\<lambda>x. x\<lparr>b_next := b\<rparr>)]) s =
    Ok () (s\<lparr>bufs := push_front b (bufs s), held := removeAll (LK_sleep (SL_buf b)) (held s),
      slocks := (slocks s)(SL_buf b := (slocks s (SL_buf b))\<lparr>slk_name := ''buffer'', slk_locked := False, slk_pid := 0\<rparr>)\<rparr>)"
  using assms by (simp add: initsleeplock_def push_front_def Let_def)

definition binit_inv :: "'z bio_scheme \<Rightarrow> nat list \<Rightarrow> 'z bio_scheme \<Rightarrow> bool" where
  "binit_inv s done t \<longleftrightarrow> length (bufs t) = Suc NBUF \<and> seg (bufs t) NBUF (rev done) NBUF \<and>
     (\<forall>i<NBUF. same_content (bufs t ! i) (bufs s ! i)) \<and> (\<forall>i\<in>set done. \<not> blk t i) \<and>
     (\<exists>bs h sl. t = s\<lparr>bufs := bs, held := h, slocks := sl\<rparr> \<and> set h \<subseteq> set (held s))"

lemma same_content_push: "same_content (push_front b bs ! i) (bs ! i)"
  by (simp add: same_content_def push_front_def Let_def nth_upd_at_field)

lemma same_content_trans: "same_content x y \<Longrightarrow> same_content y z \<Longrightarrow> same_content x z"
  by (simp add: same_content_def)

lemma binit_step:
  assumes "binit_inv s done t" "b < NBUF" "b \<notin> set done" "distinct done" "set done \<subseteq> {..<NBUF}"
  shows "binit_inv s (done @ [b]) (t\<lparr>bufs := push_front b (bufs t), held := removeAll (LK_sleep (SL_buf b)) (held t),
      slocks := (slocks t)(SL_buf b := (slocks t (SL_buf b))\<lparr>slk_name := ''buffer'', slk_locked := False, slk_pid := 0\<rparr>)\<rparr>)"
    (is "binit_inv s _ ?u")
proof -
  have I: "length (bufs t) = Suc NBUF" "seg (bufs t) NBUF (rev done) NBUF" "\<And>i. i < NBUF \<Longrightarrow> same_content (bufs t ! i) (bufs s ! i)"
    "\<And>i. i \<in> set done \<Longrightarrow> \<not> blk t i"
    using assms(1) by (auto simp: binit_inv_def)
  obtain bs h sl where t: "t = s\<lparr>bufs := bs, held := h, slocks := sl\<rparr>" "set h \<subseteq> set (held s)"
    using assms(1) by (auto simp: binit_inv_def)
  have "seg (bufs ?u) NBUF (rev (done @ [b])) NBUF"
    using seg_push_front[OF I(2), of b] assms(2-5) I(1) by auto
  moreover have "same_content (bufs ?u ! i) (bufs s ! i)" if "i < NBUF" for i
    using same_content_trans[OF same_content_push I(3)[OF that], of b] by simp
  moreover have "\<exists>bs' h' sl'. ?u = s\<lparr>bufs := bs', held := h', slocks := sl'\<rparr> \<and> set h' \<subseteq> set (held s)"
    using t(2) by (intro exI[of _ "bufs ?u"] exI[of _ "held ?u"] exI[of _ "slocks ?u"]) (auto simp: t(1))
  ultimately show ?thesis using I(1,4) unfolding binit_inv_def by auto
qed

lemma binit_run:
  assumes "length (bufs s) = Suc NBUF" "held s = []"
  shows "\<exists>t. binit s = Ok () t \<and> binit_inv s [0..<NBUF] t"
proof -
  let ?s0 = "s\<lparr>held := [], bufs := upd_at NBUF (\<lambda>h. h\<lparr>b_prev := NBUF, b_next := NBUF\<rparr>) (bufs s)\<rparr>"
  let ?f = "\<lambda>b. kbind (get_buf NBUF) (\<lambda>h. kseq [
         upd_buf b (\<lambda>x. x\<lparr>b_next := b_next h\<rparr>),
         upd_buf b (\<lambda>x. x\<lparr>b_prev := NBUF\<rparr>),
         initsleeplock (SL_buf b) ''buffer'',
         upd_buf (b_next h) (\<lambda>x. x\<lparr>b_prev := b\<rparr>),
         upd_buf NBUF (\<lambda>x. x\<lparr>b_next := b\<rparr>)])"
  have "binit_inv s [] ?s0"
    unfolding binit_inv_def
  proof (intro conjI)
    show "\<exists>bs h sl. ?s0 = s\<lparr>bufs := bs, held := h, slocks := sl\<rparr> \<and> set h \<subseteq> set (held s)"
      by (intro exI[of _ "bufs ?s0"] exI[of _ "[]"] exI[of _ "slocks s"]) simp
  qed (use assms in \<open>auto simp: nth_upd_at\<close>)
  then have "wp (kfor [0..<NBUF] ?f) (\<lambda>_. binit_inv s [0..<NBUF]) ?s0"
  proof (rule wp_kfor)
    fix don x todo t assume x: "[0..<NBUF] = don @ x # todo" and I: "binit_inv s don t"
    have x': "x < NBUF" "x \<notin> set don" "distinct don" "set don \<subseteq> {..<NBUF}"
      using arg_cong[OF x, of set] arg_cong[OF x, of distinct] by auto
    have "length (bufs t) = Suc NBUF" using I by (simp add: binit_inv_def)
    note b = binit_body[OF x'(1) this]
    show "wp (?f x) (\<lambda>_. binit_inv s (don @ [x])) t"
      unfolding wp_Ok b using binit_step[OF I x'] by blast
  qed
  then obtain t where "kfor [0..<NBUF] ?f ?s0 = Ok () t" "binit_inv s [0..<NBUF] t" unfolding wp_Ok by auto
  then show ?thesis using assms(2)
    by (intro exI[of _ t]) (simp add: binit_def lk_init_def)
qed

lemma binit_ok:
  assumes "length (bufs s) = Suc NBUF" "held s = []" "\<And>b. length (disk s b) = BSIZE"
    "\<And>i. i < NBUF \<Longrightarrow> b_flags (bufs s ! i) = 0 \<and> b_dev (bufs s ! i) = 0 \<and> b_refcnt (bufs s ! i) = 0 \<and> length (b_data (bufs s ! i)) = BSIZE"
    "p < length (ptable s)"
  shows "\<exists>t. binit s = Ok () t \<and> dll (bufs t) (rev [0..<NBUF]) \<and> bio_inv p (t\<lparr>curproc := Some p\<rparr>) \<and>
    bview (t\<lparr>curproc := Some p\<rparr>) = disk s \<and> disksize t = disksize s \<and>
    (\<forall>i b. \<not> caches (bufs t) i b) \<and> bio.more t = bio.more s"
proof -
  obtain t where t: "binit s = Ok () t" "binit_inv s [0..<NBUF] t" using binit_run[OF assms(1,2)] by blast
  let ?t = "t\<lparr>curproc := Some p\<rparr>"
  have same: "disk t = disk s" "disksize t = disksize s" "ptable t = ptable s" "held t = []" "bio.more t = bio.more s" using t(2) assms(2) by (auto simp: binit_inv_def)
  have d: "dll (bufs t) (rev [0..<NBUF])" using t(2) by (auto simp: binit_inv_def dll_def)
  have c: "b_flags (bufs t ! i) = 0 \<and> b_dev (bufs t ! i) = 0 \<and> b_refcnt (bufs t ! i) = 0 \<and> length (b_data (bufs t ! i)) = BSIZE \<and> \<not> blk t i"
    if "i < NBUF" for i using t(2) assms(4)[OF that] that by (auto simp: binit_inv_def same_content_def)
  then have n: "\<not> caches (bufs t) i b" for i b by (auto simp: caches_def)
  have "buf_ok ?t p i" if "i < NBUF" for i using c[OF that] by (simp add: buf_ok_def)
  moreover have "bview ?t = disk s" by (rule ext) (simp add: view_none n same(1))
  ultimately show ?thesis using t(1) d same assms(3,5) n by (intro exI[of _ t]) (auto simp: bio_inv_def)
qed

definition demo_bio :: bio where
  "demo_bio = \<lparr>held = [], kmemory = (\<lambda>_. 0), kend = 0x80100000, use_lock = True, freelist = 0,
     kdata = 0x80100000, kpgdir = 0, cr3 = 0, gdt = [], cpu_ts = undefined, ts_base = 0, kout = [],
     ptable = [proc0], nextpid = 2, initproc = None, curproc = None, lfsr = lfsr_init, sym_trapret = 0, sym_forkret = 0,
     mailboxes = [], slocks = (\<lambda>_. \<lparr>slk_locked = False, slk_name = [], slk_pid = 0\<rparr>),
     bufs = replicate (Suc NBUF) \<lparr>b_flags = 0, b_dev = 0, b_blockno = 0, b_refcnt = 0, b_prev = 0, b_next = 0, b_data = replicate BSIZE 0\<rparr>,
     disk = (\<lambda>b. replicate BSIZE (ucast b)), disksize = 1000, dtrace = []\<rparr>"

lemma demo_bufs: "i \<le> NBUF \<Longrightarrow> bufs demo_bio ! i = \<lparr>b_flags = 0, b_dev = 0, b_blockno = 0, b_refcnt = 0, b_prev = 0, b_next = 0, b_data = replicate BSIZE 0\<rparr>"
  by (simp add: demo_bio_def del: replicate_Suc)

lemma demo_start:
  "length (bufs demo_bio) = Suc NBUF" "held demo_bio = []" "length (disk demo_bio b) = BSIZE" "0 < length (ptable demo_bio)"
  "disksize demo_bio = 1000"
  "i < NBUF \<Longrightarrow> b_flags (bufs demo_bio ! i) = 0 \<and> b_dev (bufs demo_bio ! i) = 0 \<and> b_refcnt (bufs demo_bio ! i) = 0 \<and>
    length (b_data (bufs demo_bio ! i)) = BSIZE"
  by (simp_all add: demo_bufs) (simp_all add: demo_bio_def)

text \<open>The cache after start-up, when process 0 runs: nothing is cached, dirty or held.\<close>

lemma demo_booted:
  "\<exists>s :: bio. bio_inv 0 s \<and> dll (bufs s) (rev [0..<NBUF]) \<and> disksize s = 1000 \<and> bdirty s = {} \<and> blocked s = {} \<and> (\<forall>i b. \<not> caches (bufs s) i b) \<and>
     bview s = disk demo_bio"
proof -
  obtain t where t: "binit demo_bio = Ok () t" "dll (bufs t) (rev [0..<NBUF])" "bio_inv 0 (t\<lparr>curproc := Some 0\<rparr>)"
    "bview (t\<lparr>curproc := Some 0\<rparr>) = disk demo_bio" "disksize t = 1000" "\<forall>i b. \<not> caches (bufs t) i b"
    using binit_ok[OF demo_start(1,2,3,6,4)] demo_start(5) by auto
  then show ?thesis by (intro exI[of _ "t\<lparr>curproc := Some 0\<rparr>"]) (auto simp: bdirty_def blocked_def)
qed

text \<open>
  C26. At start-up \<open>binit\<close> builds the list of all buffers and leaves the cache in its invariant, for
  whichever process runs next, with the disk's own contents visible through it.
\<close>

theorem binit_establishes:
  assumes "length (bufs s) = Suc NBUF" "held s = []" "\<And>b. length (disk s b) = BSIZE"
    "\<And>i. i < NBUF \<Longrightarrow> b_flags (bufs s ! i) = 0 \<and> b_dev (bufs s ! i) = 0 \<and> b_refcnt (bufs s ! i) = 0 \<and> length (b_data (bufs s ! i)) = BSIZE"
    "p < length (ptable s)"
  shows "\<exists>t. binit s = Ok () t \<and> dll (bufs t) (rev [0..<NBUF]) \<and> bio_inv p (t\<lparr>curproc := Some p\<rparr>) \<and>
    bview (t\<lparr>curproc := Some p\<rparr>) = disk s"
  using binit_ok[OF assms] by blast

theorem binit_establishes_witness:
  "\<exists>t. binit demo_bio = Ok () t \<and> dll (bufs t) (rev [0..<NBUF]) \<and> bio_inv 0 (t\<lparr>curproc := Some 0\<rparr>) \<and>
    bview (t\<lparr>curproc := Some 0\<rparr>) = disk demo_bio"
  using binit_establishes[OF demo_start(1,2,3,6,4)] .

text \<open>
  C24. \<open>bread\<close> returns a locked buffer with the latest contents of the block, whether they come from
  the cache or from the disk, and changes neither the contents of any block nor the disk.
\<close>

theorem bread_latest:
  assumes "bio_inv p s" "b < disksize s" "b \<notin> blocked s" "b \<in> bdirty s \<or> card (bdirty s \<union> blocked s) < NBUF"
  shows "\<exists>i t. bread 1 b s = Ok i t \<and> bio_inv p t \<and> locked_by t (SL_buf i) p \<and> b_data (bufs t ! i) = bview s b \<and>
    bview t = bview s \<and> disk t = disk s \<and> blocked t = insert b (blocked s)"
proof -
  obtain i t where t: "bread 1 b s = Ok i t" "bread_post p s b i t" using bread_spec[OF assms] by blast
  then have h: "bio_inv p t" "caches (bufs t) i b" "blk t i" "bview t = bview s" by (auto simp: bread_post_def holds_def)
  have "buf_ok t p i" using bio_invD(2)[OF h(1)] caches_lt[OF h(2)] .
  then have "locked_by t (SL_buf i) p" using h(3) by (simp add: buf_ok_def)
  then show ?thesis using t h view_caches[OF h(1,2)] by (auto simp: bread_post_def)
qed

theorem bread_latest_witness:
  "\<exists>(s :: bio) i t. bio_inv 0 s \<and> bread 1 7 s = Ok i t \<and> locked_by t (SL_buf i) 0 \<and> b_data (bufs t ! i) = replicate BSIZE 7"
proof -
  obtain s :: bio where s: "bio_inv 0 s" "disksize s = 1000" "bdirty s = {}" "blocked s = {}" "bview s = disk demo_bio"
    using demo_booted by blast
  have "7 < disksize s" "7 \<notin> blocked s" "card (bdirty s \<union> blocked s) < NBUF" using s by (simp_all add: NBUF_def MAXOPBLOCKS_def)
  moreover have "bview s 7 = replicate BSIZE 7" by (simp add: s(5) demo_bio_def)
  ultimately show ?thesis using bread_latest[OF s(1), of 7] s(1) by auto
qed

text \<open>
  C25. The cache evicts the least recently used buffer: releasing a buffer moves it to the front of
  the list, and a block that is not cached is read into the buffer furthest from the front among
  those that are neither held nor dirty.
\<close>

theorem bcache_lru:
  assumes "bio_inv p s" "dll (bufs s) xs"
  shows "(caches (bufs s) i b \<and> blk s i \<longrightarrow> (\<exists>t. brelse i s = Ok () t \<and> dll (bufs t) (i # remove1 i xs))) \<and>
    ((\<forall>j. \<not> caches (bufs s) j b) \<and> card (bdirty s \<union> blocked s) < NBUF \<and> b < disksize s \<longrightarrow>
      (\<exists>us k vs t. xs = us @ k # vs \<and> \<not> blk s k \<and> \<not> dirty (bufs s ! k) \<and> (\<forall>j\<in>set vs. blk s j \<or> dirty (bufs s ! j)) \<and>
        bread 1 b s = Ok k t \<and> caches (bufs t) k b \<and> dll (bufs t) xs))"
proof (intro conjI impI)
  assume "caches (bufs s) i b \<and> blk s i"
  then have c: "caches (bufs s) i b" "blk s i" by auto
  have "dll (upd_at i (\<lambda>x. x\<lparr>b_refcnt := 0\<rparr>) (bufs s)) xs" by (rule dll_content[OF assms(2)]) simp
  then show "\<exists>t. brelse i s = Ok () t \<and> dll (bufs t) (i # remove1 i xs)"
    using brelse_run[OF assms(1) c] dll_move_front[OF _ caches_lt[OF c(1)]] by simp
next
  assume a: "(\<forall>j. \<not> caches (bufs s) j b) \<and> card (bdirty s \<union> blocked s) < NBUF \<and> b < disksize s"
  let ?f = "\<lambda>x. x\<lparr>b_dev := 1, b_blockno := b, b_refcnt := 1, b_data := disk s b, b_flags := B_VALID\<rparr>"
  obtain k where k: "k < NBUF" "find (\<lambda>j. b_refcnt (bufs s ! j) = 0 \<and> b_flags (bufs s ! j) AND B_DIRTY = 0) (rev xs) = Some k"
    "\<not> blk s k" "\<not> dirty (bufs s ! k)" "bread 1 b s = Ok k (s\<lparr>slocks := lock_buf p k s, bufs := upd_at k ?f (bufs s)\<rparr>)"
    using bread_miss_lru[OF assms(1) _ _ _ assms(2), of b] a by auto
  from find_split[OF k(2)] obtain vs us where v: "rev xs = vs @ k # us"
    "\<forall>y\<in>set vs. \<not> (b_refcnt (bufs s ! y) = 0 \<and> b_flags (bufs s ! y) AND B_DIRTY = 0)" by blast
  then have x: "xs = rev us @ k # rev vs" by (metis append.assoc append_Cons append_Nil rev.simps(2) rev_append rev_rev_ident)
  have "blk s y \<or> dirty (bufs s ! y)" if "y \<in> set vs" for y
  proof -
    have "y < NBUF" using that x dllD(3)[OF assms(2), of y] by simp
    then show ?thesis using bio_invD(2)[OF assms(1), of y] v(2) that by (auto simp: buf_ok_def)
  qed
  then have "\<forall>y\<in>set (rev vs). blk s y \<or> dirty (bufs s ! y)" by simp
  moreover have "dll (upd_at k ?f (bufs s)) xs" by (rule dll_content[OF assms(2)]) simp
  moreover have "caches (upd_at k ?f (bufs s)) k b" using k(1) bio_invD(8)[OF assms(1)] by (simp add: caches_def)
  ultimately show "\<exists>us k vs t. xs = us @ k # vs \<and> \<not> blk s k \<and> \<not> dirty (bufs s ! k) \<and> (\<forall>j\<in>set vs. blk s j \<or> dirty (bufs s ! j)) \<and>
        bread 1 b s = Ok k t \<and> caches (bufs t) k b \<and> dll (bufs t) xs"
    using k(3,4,5) x
    by (intro exI[of _ "rev us"] exI[of _ k] exI[of _ "rev vs"] exI[of _ "s\<lparr>slocks := lock_buf p k s, bufs := upd_at k ?f (bufs s)\<rparr>"]) simp
qed

theorem bcache_lru_witness:
  "\<exists>(s :: bio) k t. bio_inv 0 s \<and> dll (bufs s) (rev [0..<NBUF]) \<and> bread 1 7 s = Ok k t \<and> caches (bufs t) k 7"
proof -
  obtain s :: bio where s: "bio_inv 0 s" "dll (bufs s) (rev [0..<NBUF])" "disksize s = 1000" "bdirty s = {}" "blocked s = {}" "\<forall>i b. \<not> caches (bufs s) i b"
    using demo_booted by blast
  have "(\<forall>j. \<not> caches (bufs s) j 7) \<and> card (bdirty s \<union> blocked s) < NBUF \<and> 7 < disksize s"
    using s by (simp add: NBUF_def MAXOPBLOCKS_def)
  then show ?thesis using bcache_lru[OF s(1,2), of _ 7] s(1,2) by blast
qed

end
