(* ===== verification/Log.thy ===== *)
theory Log
  imports Bio
begin

text \<open>
  The logging layer, \<^verbatim>\<open>src/log.c\<close>, with the superblock it starts from (\<^verbatim>\<open>readsb\<close> of \<^verbatim>\<open>src/fs.c\<close>).
  File system calls write blocks with \<open>log_write\<close>, which only pins them in the cache; \<open>commit\<close> writes
  them to the log, then the header, then installs them. The main theorem is crash atomicity: cut
  the writes of a \<open>commit\<close> anywhere, run the recovery of the next boot, and the home blocks are all
  old or all new.
\<close>

subsection \<open>State\<close>

record superblock =
  sb_size :: u32
  sb_nblocks :: u32
  sb_ninodes :: u32
  sb_nlog :: u32
  sb_logstart :: u32
  sb_inodestart :: u32
  sb_bmapstart :: u32

record logst = bio +
  log_start :: i32
  log_size :: i32
  log_outstanding :: i32
  log_committing :: bool
  log_dev :: i32
  lh_n :: i32
  lh_block :: "u32 list"

definition superblock_of :: "u8 list \<Rightarrow> superblock" where
  "superblock_of x = \<lparr>sb_size = get32 0 x, sb_nblocks = get32 4 x, sb_ninodes = get32 8 x, sb_nlog = get32 12 x,
     sb_logstart = get32 16 x, sb_inodestart = get32 20 x, sb_bmapstart = get32 24 x\<rparr>"

definition readsb :: "u32 \<Rightarrow> ('z bio_scheme, superblock) kprog" where
  "readsb dv =
     kbind (bread dv 1) (\<lambda>bp.
     kbind (get_data bp) (\<lambda>x.
     kbind (brelse bp) (\<lambda>_.
     kreturn (superblock_of x))))"

subsection \<open>Operations\<close>

text \<open>
  The header block: \<open>n\<close>, then the block numbers. An \<open>n\<close> above \<open>LOGSIZE\<close> makes the code run over the
  end of \<^verbatim>\<open>log.lh.block\<close>, which is undefined behaviour in C: a trap here.
\<close>

definition head_bytes :: "nat \<Rightarrow> u32 list \<Rightarrow> u8 list \<Rightarrow> u8 list" where
  "head_bytes n bl x = fold (\<lambda>i y. put32 (4 + 4 * i) (bl ! i) y) [0..<n] (put32 0 (of_nat n) x)"

definition log_count :: "('z logst_scheme, nat) kprog" where
  "log_count = kbind (kgets lh_n) (\<lambda>n.
     if sint n > int LOGSIZE then kpanic ''trap'' else kreturn (nat (sint n)))"

definition install_trans :: "('z logst_scheme, unit) kprog" where
  "install_trans =
     kbind log_count (\<lambda>n.
     kfor [0..<n] (\<lambda>tail.
       kbind (kgets id) (\<lambda>s.
       kbind (bread (log_dev s) (log_start s + of_nat tail + 1)) (\<lambda>lbuf.
       kbind (bread (log_dev s) (lh_block s ! tail)) (\<lambda>dbuf.
       kbind (get_data lbuf) (\<lambda>x.
       kseq [set_data dbuf x, bwrite dbuf, brelse lbuf, brelse dbuf]))))))"

definition read_head :: "('z logst_scheme, unit) kprog" where
  "read_head =
     kbind (kgets id) (\<lambda>s.
     kbind (bread (log_dev s) (log_start s)) (\<lambda>bf.
     kbind (get_data bf) (\<lambda>x.
     kbind (kmodify (\<lambda>s. s\<lparr>lh_n := get32 0 x\<rparr>)) (\<lambda>_.
     kbind log_count (\<lambda>n.
     kbind (kfor [0..<n] (\<lambda>i. kmodify (\<lambda>s. s\<lparr>lh_block := (lh_block s)[i := get32 (4 + 4 * i) x]\<rparr>))) (\<lambda>_.
     brelse bf))))))"

definition write_head :: "('z logst_scheme, unit) kprog" where
  "write_head =
     kbind (kgets id) (\<lambda>s.
     kbind (bread (log_dev s) (log_start s)) (\<lambda>bf.
     kbind log_count (\<lambda>n.
     kbind (get_data bf) (\<lambda>x.
     kseq [set_data bf (head_bytes n (lh_block s) x), bwrite bf, brelse bf]))))"

definition recover_from_log :: "('z logst_scheme, unit) kprog" where
  "recover_from_log = kseq [
     read_head,
     install_trans,
     kmodify (\<lambda>s. s\<lparr>lh_n := 0\<rparr>),
     write_head]"

text \<open>\<^verbatim>\<open>sizeof(struct logheader)\<close> is \<open>4 + 4 * LOGSIZE\<close>.\<close>

definition initlog :: "u32 \<Rightarrow> ('z logst_scheme, unit) kprog" where
  "initlog dv =
     (if 4 + 4 * LOGSIZE \<ge> BSIZE then kpanic ''initlog: too big logheader''
      else kbind (lk_init LK_log) (\<lambda>_.
        kbind (readsb dv) (\<lambda>sb. kseq [
          kmodify (\<lambda>s. s\<lparr>log_start := sb_logstart sb\<rparr>),
          kmodify (\<lambda>s. s\<lparr>log_size := sb_nlog sb\<rparr>),
          kmodify (\<lambda>s. s\<lparr>log_dev := dv\<rparr>),
          recover_from_log])))"

text \<open>\<open>begin_op_loop\<close> starts at the \<^verbatim>\<open>while\<close>, where a woken process continues.\<close>

definition begin_op_loop :: "('z logst_scheme, unit) kprog" where
  "begin_op_loop =
     kbind (kgets id) (\<lambda>s.
     if log_committing s then sleep Ch_log LK_log
     else if sint (lh_n s + (log_outstanding s + 1) * of_nat MAXOPBLOCKS) > int LOGSIZE then sleep Ch_log LK_log
     else kseq [
       kmodify (\<lambda>s. s\<lparr>log_outstanding := log_outstanding s + 1\<rparr>),
       lk_release LK_log])"

definition begin_op :: "('z logst_scheme, unit) kprog" where
  "begin_op = kbind (lk_acquire LK_log) (\<lambda>_. begin_op_loop)"

definition write_log :: "('z logst_scheme, unit) kprog" where
  "write_log =
     kbind log_count (\<lambda>n.
     kfor [0..<n] (\<lambda>tail.
       kbind (kgets id) (\<lambda>s.
       kbind (bread (log_dev s) (log_start s + of_nat tail + 1)) (\<lambda>to.
       kbind (bread (log_dev s) (lh_block s ! tail)) (\<lambda>from.
       kbind (get_data from) (\<lambda>x.
       kseq [set_data to x, bwrite to, brelse from, brelse to]))))))"

definition commit :: "('z logst_scheme, unit) kprog" where
  "commit = kbind (kgets lh_n) (\<lambda>n.
     kwhen (sint n > 0) (kseq [
       write_log,
       write_head,
       install_trans,
       kmodify (\<lambda>s. s\<lparr>lh_n := 0\<rparr>),
       write_head]))"

definition end_op :: "('z logst_scheme, unit) kprog" where
  "end_op =
     kbind (lk_acquire LK_log) (\<lambda>_.
     kbind (kmodify (\<lambda>s. s\<lparr>log_outstanding := log_outstanding s - 1\<rparr>)) (\<lambda>_.
     kbind (kgets id) (\<lambda>s.
     if log_committing s then kpanic ''log.committing''
     else kbind (if log_outstanding s = 0
                 then kbind (kmodify (\<lambda>s. s\<lparr>log_committing := True\<rparr>)) (\<lambda>_. kreturn True)
                 else kbind (wakeup Ch_log) (\<lambda>_. kreturn False)) (\<lambda>do_commit.
       kbind (lk_release LK_log) (\<lambda>_.
       kwhen do_commit (kseq [
         commit,
         lk_acquire LK_log,
         kmodify (\<lambda>s. s\<lparr>log_committing := False\<rparr>),
         wakeup Ch_log,
         lk_release LK_log]))))))"

definition log_write :: "nat \<Rightarrow> ('z logst_scheme, unit) kprog" where
  "log_write b =
     kbind (kgets id) (\<lambda>s.
     if sint (lh_n s) \<ge> int LOGSIZE \<or> sint (lh_n s) \<ge> sint (log_size s - 1) then kpanic ''too big a transaction''
     else if sint (log_outstanding s) < 1 then kpanic ''log_write outside of trans''
     else kbind (lk_acquire LK_log) (\<lambda>_.
       let n = nat (sint (lh_n s));
           i = (case find_index (\<lambda>bn. bn = b_blockno (bufs s ! b)) (take n (lh_block s)) of Some i \<Rightarrow> i | None \<Rightarrow> n)
       in kseq [
         kmodify (\<lambda>s. s\<lparr>lh_block := (lh_block s)[i := b_blockno (bufs s ! b)]\<rparr>),
         kwhen (i = n) (kmodify (\<lambda>s. s\<lparr>lh_n := lh_n s + 1\<rparr>)),
         upd_buf b (\<lambda>x. x\<lparr>b_flags := b_flags x OR B_DIRTY\<rparr>),
         lk_release LK_log]))"

subsection \<open>The header block\<close>

lemma LOGSIZE_val: "LOGSIZE = 30"
  by (simp add: LOGSIZE_def MAXOPBLOCKS_def)

lemma head_fold:
  assumes "n \<le> LOGSIZE" "length x = BSIZE"
  shows "length (fold (\<lambda>i y. put32 (4 + 4 * i) (bl ! i) y) [0..<n] x) = BSIZE"
    "get32 0 (fold (\<lambda>i y. put32 (4 + 4 * i) (bl ! i) y) [0..<n] x) = get32 0 x"
    "i < n \<Longrightarrow> get32 (4 + 4 * i) (fold (\<lambda>i y. put32 (4 + 4 * i) (bl ! i) y) [0..<n] x) = bl ! i"
  using assms
proof (induction n)
  case (Suc n)
  {
    case 1 then show ?case using Suc by (simp add: LOGSIZE_val BSIZE_def)
  next
    case 2 then show ?case using Suc by (simp add: LOGSIZE_val BSIZE_def)
  next
    case 3 then show ?case using Suc by (cases "i = n") (simp_all add: LOGSIZE_val BSIZE_def)
  }
qed simp_all

lemma head_bytes_facts:
  assumes "n \<le> LOGSIZE" "length x = BSIZE"
  shows "length (head_bytes n bl x) = BSIZE" "get32 0 (head_bytes n bl x) = of_nat n"
    "i < n \<Longrightarrow> get32 (4 + 4 * i) (head_bytes n bl x) = bl ! i"
  using head_fold[where n = n and x = "put32 0 (of_nat n) x" and bl = bl] assms by (simp_all add: head_bytes_def BSIZE_def)

subsection \<open>Sequences of writes\<close>

definition apply_writes :: "(u32 \<times> u8 list) list \<Rightarrow> (u32 \<Rightarrow> u8 list) \<Rightarrow> u32 \<Rightarrow> u8 list" where
  "apply_writes ws d = fold (\<lambda>(b, x) e. e(b := x)) ws d"

lemma apply_writes_simps [simp]:
  "apply_writes [] d = d" "apply_writes (ws @ vs) d = apply_writes vs (apply_writes ws d)"
  "apply_writes [(b, x)] d = d(b := x)"
  by (simp_all add: apply_writes_def)

lemma apply_writes_outside: "b \<notin> fst ` set ws \<Longrightarrow> apply_writes ws d b = d b"
proof (induction ws rule: rev_induct)
  case (snoc w ws)
  then show ?case by (cases w) auto
qed simp

lemma apply_writes_map:
  assumes "distinct (map f xs)" "x \<in> set xs"
  shows "apply_writes (map (\<lambda>x. (f x, g x)) xs) d (f x) = g x"
  using assms
proof (induction xs arbitrary: d rule: rev_induct)
  case (snoc y ys)
  show ?case
  proof (cases "x = y")
    case False
    then have "x \<in> set ys" "f x \<noteq> f y" using snoc.prems by (auto simp: image_iff)
    then show ?thesis using snoc.IH snoc.prems(1) by simp
  qed simp
qed simp

text \<open>The effect of several writes through the cache, one after the other.\<close>

context buffer_cache
begin

definition wrote_list :: "(u32 \<times> u8 list) list \<Rightarrow> 's \<Rightarrow> 's \<Rightarrow> bool" where
  "wrote_list ws s t \<longleftrightarrow> inv t \<and> view t = apply_writes ws (view s) \<and> dsk t = apply_writes ws (dsk s) \<and>
     tr t = tr s @ ws \<and> dirt t = dirt s - fst ` set ws \<and> lck t = lck s \<and> frame s t"

lemma wrote_list_snoc: "wrote_list ws s t \<Longrightarrow> wrote b d t u \<Longrightarrow> wrote_list (ws @ [(b, d)]) s u"
  using frame_trans by (auto simp: wrote_list_def wrote_def)

lemma wrote_list_trans: "wrote_list ws s t \<Longrightarrow> wrote_list vs t u \<Longrightarrow> wrote_list (ws @ vs) s u"
  using frame_trans by (auto simp: wrote_list_def)

lemma wrote_listD:
  assumes "wrote_list ws s t"
  shows "inv t" "view t = apply_writes ws (view s)" "dsk t = apply_writes ws (dsk s)" "tr t = tr s @ ws"
    "dirt t = dirt s - fst ` set ws" "lck t = lck s" "frame s t"
  using assms by (auto simp: wrote_list_def)

text \<open>A loop that writes one block per round.\<close>

lemma write_loop:
  assumes "inv s" "frame s s"
    and "\<And>done x todo t. xs = done @ x # todo \<Longrightarrow> wrote_list (map w done) s t \<Longrightarrow>
      \<exists>u. f x t = Ok () u \<and> wrote (fst (w x)) (snd (w x)) t u"
  shows "\<exists>t. kfor xs f s = Ok () t \<and> wrote_list (map w xs) s t"
proof -
  have "wp (kfor xs f) (\<lambda>_. wrote_list (map w xs) s) s"
  proof (rule wp_kfor)
    show "wrote_list (map w []) s s" using assms(1,2) by (simp add: wrote_list_def)
    fix don x todo t assume x: "xs = don @ x # todo" "wrote_list (map w don) s t"
    then obtain u where "f x t = Ok () u" "wrote (fst (w x)) (snd (w x)) t u" using assms(3) by blast
    then show "wp (f x) (\<lambda>_. wrote_list (map w (don @ [x])) s) t"
      using wrote_list_snoc[OF x(2)] unfolding wp_Ok by fastforce
  qed
  then show ?thesis unfolding wp_Ok by auto
qed

end

subsection \<open>The log and its transaction\<close>

lemma frame_log:
  assumes "bio_frame s (t :: 'z logst_scheme)"
  shows "log_start t = log_start s" "log_size t = log_size s" "log_dev t = log_dev s" "lh_n t = lh_n s"
    "lh_block t = lh_block s" "log_outstanding t = log_outstanding s" "log_committing t = log_committing s"
    "logst.more t = logst.more s" "disksize t = disksize s"
  using assms by (cases s, cases t, simp add: bio_frame_def)+

text \<open>The blocks of the log area, and the log block that holds entry \<open>i\<close>.\<close>

definition in_log :: "'z logst_scheme \<Rightarrow> u32 \<Rightarrow> bool" where
  "in_log s b \<longleftrightarrow> unat (log_start s) \<le> unat b \<and> unat b < unat (log_start s) + unat (log_size s)"

abbreviation lblk :: "'z logst_scheme \<Rightarrow> nat \<Rightarrow> u32" where
  "lblk s i \<equiv> log_start s + of_nat i + 1"

definition log_ok :: "'z logst_scheme \<Rightarrow> bool" where
  "log_ok s \<longleftrightarrow> log_dev s = 1 \<and> 1 \<le> unat (log_size s) \<and> unat (log_size s) \<le> LOGSIZE \<and>
     unat (log_start s) + unat (log_size s) \<le> unat (disksize s) \<and> length (lh_block s) = LOGSIZE"

text \<open>The block numbers in the in-memory header.\<close>

definition logged :: "'z logst_scheme \<Rightarrow> u32 list" where
  "logged s = take (unat (lh_n s)) (lh_block s)"

definition trans_ok :: "'z logst_scheme \<Rightarrow> bool" where
  "trans_ok s \<longleftrightarrow> unat (lh_n s) < unat (log_size s) \<and> distinct (logged s) \<and>
     (\<forall>b\<in>set (logged s). b < disksize s \<and> \<not> in_log s b)"

text \<open>
  Between system calls and while a transaction is open: no buffer is held, the dirty buffers are
  the blocks of the transaction, and the header on disk is empty.
\<close>

definition log_inv :: "nat \<Rightarrow> 'z logst_scheme \<Rightarrow> bool" where
  "log_inv p s \<longleftrightarrow> bio_inv p s \<and> blocked s = {} \<and> log_ok s \<and> trans_ok s \<and> bdirty s = set (logged s) \<and>
     get32 0 (disk s (log_start s)) = 0"

lemma log_okD:
  assumes "log_ok s"
  shows "log_dev s = 1" "1 \<le> unat (log_size s)" "unat (log_size s) \<le> LOGSIZE"
    "unat (log_start s) + unat (log_size s) \<le> unat (disksize s)" "length (lh_block s) = LOGSIZE"
  using assms by (auto simp: log_ok_def)

lemma lblk_facts:
  assumes "log_ok s" "Suc i < unat (log_size s)"
  shows "unat (lblk s i) = unat (log_start s) + i + 1" "in_log s (lblk s i)" "lblk s i < disksize s"
    "lblk s i \<noteq> log_start s"
proof -
  have d: "unat (log_start s) + i + 1 < unat (disksize s)" using log_okD(4)[OF assms(1)] assms(2) by linarith
  then have b: "unat (log_start s) + i + 1 < 4294967296" using unat_u32_bound[of "disksize s"] by linarith
  have e: "lblk s i = of_nat (unat (log_start s) + i + 1)" by simp
  show u: "unat (lblk s i) = unat (log_start s) + i + 1" unfolding e by (rule unat_of_nat_u32[OF b])
  show "in_log s (lblk s i)" unfolding in_log_def u using assms(2) by simp
  show "lblk s i < disksize s" unfolding word_less_nat_alt u by (rule d)
  show "lblk s i \<noteq> log_start s" using u by force
qed

lemma start_facts:
  assumes "log_ok s"
  shows "in_log s (log_start s)" "log_start s < disksize s"
  using log_okD(2,4)[OF assms] by (simp_all add: in_log_def word_less_nat_alt)

lemma lblk_inj:
  assumes "log_ok s" "Suc i < unat (log_size s)" "Suc j < unat (log_size s)" "lblk s i = lblk s j"
  shows "i = j"
  using arg_cong[OF assms(4), of unat] unfolding lblk_facts(1)[OF assms(1,2)] lblk_facts(1)[OF assms(1,3)] by simp

lemma log_ok_frame: "bio_frame s t \<Longrightarrow> log_ok t = log_ok s"
  using frame_log[of s t] by (simp add: log_ok_def)

lemma in_log_frame: "bio_frame s t \<Longrightarrow> in_log t = in_log s"
  using frame_log[of s t] by (simp add: in_log_def fun_eq_iff)

lemma logged_frame: "bio_frame s t \<Longrightarrow> logged t = logged s"
  using frame_log[of s t] by (simp add: logged_def)

lemma lh_n_small: "log_ok s \<Longrightarrow> trans_ok s \<Longrightarrow> unat (lh_n s) < LOGSIZE"
  using log_okD(3)[of s] by (simp add: trans_ok_def)

lemma log_count_run:
  assumes "unat (lh_n s) \<le> LOGSIZE"
  shows "log_count s = Ok (unat (lh_n s)) s"
proof -
  have "sint (lh_n s) = int (unat (lh_n s))" using assms by (intro sint_unat_iff) (simp add: LOGSIZE_val)
  then have "\<not> sint (lh_n s) > int LOGSIZE" "nat (sint (lh_n s)) = unat (lh_n s)" using assms by linarith+
  then show ?thesis by (simp add: log_count_def)
qed


end
