(* ===== verification/Recovery.thy ===== *)
theory Recovery
  imports Log
begin

text \<open>
  Crash safety of the log: what the writes of \<open>commit\<close> and of the recovery at boot put on the disk, and
  that a crash between any two of them leaves a transaction done entirely or not at all.
\<close>

subsection \<open>Running the loops\<close>

text \<open>Each round of the loops is one of the pieces of code the cache interface knows.\<close>

lemma install_body:
  assumes "log_dev t = 1"
  shows "kbind (kgets id) (\<lambda>s.
       kbind (bread (log_dev s) (log_start s + of_nat tail + 1)) (\<lambda>lbuf.
       kbind (bread (log_dev s) (lh_block s ! tail)) (\<lambda>dbuf.
       kbind (get_data lbuf) (\<lambda>x.
       kseq [set_data dbuf x, bwrite dbuf, brelse lbuf, brelse dbuf])))) t =
    copy_first (bread 1) get_data set_data bwrite brelse (lblk t tail) (lh_block t ! tail) t"
  using assms by (simp add: copy_first_def)

lemma write_log_body:
  assumes "log_dev t = 1"
  shows "kbind (kgets id) (\<lambda>s.
       kbind (bread (log_dev s) (log_start s + of_nat tail + 1)) (\<lambda>to.
       kbind (bread (log_dev s) (lh_block s ! tail)) (\<lambda>from.
       kbind (get_data from) (\<lambda>x.
       kseq [set_data to x, bwrite to, brelse from, brelse to])))) t =
    copy_second (bread 1) get_data set_data bwrite brelse (lblk t tail) (lh_block t ! tail) t"
  using assms by (simp add: copy_second_def)

lemma logged_nth:
  assumes "log_ok s" "trans_ok s" "i < unat (lh_n s)"
  shows "lh_block s ! i \<in> set (logged s)" "logged s ! i = lh_block s ! i" "length (logged s) = unat (lh_n s)"
proof -
  show l: "length (logged s) = unat (lh_n s)"
    using log_okD(5)[OF assms(1)] lh_n_small[OF assms(1,2)] by (simp add: logged_def)
  show n: "logged s ! i = lh_block s ! i" using assms(3) by (simp add: logged_def)
  show "lh_block s ! i \<in> set (logged s)" unfolding n[symmetric] using assms(3) l by simp
qed

definition log_writes :: "'z logst_scheme \<Rightarrow> (u32 \<times> u8 list) list" where
  "log_writes s = map (\<lambda>i. (lblk s i, bview s (lh_block s ! i))) [0..<unat (lh_n s)]"

lemma log_writes_in_log:
  assumes "log_ok s" "trans_ok s" "b \<in> fst ` set (log_writes s)"
  shows "in_log s b" "b \<noteq> log_start s"
proof -
  obtain i where i: "i < unat (lh_n s)" "b = lblk s i" using assms(3) unfolding log_writes_def by force
  have "Suc i < unat (log_size s)" using i(1) assms(2) by (simp add: trans_ok_def)
  note L = lblk_facts[OF assms(1) this]
  show "in_log s b" "b \<noteq> log_start s" unfolding i(2) by (rule L(2), rule L(4))
qed

lemma write_log_run:
  assumes "log_inv p s"
  shows "\<exists>t. write_log s = Ok () t \<and> bcache.wrote_list p (log_writes s) s t"
proof -
  have I: "bio_inv p s" "blocked s = {}" "log_ok s" "trans_ok s" "bdirty s = set (logged s)"
    using assms by (auto simp: log_inv_def)
  let ?w = "\<lambda>i. (lblk s i, bview s (lh_block s ! i))"
  let ?f = "\<lambda>tail. kbind (kgets id) (\<lambda>s.
       kbind (bread (log_dev s) (log_start s + of_nat tail + 1)) (\<lambda>to.
       kbind (bread (log_dev s) (lh_block s ! tail)) (\<lambda>from.
       kbind (get_data from) (\<lambda>x.
       kseq [set_data to x, bwrite to, brelse from, brelse to]))))"
  have "\<exists>t. kfor [0..<unat (lh_n s)] ?f s = Ok () t \<and> bcache.wrote_list p (map ?w [0..<unat (lh_n s)]) s t"
  proof (rule bcache.write_loop[OF I(1) bio_frame_refl])
    fix don i todo t
    assume i: "[0..<unat (lh_n s)] = don @ i # todo" and w: "bcache.wrote_list p (map ?w don) s t"
    note t = bcache.wrote_listD[OF w]
    note fr = frame_log[OF t(7)]
    have lt: "i < unat (lh_n s)" "set don \<subseteq> {..<unat (lh_n s)}" using arg_cong[OF i, of set] by auto
    have sz: "Suc j < unat (log_size s)" if "j < unat (lh_n s)" for j using that I(4) by (simp add: trans_ok_def)
    note L = lblk_facts[OF I(3) sz[OF lt(1)]]
    have h: "lh_block s ! i \<in> set (logged s)" by (rule logged_nth(1)[OF I(3,4) lt(1)])
    have nl: "\<not> in_log s b" if "b \<in> set (logged s)" for b using that I(4) by (simp add: trans_ok_def)
    have out: "lh_block s ! i \<notin> fst ` set (map ?w don)"
      using nl[OF h] lblk_facts(2)[OF I(3) sz] lt(2) by auto
    have dl: "fst ` set (map ?w don) \<inter> set (logged s) = {}" using nl lblk_facts(2)[OF I(3) sz] lt(2) by fastforce
    then have d: "bdirty t = set (logged s)" using t(5) I(5) by auto
    have c: "card (bdirty t \<union> blocked t) < NBUF"
      unfolding d t(6) I(2) using lh_n_small[OF I(3,4)] distinct_card[of "logged s"] I(4) logged_nth(3)[OF I(3,4) lt(1)]
      by (simp add: trans_ok_def NBUF_def LOGSIZE_def)
    have "\<exists>u. copy_second (bread 1) get_data set_data bwrite brelse (lblk s i) (lh_block s ! i) t = Ok () u \<and>
        bcache.wrote p (lblk s i) (bview t (lh_block s ! i)) t u"
    proof (rule bcache.copy_second_law[OF t(1)])
      show "lblk s i < disksize t" "lh_block s ! i < disksize t" using L(3) h I(4) fr(9) by (simp_all add: trans_ok_def)
      show "lblk s i \<noteq> lh_block s ! i" using L(2) nl[OF h] by metis
    qed (use t(6) I(2) h d c in simp_all)
    moreover have "bview t (lh_block s ! i) = bview s (lh_block s ! i)" unfolding t(2) by (rule apply_writes_outside[OF out])
    ultimately show "\<exists>u. ?f i t = Ok () u \<and> bcache.wrote p (fst (?w i)) (snd (?w i)) t u"
      using write_log_body[of t i] fr log_okD(1)[OF I(3)] by simp
  qed
  then show ?thesis using log_count_run[of s] lh_n_small[OF I(3,4)] by (simp add: write_log_def log_writes_def)
qed

text \<open>The install loop copies the log blocks to the home blocks, from clean log blocks.\<close>

definition home_writes :: "'z logst_scheme \<Rightarrow> (u32 \<times> u8 list) list" where
  "home_writes s = map (\<lambda>i. (lh_block s ! i, bview s (lblk s i))) [0..<unat (lh_n s)]"

lemma home_writes_fst:
  assumes "log_ok s" "trans_ok s"
  shows "fst ` set (home_writes s) = set (logged s)"
proof -
  have "map fst (home_writes s) = logged s"
    using lh_n_small[OF assms] log_okD(5)[OF assms(1)]
    by (intro nth_equalityI) (simp_all add: home_writes_def logged_def)
  then show ?thesis by (metis set_map)
qed

lemma card_insert_room:
  assumes "finite B" "A \<subseteq> B" "h \<in> B" "h \<notin> A" "card B < N"
  shows "card (insert l A) < N"
proof -
  have "A \<subset> B" using assms(2-4) by blast
  then have "card A < card B" using assms(1) by (simp add: psubset_card_mono)
  moreover have "card (insert l A) \<le> Suc (card A)" using finite_subset[OF assms(2,1)] by (simp add: card_insert_if)
  ultimately show ?thesis using assms(5) by linarith
qed

lemma install_run:
  assumes "bio_inv p s" "blocked s = {}" "log_ok s" "trans_ok s" "bdirty s \<subseteq> set (logged s)"
  shows "\<exists>t. install_trans s = Ok () t \<and> bcache.wrote_list p (home_writes s) s t"
proof -
  let ?w = "\<lambda>i. (lh_block s ! i, bview s (lblk s i))"
  let ?f = "\<lambda>tail. kbind (kgets id) (\<lambda>s.
       kbind (bread (log_dev s) (log_start s + of_nat tail + 1)) (\<lambda>lbuf.
       kbind (bread (log_dev s) (lh_block s ! tail)) (\<lambda>dbuf.
       kbind (get_data lbuf) (\<lambda>x.
       kseq [set_data dbuf x, bwrite dbuf, brelse lbuf, brelse dbuf]))))"
  have "\<exists>t. kfor [0..<unat (lh_n s)] ?f s = Ok () t \<and> bcache.wrote_list p (map ?w [0..<unat (lh_n s)]) s t"
  proof (rule bcache.write_loop[OF assms(1) bio_frame_refl])
    fix don i todo t
    assume i: "[0..<unat (lh_n s)] = don @ i # todo" and w: "bcache.wrote_list p (map ?w don) s t"
    note t = bcache.wrote_listD[OF w]
    note fr = frame_log[OF t(7)]
    have lt: "i < unat (lh_n s)" "\<And>j. j \<in> set don \<Longrightarrow> j < unat (lh_n s)" using arg_cong[OF i, of set] by auto
    have sz: "Suc i < unat (log_size s)" using lt(1) assms(4) by (simp add: trans_ok_def)
    note L = lblk_facts[OF assms(3) sz]
    have hl: "lh_block s ! j \<in> set (logged s)" if "j < unat (lh_n s)" for j by (rule logged_nth(1)[OF assms(3,4) that])
    have nl: "\<not> in_log s b" if "b \<in> set (logged s)" for b using that assms(4) by (simp add: trans_ok_def)
    have hin: "fst ` set (map ?w don) \<subseteq> set (logged s)" using hl lt(2) by auto
    have nw: "lblk s i \<notin> fst ` set (map ?w don)" using hin nl L(2) by blast
    have nd: "lblk s i \<notin> bdirty s" using assms(5) nl L(2) by blast
    have vl: "bview s (lblk s i) = disk s (lblk s i)" using nd assms(2) by (intro bview_clean[OF assms(1)]) simp_all
    have d: "bdirty t \<subseteq> set (logged s)" using t(5) assms(5) by auto
    have cl: "card (set (logged s)) < NBUF"
      using lh_n_small[OF assms(3,4)] distinct_card[of "logged s"] assms(4) logged_nth(3)[OF assms(3,4) lt(1)]
      by (simp add: trans_ok_def NBUF_def LOGSIZE_def)
    have c1: "card (bdirty t \<union> blocked t) < NBUF" unfolding t(6) assms(2) using card_mono[OF _ d] cl by simp
    have c2: "lh_block s ! i \<in> bdirty t \<or> card (insert (lblk s i) (bdirty t \<union> blocked t)) < NBUF"
      using card_insert_room[OF _ d hl[OF lt(1)] _ cl, of "lblk s i"] unfolding t(6) assms(2) by auto
    have vt: "bview t (lblk s i) = bview s (lblk s i)" "disk t (lblk s i) = disk s (lblk s i)"
      unfolding t(2,3) by (rule apply_writes_outside[OF nw])+
    have "\<exists>u. copy_first (bread 1) get_data set_data bwrite brelse (lblk s i) (lh_block s ! i) t = Ok () u \<and>
        bcache.wrote p (lh_block s ! i) (bview t (lblk s i)) t u"
    proof (rule bcache.copy_first_law[OF t(1)])
      show "lblk s i < disksize t" "lh_block s ! i < disksize t" using L(3) hl[OF lt(1)] assms(4) fr(9) by (simp_all add: trans_ok_def)
      show "lblk s i \<noteq> lh_block s ! i" using L(2) nl[OF hl[OF lt(1)]] by metis
      show "bview t (lblk s i) = disk t (lblk s i)" unfolding vt by (rule vl)
    qed (use t(6) assms(2) c1 c2 in simp_all)
    then show "\<exists>u. ?f i t = Ok () u \<and> bcache.wrote p (fst (?w i)) (snd (?w i)) t u"
      using install_body[of t i] fr log_okD(1)[OF assms(3)] vt by simp
  qed
  then show ?thesis using log_count_run[of s] lh_n_small[OF assms(3,4)] by (simp add: install_trans_def home_writes_def)
qed

lemma write_head_run:
  assumes "bio_inv p s" "blocked s = {}" "log_ok s" "unat (lh_n s) \<le> LOGSIZE" "card (bdirty s) < NBUF"
  shows "\<exists>t. write_head s = Ok () t \<and>
    bcache.wrote_list p [(log_start s, head_bytes (unat (lh_n s)) (lh_block s) (bview s (log_start s)))] s t"
proof -
  let ?g = "head_bytes (unat (lh_n s)) (lh_block s)"
  have "\<exists>t. change_block (bread 1) get_data set_data bwrite brelse (log_start s) ?g s = Ok () t \<and>
      bcache.wrote p (log_start s) (?g (bview s (log_start s))) s t"
    by (rule bcache.change_block_law[OF assms(1)])
      (use assms start_facts(2)[OF assms(3)] head_bytes_facts(1)[OF assms(4)] bview_len[OF assms(1)] in simp_all)
  moreover have "write_head s = change_block (bread 1) get_data set_data bwrite brelse (log_start s) ?g s"
  proof -
    obtain i t where t: "bread 1 (log_start s) s = Ok i t" "bread_post p s (log_start s) i t"
      using bread_spec[OF assms(1) start_facts(2)[OF assms(3)]] assms(2,5) by auto
    then have "lh_n t = lh_n s" using frame_log(4)[of s t] by (simp add: bread_post_def)
    then show ?thesis using log_okD(1)[OF assms(3)] t(1) log_count_run[of t] assms(4)
      by (simp add: write_head_def change_block_def)
  qed
  moreover have "bcache.wrote_list p [] s s" using assms(1) by (simp add: bcache.wrote_list_def)
  ultimately show ?thesis using bcache.wrote_list_snoc[of p "[]" s s] by fastforce
qed

text \<open>Clearing the count in memory touches nothing else.\<close>

lemma lh_block_upd [simp]:
  fixes s :: "'z logst_scheme"
  shows "bio_inv p (s\<lparr>lh_block := l\<rparr>) = bio_inv p s" "bview (s\<lparr>lh_block := l\<rparr>) = bview s" "bdirty (s\<lparr>lh_block := l\<rparr>) = bdirty s"
    "blocked (s\<lparr>lh_block := l\<rparr>) = blocked s" "holds (s\<lparr>lh_block := l\<rparr>) = holds s"
  by (simp_all add: bio_inv_def buf_ok_def locked_by_def bview_def fun_eq_iff bdirty_def blocked_def holds_def split: option.split)

lemma lh_n_upd [simp]:
  fixes s :: "'z logst_scheme"
  shows "holds (s\<lparr>lh_n := n\<rparr>) = holds s" "bio_inv p (s\<lparr>lh_n := n\<rparr>) = bio_inv p s" "bview (s\<lparr>lh_n := n\<rparr>) = bview s" "bdirty (s\<lparr>lh_n := n\<rparr>) = bdirty s"
    "blocked (s\<lparr>lh_n := n\<rparr>) = blocked s" "log_ok (s\<lparr>lh_n := n\<rparr>) = log_ok s"
  by (simp_all add: bio_inv_def buf_ok_def locked_by_def bview_def fun_eq_iff bdirty_def blocked_def log_ok_def holds_def split: option.split)

definition commit_head :: "'z logst_scheme \<Rightarrow> u8 list" where
  "commit_head s = head_bytes (unat (lh_n s)) (lh_block s) (bview s (log_start s))"

definition commit_writes :: "'z logst_scheme \<Rightarrow> (u32 \<times> u8 list) list" where
  "commit_writes s = log_writes s @ (log_start s, commit_head s) #
     map (\<lambda>i. (lh_block s ! i, bview s (lh_block s ! i))) [0..<unat (lh_n s)] @
     [(log_start s, head_bytes 0 (lh_block s) (commit_head s))]"

text \<open>What a sequence of writes leaves behind, the in-memory header apart.\<close>

definition log_wrote :: "nat \<Rightarrow> (u32 \<times> u8 list) list \<Rightarrow> 'z logst_scheme \<Rightarrow> 'z logst_scheme \<Rightarrow> bool" where
  "log_wrote p ws s t \<longleftrightarrow> bio_inv p t \<and> bview t = apply_writes ws (bview s) \<and> disk t = apply_writes ws (disk s) \<and>
     dtrace t = dtrace s @ ws \<and> bdirty t = bdirty s - fst ` set ws \<and> blocked t = blocked s \<and>
     log_start t = log_start s \<and> log_size t = log_size s \<and> log_dev t = log_dev s \<and> lh_block t = lh_block s \<and>
     disksize t = disksize s \<and> log_outstanding t = log_outstanding s \<and> log_committing t = log_committing s"

lemma log_wrote_list: "bcache.wrote_list p ws s t \<Longrightarrow> log_wrote p ws s t \<and> lh_n t = lh_n s"
  using frame_log[of s t] by (simp add: log_wrote_def bcache.wrote_list_def)

lemma log_wrote_trans: "log_wrote p ws s t \<Longrightarrow> log_wrote p vs t u \<Longrightarrow> log_wrote p (ws @ vs) s u"
  by (auto simp: log_wrote_def)

lemma log_wrote_clear: "log_wrote p ws s t \<Longrightarrow> log_wrote p ws s (t\<lparr>lh_n := n\<rparr>)"
  by (simp add: log_wrote_def)

lemma log_wroteD:
  assumes "log_wrote p ws s t"
  shows "bio_inv p t" "bview t = apply_writes ws (bview s)" "disk t = apply_writes ws (disk s)" "dtrace t = dtrace s @ ws"
    "bdirty t = bdirty s - fst ` set ws" "blocked t = blocked s" "log_start t = log_start s" "log_size t = log_size s"
    "lh_block t = lh_block s" "disksize t = disksize s" "log_ok t = log_ok s" "log_outstanding t = log_outstanding s"
    "log_committing t = log_committing s"
  using assms by (auto simp: log_wrote_def log_ok_def)

lemma log_wrote_logged:
  assumes "log_wrote p ws s t" "lh_n t = lh_n s"
  shows "logged t = logged s" "in_log t = in_log s" "trans_ok t = trans_ok s"
  using log_wroteD(7-10)[OF assms(1)] assms(2) by (simp_all add: logged_def in_log_def trans_ok_def fun_eq_iff)

lemma card_logged: "log_ok s \<Longrightarrow> trans_ok s \<Longrightarrow> card (set (logged s)) < NBUF"
  using card_length[of "logged s"] lh_n_small[of s] by (simp add: logged_def NBUF_def LOGSIZE_def)

lemma lblks_distinct:
  assumes "log_ok s" "trans_ok s"
  shows "distinct (map (lblk s) [0..<unat (lh_n s)])"
proof -
  have "Suc i < unat (log_size s)" if "i < unat (lh_n s)" for i using that assms(2) by (simp add: trans_ok_def)
  then show ?thesis using lblk_inj[OF assms(1)] by (auto simp: distinct_map inj_on_def simp del: add_right_cancel add_left_cancel)
qed

lemma log_writes_nth:
  assumes "log_ok s" "trans_ok s" "i < unat (lh_n s)"
  shows "apply_writes (log_writes s) d (lblk s i) = bview s (lh_block s ! i)"
  unfolding log_writes_def using lblks_distinct[OF assms(1,2)] assms(3) by (intro apply_writes_map) simp_all

lemma commit_run:
  assumes "log_inv p s" "0 < unat (lh_n s)"
  shows "\<exists>t. commit s = Ok () t \<and> log_wrote p (commit_writes s) s t \<and> lh_n t = 0"
proof -
  have I: "bio_inv p s" "blocked s = {}" "log_ok s" "trans_ok s" "bdirty s = set (logged s)"
    using assms(1) by (auto simp: log_inv_def)
  let ?n = "unat (lh_n s)"
  have small: "?n \<le> LOGSIZE" using lh_n_small[OF I(3,4)] by simp
  obtain s1 where s1: "write_log s = Ok () s1" "log_wrote p (log_writes s) s s1" "lh_n s1 = lh_n s"
    using write_log_run[OF assms(1)] log_wrote_list by blast
  note d1 = log_wroteD[OF s1(2)] log_wrote_logged[OF s1(2,3)]
  have o1: "apply_writes (log_writes s) d b = d b" if "\<not> in_log s b \<or> b = log_start s" for d b
    using that log_writes_in_log[OF I(3,4)] by (intro apply_writes_outside) blast
  have dirt1: "bdirty s1 = set (logged s)"
    unfolding d1(5) I(5) using log_writes_in_log(1)[OF I(3,4)] I(4) by (auto simp: trans_ok_def)
  obtain s2 where s2: "write_head s1 = Ok () s2" "log_wrote p [(log_start s, commit_head s)] s1 s2" "lh_n s2 = lh_n s"
  proof -
    have "\<exists>t. write_head s1 = Ok () t \<and> bcache.wrote_list p
        [(log_start s1, head_bytes (unat (lh_n s1)) (lh_block s1) (bview s1 (log_start s1)))] s1 t"
      by (rule write_head_run[OF d1(1)]) (use d1 I s1(3) small dirt1 card_logged[OF I(3,4)] in simp_all)
    moreover have "bview s1 (log_start s) = bview s (log_start s)" unfolding d1(2) by (rule o1) simp
    ultimately show thesis using that log_wrote_list[of p _ s1] d1(7,9) s1(3) unfolding commit_head_def by fastforce
  qed
  note w2 = log_wrote_trans[OF s1(2) s2(2)]
  note d2 = log_wroteD[OF w2] log_wrote_logged[OF w2 s2(3)]
  have dirt2: "bdirty s2 \<subseteq> set (logged s)" unfolding d2(5) I(5) by auto
  obtain s3 where s3: "install_trans s2 = Ok () s3" "log_wrote p (home_writes s2) s2 s3" "lh_n s3 = lh_n s"
  proof -
    have "\<exists>t. install_trans s2 = Ok () t \<and> bcache.wrote_list p (home_writes s2) s2 t"
      by (rule install_run[OF d2(1)]) (use d2 I dirt2 in simp_all)
    then show thesis using that log_wrote_list[of p _ s2] s2(3) by fastforce
  qed
  have hw: "home_writes s2 = map (\<lambda>i. (lh_block s ! i, bview s (lh_block s ! i))) [0..<?n]"
    unfolding home_writes_def s2(3) d2(7,9)
  proof (intro map_cong[OF refl] prod_eqI, simp_all)
    fix i assume i: "i < ?n"
    then have sz: "Suc i < unat (log_size s)" using I(4) by (simp add: trans_ok_def)
    show "bview s2 (lblk s i) = bview s (lh_block s ! i)"
      using lblk_facts(4)[OF I(3) sz] log_writes_nth[OF I(3,4) i] unfolding d2(2) by simp
  qed
  note w3 = log_wrote_clear[OF log_wrote_trans[OF w2 s3(2)], of 0]
  note d3 = log_wroteD[OF w3]
  have hf: "fst ` set (home_writes s2) = set (logged s)" using home_writes_fst[of s2] d2 I by simp
  have v3: "bview s3 (log_start s) = commit_head s"
  proof -
    have "log_start s \<notin> set (logged s)" using I(4) start_facts(1)[OF I(3)] by (auto simp: trans_ok_def)
    then have "bview s3 (log_start s) = bview s2 (log_start s)"
      unfolding log_wroteD(2)[OF s3(2)] by (intro apply_writes_outside) (simp add: hf)
    then show ?thesis unfolding d2(2) by simp
  qed
  have dirt3: "bdirty s3 = {}" unfolding log_wroteD(5)[OF s3(2)] hf using dirt2 by blast
  obtain s4 where s4: "write_head (s3\<lparr>lh_n := 0\<rparr>) = Ok () s4" "lh_n s4 = 0"
    "log_wrote p [(log_start s, head_bytes 0 (lh_block s) (commit_head s))] (s3\<lparr>lh_n := 0\<rparr>) s4"
  proof -
    let ?s = "s3\<lparr>lh_n := 0\<rparr>"
    have "\<exists>t. write_head ?s = Ok () t \<and> bcache.wrote_list p
        [(log_start ?s, head_bytes (unat (lh_n ?s)) (lh_block ?s) (bview ?s (log_start ?s)))] ?s t"
      by (rule write_head_run[OF d3(1)]) (use d3 I dirt3 in \<open>simp_all add: NBUF_def MAXOPBLOCKS_def\<close>)
    then show thesis using that log_wrote_list[of p _ ?s] d3(7,9) v3 by fastforce
  qed
  have "log_wrote p (commit_writes s) s s4"
    using log_wrote_trans[OF w3 s4(3)] unfolding hw commit_writes_def by simp
  moreover have "sint (lh_n s) = int ?n" by (rule sint_unat_iff) (use small in \<open>simp add: LOGSIZE_val\<close>)
  then have "sint (lh_n s) > 0" using assms(2) by linarith
  ultimately show ?thesis using s1(1) s2(1) s3(1) s4(1,2) by (intro exI[of _ s4]) (simp add: commit_def kwhen_def)
qed

text \<open>The header of a disk: the block numbers it lists.\<close>

definition head_blocks :: "u8 list \<Rightarrow> u32 list" where
  "head_blocks x = map (\<lambda>i. get32 (4 + 4 * i) x) [0..<unat (get32 0 x)]"

lemma read_head_loop:
  "kfor [0..<n] (\<lambda>i. kmodify (\<lambda>s. s\<lparr>lh_block := (lh_block s)[i := f i]\<rparr>)) s =
    Ok () (s\<lparr>lh_block := fold (\<lambda>i l. l[i := f i]) [0..<n] (lh_block s)\<rparr>)"
proof -
  have "kfor xs (\<lambda>i. kmodify (\<lambda>s. s\<lparr>lh_block := (lh_block s)[i := f i]\<rparr>)) s =
    Ok () (s\<lparr>lh_block := fold (\<lambda>i l. l[i := f i]) xs (lh_block s)\<rparr>)" for xs
    by (induction xs arbitrary: s) simp_all
  then show ?thesis .
qed

lemma fold_list_update:
  "length (fold (\<lambda>i l. l[i := f i]) [0..<n] l) = length l"
  "n \<le> length l \<Longrightarrow> i < n \<Longrightarrow> fold (\<lambda>i l. l[i := f i]) [0..<n] l ! i = f i"
proof (induction n)
  case (Suc n)
  {
    case 1 then show ?case using Suc by simp
  next
    case 2 then show ?case using Suc by (cases "i = n") simp_all
  }
qed simp_all

lemma read_head_run:
  assumes "bio_inv p r" "bdirty r = {}" "blocked r = {}" "log_ok r" "unat (get32 0 (disk r (log_start r))) \<le> LOGSIZE"
  shows "\<exists>t. read_head r = Ok () t \<and> log_wrote p [] (r\<lparr>lh_block := lh_block t\<rparr>) t \<and> log_ok t \<and>
    lh_n t = get32 0 (disk r (log_start r)) \<and> logged t = head_blocks (disk r (log_start r))"
proof -
  let ?x = "disk r (log_start r)"
  have v: "bview r (log_start r) = ?x" using assms(2,3) by (intro bview_clean[OF assms(1)]) simp_all
  obtain i t where t: "bread 1 (log_start r) r = Ok i t" "bread_post p r (log_start r) i t"
    using bread_spec[OF assms(1) start_facts(2)[OF assms(4)]] assms(2,3) by (auto simp: NBUF_def MAXOPBLOCKS_def)
  then have P: "bio_inv p t" "holds t i (log_start r)" "bview t = bview r" "disk t = disk r" "dtrace t = dtrace r" "bdirty t = {}"
    "blocked t = {log_start r}" "bio_frame r t"
    using assms(2,3) by (auto simp: bread_post_def)
  note fr = frame_log[OF P(8)]
  let ?l = "fold (\<lambda>i l. l[i := get32 (4 + 4 * i) ?x]) [0..<unat (get32 0 ?x)] (lh_block r)"
  let ?u = "t\<lparr>lh_n := get32 0 ?x, lh_block := ?l\<rparr>"
  have c: "bio_inv p ?u" "holds ?u i (log_start r)" "bview ?u (log_start r) = disk ?u (log_start r)" using P v by simp_all
  obtain w where w: "brelse i ?u = Ok () w" "bio_inv p w" "bview w = bview r" "disk w = disk r" "dtrace w = dtrace r" "bdirty w = {}"
      "blocked w = {}" "bio_frame ?u w"
    using brelse_wp[OF c(1,2)] c(3) P unfolding wp_Ok by auto
  note fw = frame_log[OF w(8)]
  have len: "length (lh_block r) = LOGSIZE" using assms(4) by (rule log_okD)
  have "log_wrote p [] (r\<lparr>lh_block := lh_block w\<rparr>) w" using w(2-7) fw fr assms(2,3) by (simp add: log_wrote_def)
  moreover have "logged w = head_blocks ?x"
    using fw len assms(5) fold_list_update[where n = "unat (get32 0 ?x)" and l = "lh_block r" and f = "\<lambda>i. get32 (4 + 4 * i) ?x"]
    by (intro nth_equalityI) (simp_all add: logged_def head_blocks_def)
  moreover have "log_ok w" using assms(4) fw fr fold_list_update(1)[of "\<lambda>i. get32 (4 + 4 * i) ?x"] by (simp add: log_ok_def)
  moreover have "read_head r = Ok () w"
    using t(1) w(1) log_okD(1)[OF assms(4)] get_data_run[OF P(1,2)] P(3) v fr(5) assms(5)
    by (simp add: read_head_def log_count_run read_head_loop)
  ultimately show ?thesis using fw by (intro exI[of _ w]) simp
qed

text \<open>A header that recovery can follow, relative to a log at \<open>s\<close>.\<close>

definition head_ok :: "'z logst_scheme \<Rightarrow> u8 list \<Rightarrow> bool" where
  "head_ok s x \<longleftrightarrow> unat (get32 0 x) < unat (log_size s) \<and> distinct (head_blocks x) \<and>
     (\<forall>b\<in>set (head_blocks x). b < disksize s \<and> \<not> in_log s b)"

definition recovery_writes :: "'z logst_scheme \<Rightarrow> (u32 \<times> u8 list) list" where
  "recovery_writes r = (let x = disk r (log_start r)
     in map (\<lambda>i. (head_blocks x ! i, disk r (lblk r i))) [0..<length (head_blocks x)])"

lemma recover_run:
  assumes "bio_inv p r" "bdirty r = {}" "blocked r = {}" "log_ok r" "head_ok r (disk r (log_start r))"
  shows "\<exists>t x. recover_from_log r = Ok () t \<and> get32 0 x = 0 \<and> length x = BSIZE \<and> lh_n t = 0 \<and> log_ok t \<and>
    log_wrote p (recovery_writes r @ [(log_start r, x)]) (r\<lparr>lh_block := lh_block t\<rparr>) t"
proof -
  let ?x = "disk r (log_start r)"
  have n: "unat (get32 0 ?x) \<le> LOGSIZE" using assms(5) log_okD(3)[OF assms(4)] by (simp add: head_ok_def)
  obtain r1 where r1: "read_head r = Ok () r1" "log_wrote p [] (r\<lparr>lh_block := lh_block r1\<rparr>) r1" "log_ok r1"
    "lh_n r1 = get32 0 ?x" "logged r1 = head_blocks ?x"
    using read_head_run[OF assms(1-4) n] by blast
  note d1 = log_wroteD[OF r1(2), simplified]
  have tr: "trans_ok r1"
    using assms(5) r1(4,5) d1(7,8,10) by (simp add: trans_ok_def head_ok_def in_log_def)
  have v1: "bview r1 b = disk r b" for b
    using bview_clean[OF assms(1), of b] assms(2,3) d1(2) by simp
  obtain r2 where r2: "install_trans r1 = Ok () r2" "log_wrote p (home_writes r1) r1 r2" "lh_n r2 = lh_n r1"
  proof -
    have "\<exists>t. install_trans r1 = Ok () t \<and> bcache.wrote_list p (home_writes r1) r1 t"
      by (rule install_run[OF d1(1)]) (use d1 assms r1(3) tr in simp_all)
    then show thesis using that log_wrote_list[of p _ r1] by blast
  qed
  have hw: "home_writes r1 = recovery_writes r"
  proof -
    have len: "length (head_blocks ?x) = unat (lh_n r1)" by (simp add: head_blocks_def r1(4))
    have "lh_block r1 ! i = head_blocks ?x ! i" if "i < unat (lh_n r1)" for i
      using logged_nth(2)[OF r1(3) tr that] r1(5) by simp
    then show ?thesis using len v1 d1(7) by (auto simp: home_writes_def recovery_writes_def Let_def)
  qed
  note d2 = log_wroteD[OF log_wrote_clear[OF r2(2), of 0]]
  let ?s = "r2\<lparr>lh_n := 0\<rparr>"
  obtain t where t: "write_head ?s = Ok () t" "log_wrote p [(log_start r, head_bytes 0 (lh_block ?s) (bview ?s (log_start ?s)))] ?s t" "lh_n t = 0"
  proof -
    have "\<exists>t. write_head ?s = Ok () t \<and> bcache.wrote_list p
        [(log_start ?s, head_bytes (unat (lh_n ?s)) (lh_block ?s) (bview ?s (log_start ?s)))] ?s t"
      by (rule write_head_run[OF d2(1)]) (use d1 d2 r1(3) assms in \<open>simp_all add: NBUF_def MAXOPBLOCKS_def\<close>)
    then show thesis using that log_wrote_list[of p _ ?s] d1(7) d2(7) by fastforce
  qed
  let ?h = "head_bytes 0 (lh_block ?s) (bview ?s (log_start ?s))"
  note w = log_wrote_trans[OF log_wrote_trans[OF r1(2) log_wrote_clear[OF r2(2), of 0]] t(2)]
  have "lh_block t = lh_block r1" using log_wroteD(9)[OF t(2)] d2(9) by simp
  then have "log_wrote p (recovery_writes r @ [(log_start r, ?h)]) (r\<lparr>lh_block := lh_block t\<rparr>) t" using w hw by simp
  moreover have "log_ok t" using log_wroteD(11)[OF t(2)] d2(11) r1(3) by simp
  moreover have "get32 0 ?h = 0" "length ?h = BSIZE" using head_bytes_facts[of 0] bview_len[OF d2(1)] by simp_all
  ultimately show ?thesis using r1(1) r2(1) t(1,3) by (intro exI[of _ t] exI[of _ ?h]) (simp add: recover_from_log_def)
qed

subsection \<open>The disk after a crash in the middle of a commit\<close>

abbreviation new_writes :: "'z logst_scheme \<Rightarrow> (u32 \<times> u8 list) list" where
  "new_writes s \<equiv> map (\<lambda>i. (lh_block s ! i, bview s (lh_block s ! i))) [0..<unat (lh_n s)]"

lemma new_writes_take: "log_ok s \<Longrightarrow> trans_ok s \<Longrightarrow> fst ` set (take j (new_writes s)) \<subseteq> set (logged s)"
  using logged_nth(1)[of s] by (auto simp: take_map dest!: in_set_takeD)

lemma new_writes_all:
  assumes "log_ok s" "trans_ok s" "b \<in> set (logged s)"
  shows "apply_writes (new_writes s) d b = bview s b"
proof -
  obtain i where i: "i < unat (lh_n s)" "b = lh_block s ! i"
    using assms(3) by (auto simp: logged_def in_set_conv_nth)
  have "distinct (map ((!) (lh_block s)) [0..<unat (lh_n s)])"
  proof -
    have "map ((!) (lh_block s)) [0..<unat (lh_n s)] = logged s"
      using lh_n_small[OF assms(1,2)] log_okD(5)[OF assms(1)] by (intro nth_equalityI) (simp_all add: logged_def)
    then show ?thesis using assms(2) by (simp add: trans_ok_def)
  qed
  then show ?thesis unfolding i(2) using i(1) by (intro apply_writes_map) simp_all
qed

lemma commit_writes_split:
  "commit_writes s = log_writes s @ (log_start s, commit_head s) # new_writes s @ [(log_start s, head_bytes 0 (lh_block s) (commit_head s))]"
  "length (log_writes s) = unat (lh_n s)" "length (new_writes s) = unat (lh_n s)"
  by (simp_all add: commit_writes_def log_writes_def)

lemma log_writes_outside:
  assumes "log_ok s" "trans_ok s" "\<not> in_log s b \<or> b = log_start s"
  shows "apply_writes (take j (log_writes s)) d b = d b"
proof (rule apply_writes_outside)
  show "b \<notin> fst ` set (take j (log_writes s))"
    using log_writes_in_log[OF assms(1,2), of b] assms(3) by (auto dest!: in_set_takeD)
qed

text \<open>Before the header is written, while it names the transaction, and when it is empty again.\<close>

lemma crash_before:
  assumes "log_inv p s" "k \<le> unat (lh_n s)" "d = apply_writes (take k (commit_writes s)) (disk s)"
  shows "d (log_start s) = disk s (log_start s)" "\<not> in_log s b \<Longrightarrow> d b = disk s b"
proof -
  have I: "log_ok s" "trans_ok s" using assms(1) by (auto simp: log_inv_def)
  have "take k (commit_writes s) = take k (log_writes s)" using assms(2) commit_writes_split[of s] by simp
  then show "d (log_start s) = disk s (log_start s)" "\<not> in_log s b \<Longrightarrow> d b = disk s b"
    using log_writes_outside[OF I] assms(3) by simp_all
qed

lemma crash_during:
  assumes "log_inv p s" "unat (lh_n s) < k" "k \<le> Suc (2 * unat (lh_n s))" "d = apply_writes (take k (commit_writes s)) (disk s)"
  shows "d (log_start s) = commit_head s" "i < unat (lh_n s) \<Longrightarrow> d (lblk s i) = bview s (lh_block s ! i)"
    "\<not> in_log s b \<Longrightarrow> b \<notin> set (logged s) \<Longrightarrow> d b = disk s b"
proof -
  have I: "log_ok s" "trans_ok s" using assms(1) by (auto simp: log_inv_def)
  let ?n = "unat (lh_n s)"
  let ?hw = "take (k - Suc ?n) (new_writes s)"
  have "take k (commit_writes s) = log_writes s @ (log_start s, commit_head s) # ?hw"
    using assms(2,3) commit_writes_split[of s] by (simp add: take_Cons')
  then have d: "d = apply_writes ?hw ((apply_writes (log_writes s) (disk s))(log_start s := commit_head s))"
    using assms(4) by (simp add: apply_writes_def)
  have out: "apply_writes ?hw e b = e b" if "b \<notin> set (logged s)" for e b
    using that new_writes_take[OF I] by (intro apply_writes_outside) blast
  have nl: "b \<notin> set (logged s)" if "in_log s b" for b using that I(2) by (auto simp: trans_ok_def)
  show "d (log_start s) = commit_head s" unfolding d using out[OF nl[OF start_facts(1)[OF I(1)]]] by simp
  show "d (lblk s i) = bview s (lh_block s ! i)" if i: "i < ?n"
  proof -
    have "Suc i < unat (log_size s)" using i I(2) by (simp add: trans_ok_def)
    note L = lblk_facts[OF I(1) this]
    show ?thesis unfolding d using out[OF nl[OF L(2)]] L(4) log_writes_nth[OF I i] by simp
  qed
  show "d b = disk s b" if "\<not> in_log s b" "b \<notin> set (logged s)"
    unfolding d using out[OF that(2)] that(1) start_facts(1)[OF I(1)] log_writes_outside[OF I, of b "length (log_writes s)"] by auto
qed

lemma crash_after:
  assumes "log_inv p s" "Suc (2 * unat (lh_n s)) < k" "d = apply_writes (take k (commit_writes s)) (disk s)"
  shows "d (log_start s) = head_bytes 0 (lh_block s) (commit_head s)" "\<not> in_log s b \<Longrightarrow> d b = bview s b"
proof -
  have I: "log_ok s" "trans_ok s" "bio_inv p s" "blocked s = {}" "bdirty s = set (logged s)" using assms(1) by (auto simp: log_inv_def)
  have "take k (commit_writes s) = commit_writes s" using assms(2) commit_writes_split[of s] by simp
  then have d: "d = (apply_writes (new_writes s) ((apply_writes (log_writes s) (disk s))(log_start s := commit_head s)))
      (log_start s := head_bytes 0 (lh_block s) (commit_head s))"
    using assms(3) unfolding commit_writes_split(1) by (simp add: apply_writes_def)
  show "d (log_start s) = head_bytes 0 (lh_block s) (commit_head s)" unfolding d by simp
  assume b: "\<not> in_log s b"
  then have nb: "b \<noteq> log_start s" using start_facts(1)[OF I(1)] by blast
  show "d b = bview s b"
  proof (cases "b \<in> set (logged s)")
    case True
    then show ?thesis unfolding d using nb new_writes_all[OF I(1,2)] by simp
  next
    case False
    have "apply_writes (new_writes s) e b = e b" for e
      using False new_writes_take[OF I(1,2), of "length (new_writes s)"] by (intro apply_writes_outside) auto
    moreover have "bview s b = disk s b" using False I(4,5) by (intro bview_clean[OF I(3)]) simp_all
    ultimately show ?thesis unfolding d
      using nb log_writes_outside[OF I(1,2), of b "length (log_writes s)"] b by simp
  qed
qed


lemma head_blocks_commit:
  assumes "log_inv p s"
  shows "head_blocks (commit_head s) = logged s" "get32 0 (commit_head s) = lh_n s" "length (commit_head s) = BSIZE"
    "head_ok s (commit_head s)"
proof -
  have I: "log_ok s" "trans_ok s" "bio_inv p s" using assms by (auto simp: log_inv_def)
  have small: "unat (lh_n s) \<le> LOGSIZE" using lh_n_small[OF I(1,2)] by simp
  note h = head_bytes_facts[OF small bview_len[OF I(3), of "log_start s"], where bl = "lh_block s", folded commit_head_def]
  show n: "get32 0 (commit_head s) = lh_n s" and "length (commit_head s) = BSIZE" using h by (simp_all add: commit_head_def)
  show b: "head_blocks (commit_head s) = logged s"
    using h(3) n lh_n_small[OF I(1,2)] log_okD(5)[OF I(1)]
    by (intro nth_equalityI) (simp_all add: head_blocks_def logged_def commit_head_def)
  show "head_ok s (commit_head s)" using I(2) by (simp add: head_ok_def n b trans_ok_def)
qed

lemma empty_head: "get32 0 x = 0 \<Longrightarrow> head_blocks x = [] \<and> (log_ok s \<longrightarrow> head_ok s x)"
  by (auto simp: head_blocks_def head_ok_def log_ok_def)

text \<open>What recovery does to the home blocks.\<close>

lemma recover_home:
  assumes "bio_inv q r" "bdirty r = {}" "blocked r = {}" "log_ok r" "head_ok r (disk r (log_start r))"
  shows "\<exists>u. recover_from_log r = Ok () u \<and> log_inv q u \<and> bview u = disk u \<and> lh_n u = 0 \<and>
    (\<forall>b. \<not> in_log r b \<longrightarrow> disk u b = (if b \<in> set (head_blocks (disk r (log_start r)))
        then apply_writes (recovery_writes r) (disk r) b else disk r b))"
proof -
  obtain u x where u: "recover_from_log r = Ok () u" "get32 0 x = 0" "length x = BSIZE" "lh_n u = 0" "log_ok u"
    "log_wrote q (recovery_writes r @ [(log_start r, x)]) (r\<lparr>lh_block := lh_block u\<rparr>) u"
    using recover_run[OF assms] by blast
  note d = log_wroteD[OF u(6), simplified]
  have "disk u b = (if b \<in> set (head_blocks (disk r (log_start r))) then apply_writes (recovery_writes r) (disk r) b else disk r b)"
    if "\<not> in_log r b" for b
  proof -
    have "b \<noteq> log_start r" using that start_facts(1)[OF assms(4)] by blast
    then have "disk u b = apply_writes (recovery_writes r) (disk r) b" using d(3) by simp
    moreover have "apply_writes (recovery_writes r) (disk r) b = disk r b" if "b \<notin> set (head_blocks (disk r (log_start r)))"
      using that by (intro apply_writes_outside) (auto simp: recovery_writes_def Let_def)
    ultimately show ?thesis by simp
  qed
  moreover have dirt: "bdirty u = {}" "blocked u = {}" using d(5,6) assms(2,3) by auto
  moreover have "trans_ok u" using u(4) log_okD(2)[OF u(5)] by (simp add: trans_ok_def logged_def)
  moreover have "bdirty u = set (logged u)" using dirt u(4) by (simp add: logged_def)
  moreover have "get32 0 (disk u (log_start u)) = 0" using d(3,7) u(2) by simp
  moreover have "bview u = disk u" using dirt by (intro ext bview_clean[OF d(1)]) simp_all
  ultimately show ?thesis using u(1,4,5) d(1) by (auto simp: log_inv_def)
qed

lemma recovery_writes_nth:
  assumes "distinct (head_blocks (disk r (log_start r)))" "i < length (head_blocks (disk r (log_start r)))"
  shows "apply_writes (recovery_writes r) e (head_blocks (disk r (log_start r)) ! i) = disk r (lblk r i)"
proof -
  let ?h = "head_blocks (disk r (log_start r))"
  have "map ((!) ?h) [0..<length ?h] = ?h" by (rule map_nth)
  then show ?thesis unfolding recovery_writes_def Let_def using assms by (intro apply_writes_map) simp_all
qed

lemma crash_cases:
  assumes "log_inv p s" "d = apply_writes (take k (commit_writes s)) (disk s)"
    "bio_inv q r" "bdirty r = {}" "blocked r = {}" "log_ok r" "log_start r = log_start s" "log_size r = log_size s"
    "disksize r = disksize s" "disk r = d"
  shows "\<exists>u. recover_from_log r = Ok () u \<and> log_inv q u \<and> bview u = disk u \<and>
    (\<forall>b. \<not> in_log s b \<longrightarrow> disk u b = (if k \<le> unat (lh_n s) then disk s b else bview s b))"
proof -
  have I: "log_ok s" "trans_ok s" "bio_inv p s" "blocked s = {}" "bdirty s = set (logged s)" "get32 0 (disk s (log_start s)) = 0"
    using assms(1) by (auto simp: log_inv_def)
  have il: "in_log r = in_log s" using assms(7,8) by (simp add: in_log_def fun_eq_iff)
  have ho: "head_ok r x = head_ok s x" for x using assms(8,9) il by (simp add: head_ok_def)
  consider "k \<le> unat (lh_n s)" | "unat (lh_n s) < k" "k \<le> Suc (2 * unat (lh_n s))" | "Suc (2 * unat (lh_n s)) < k"
    by linarith
  then show ?thesis
  proof cases
    case 1
    note c = crash_before[OF assms(1) 1 assms(2)]
    have "head_ok r (disk r (log_start r))" "head_blocks (disk r (log_start r)) = []"
      using c(1) assms(7,10) empty_head[OF I(6), of s] I(1) ho by simp_all
    then show ?thesis using recover_home[OF assms(3-6)] c(2) 1 il assms(10) by fastforce
  next
    case 2
    note c = crash_during[OF assms(1) 2 assms(2)]
    note h = head_blocks_commit[OF assms(1)]
    have x: "disk r (log_start r) = commit_head s" using c(1) assms(7,10) by simp
    have "head_ok r (disk r (log_start r))" unfolding x ho by (rule h(4))
    from recover_home[OF assms(3-6) this] obtain u where u: "recover_from_log r = Ok () u" "log_inv q u" "bview u = disk u"
      "\<And>b. \<not> in_log r b \<Longrightarrow> disk u b = (if b \<in> set (logged s) then apply_writes (recovery_writes r) (disk r) b else disk r b)"
      unfolding x h(1) by blast
    have "disk u b = bview s b" if b: "\<not> in_log s b" for b
    proof (cases "b \<in> set (logged s)")
      case True
      then obtain i where i: "i < length (logged s)" "b = logged s ! i" by (metis in_set_conv_nth)
      then have n: "i < unat (lh_n s)" by (simp add: logged_def)
      have "distinct (logged s)" using I(2) by (simp add: trans_ok_def)
      then have "apply_writes (recovery_writes r) (disk r) b = disk r (lblk r i)"
        using recovery_writes_nth[of r i] i unfolding x h(1) by simp
      also have "\<dots> = bview s b" using c(2)[OF n] assms(7,10) i(2) logged_nth(2)[OF I(1,2) n] by simp
      finally show ?thesis using u(4) b True il by simp
    next
      case False
      have "bview s b = disk s b" using False I(4,5) by (intro bview_clean[OF I(3)]) simp_all
      then show ?thesis using u(4) b False il c(3) assms(10) by simp
    qed
    then show ?thesis using u(1-3) 2 by auto
  next
    case 3
    note c = crash_after[OF assms(1) 3 assms(2)]
    have x: "get32 0 (disk r (log_start r)) = 0"
      using c(1) assms(7,10) head_bytes_facts(2)[of 0 "commit_head s" "lh_block s"] head_blocks_commit(3)[OF assms(1)] by simp
    have "head_ok r (disk r (log_start r))" "head_blocks (disk r (log_start r)) = []"
      using empty_head[OF x, of r] assms(6) by simp_all
    then show ?thesis using recover_home[OF assms(3-6)] c(2) 3 il assms(10) by fastforce
  qed
qed

subsection \<open>Writing blocks in a transaction\<close>

text \<open>Everything but the cache and the in-memory header.\<close>

definition log_frame :: "'z logst_scheme \<Rightarrow> 'z logst_scheme \<Rightarrow> bool" where
  "log_frame s t \<longleftrightarrow> logst.more t = logst.more s \<and> map pid (ptable t) = map pid (ptable s) \<and>
     (\<forall>l. slocks t (SL_inode l) = slocks s (SL_inode l)) \<and> disksize t = disksize s \<and> mailboxes t = mailboxes s \<and>
     kmemory t = kmemory s \<and> freelist t = freelist s \<and> log_start t = log_start s \<and> log_size t = log_size s \<and>
     log_dev t = log_dev s \<and> log_outstanding t = log_outstanding s \<and> log_committing t = log_committing s"

lemma log_frame_refl [simp]: "log_frame s s"
  by (simp add: log_frame_def)

lemma log_frame_trans: "log_frame s t \<Longrightarrow> log_frame t u \<Longrightarrow> log_frame s u"
  by (simp add: log_frame_def)

lemma log_frame_bio: "bio_frame s t \<Longrightarrow> log_frame s t"
  using frame_log[of s t] by (simp add: log_frame_def bio_frame_def)

lemma log_frame_in_log: "log_frame s t \<Longrightarrow> in_log t = in_log s"
  by (simp add: log_frame_def in_log_def fun_eq_iff)

definition add_block :: "'z logst_scheme \<Rightarrow> u32 \<Rightarrow> 'z logst_scheme" where
  "add_block s b = (let n = unat (lh_n s) in
     case find_index (\<lambda>bn. bn = b) (logged s) of
       Some j \<Rightarrow> s\<lparr>lh_block := (lh_block s)[j := b]\<rparr>
     | None \<Rightarrow> s\<lparr>lh_block := (lh_block s)[n := b], lh_n := lh_n s + 1\<rparr>)"

lemma add_block_facts:
  assumes "log_ok s" "trans_ok s" "Suc (unat (lh_n s)) < unat (log_size s)" "\<not> in_log s b" "b < disksize s"
  shows "log_ok (add_block s b)" "trans_ok (add_block s b)"
    "logged (add_block s b) = (if b \<in> set (logged s) then logged s else logged s @ [b])"
proof -
  have n: "unat (lh_n s) < LOGSIZE" using lh_n_small[OF assms(1,2)] .
  have len: "length (lh_block s) = LOGSIZE" using log_okD(5)[OF assms(1)] .
  have s1: "unat (lh_n s + 1) = Suc (unat (lh_n s))"
    using n by (subst unat_add_lem[THEN iffD1]) (simp_all add: LOGSIZE_val)
  show ok: "log_ok (add_block s b)" using assms(1) by (auto simp: add_block_def log_ok_def Let_def split: option.split)
  show l: "logged (add_block s b) = (if b \<in> set (logged s) then logged s else logged s @ [b])"
  proof (cases "find_index (\<lambda>bn. bn = b) (logged s)")
    case None
    then have "b \<notin> set (logged s)" by (auto simp: find_index_None)
    then show ?thesis using None n len by (simp add: add_block_def logged_def s1 take_Suc_conv_app_nth)
  next
    case (Some j)
    then have j: "j < length (logged s)" "logged s ! j = b" by (auto dest: find_index_SomeD)
    then have "(lh_block s)[j := b] = lh_block s" by (intro list_update_same_conv[THEN iffD2]) (auto simp: logged_def)
    moreover have "b \<in> set (logged s)" using j nth_mem by blast
    ultimately show ?thesis using Some by (simp add: add_block_def logged_def)
  qed
  have "unat (lh_n (add_block s b)) < unat (log_size s)"
    using assms(2,3) s1 by (simp add: add_block_def Let_def trans_ok_def split: option.split)
  then show "trans_ok (add_block s b)"
    using assms(2,4,5) unfolding trans_ok_def l by (auto simp: add_block_def in_log_def Let_def split: option.splits)
qed

lemma add_block_bio [simp]:
  "bio_inv p (add_block s b) = bio_inv p s" "bview (add_block s b) = bview s" "bdirty (add_block s b) = bdirty s"
  "blocked (add_block s b) = blocked s" "holds (add_block s b) = holds s" "disk (add_block s b) = disk s"
  "dtrace (add_block s b) = dtrace s" "log_frame s (add_block s b)" "bufs (add_block s b) = bufs s"
  "slocks (add_block s b) = slocks s" "held (add_block s b) = held s"
  by (simp_all add: add_block_def Let_def log_frame_def split: option.split)

lemma log_write_state:
  assumes "held s = []" "b_blockno (bufs s ! i) = b" "log_ok s" "trans_ok s" "Suc (unat (lh_n s)) < unat (log_size s)"
    "1 \<le> sint (log_outstanding s)"
  shows "log_write i s = upd_buf i (\<lambda>x. x\<lparr>b_flags := b_flags x OR B_DIRTY\<rparr>) (add_block s b)"
proof -
  have n: "unat (lh_n s) < LOGSIZE" using lh_n_small[OF assms(3,4)] .
  have sn: "sint (lh_n s) = int (unat (lh_n s))" by (rule sint_unat_iff) (use n in \<open>simp add: LOGSIZE_val\<close>)
  have "unat (log_size s - 1) = unat (log_size s) - 1" using assms(5) by (intro unat_minus_one) auto
  then have u: "unat (log_size s - 1) = unat (log_size s) - 1" "unat (log_size s) \<le> LOGSIZE" using log_okD(3)[OF assms(3)] by simp_all
  then have "sint (log_size s - 1) = int (unat (log_size s) - 1)"
    using sint_unat_iff[of "log_size s - 1"] by (simp only: u(1)) (simp add: LOGSIZE_val)
  then have c: "\<not> sint (lh_n s) \<ge> int LOGSIZE" "\<not> sint (lh_n s) \<ge> sint (log_size s - 1)" "nat (sint (lh_n s)) = unat (lh_n s)"
    using sn n assms(5) by linarith+
  have o: "\<not> sint (log_outstanding s) < 1" using assms(6) by linarith
  have f: "find_index (\<lambda>bn. bn = b) (logged s) = Some j \<Longrightarrow> j \<noteq> unat (lh_n s)" for j
    by (auto simp: logged_def dest: find_index_SomeD(1))
  show ?thesis
  proof (cases "find_index (\<lambda>bn. bn = b) (logged s)")
    case None
    then show ?thesis using c o assms(1,2)
      by (simp add: log_write_def Let_def kwhen_def add_block_def logged_def[symmetric] held_self)
  next
    case (Some j)
    then show ?thesis using c o assms(1,2) f[OF Some]
      by (simp add: log_write_def Let_def kwhen_def add_block_def logged_def[symmetric] held_self)
  qed
qed

text \<open>\<open>log_write\<close> of a held buffer: the block joins the transaction, once.\<close>

lemma log_write_run:
  assumes "bio_inv p s" "holds s i b" "log_ok s" "trans_ok s" "Suc (unat (lh_n s)) < unat (log_size s)"
    "1 \<le> sint (log_outstanding s)" "\<not> in_log s b"
  shows "\<exists>t. log_write i s = Ok () t \<and> bio_inv p t \<and> log_ok t \<and> trans_ok t \<and>
    logged t = (if b \<in> set (logged s) then logged s else logged s @ [b]) \<and> bview t = bview s \<and> disk t = disk s \<and>
    dtrace t = dtrace s \<and> bdirty t = insert b (bdirty s) \<and> blocked t = blocked s \<and> (\<forall>j b'. holds t j b' = holds s j b') \<and> log_frame s t"
proof -
  let ?a = "add_block s b"
  have h: "caches (bufs s) i b" "blk s i" using assms(2) by (auto simp: holds_def)
  have ok: "buf_ok s p i" using bio_invD(2)[OF assms(1)] caches_lt[OF h(1)] .
  then have b: "b < disksize s" "b_blockno (bufs s ! i) = b" using h by (auto simp: buf_ok_def caches_def)
  have c: "bio_inv p ?a" "caches (bufs ?a) i b" "blk ?a i" using assms(1) h by simp_all
  obtain t where t: "upd_buf i (\<lambda>x. x\<lparr>b_flags := b_flags x OR B_DIRTY\<rparr>) ?a = Ok () t" "held_post p ?a b i t"
    "bview t = bview s" "disk t = disk s" "dtrace t = dtrace s" "bdirty t = insert b (bdirty s)"
    using mark_dirty_spec[OF c] by auto
  then have P: "bio_inv p t" "\<forall>j b'. holds t j b' = holds s j b'" "blocked t = blocked s" "bio_frame ?a t" by (auto simp: held_post_def)
  note fr = frame_log[OF P(4)]
  note A = add_block_facts[OF assms(3,4,5,7) b(1)]
  have "log_write i s = Ok () t" using log_write_state[OF bio_invD(5)[OF assms(1)] b(2) assms(3-6)] t(1) by simp
  moreover have "log_ok t" "trans_ok t" "logged t = logged ?a" using A log_ok_frame[OF P(4)] logged_frame[OF P(4)] in_log_frame[OF P(4)] fr
    by (simp_all add: trans_ok_def)
  moreover have "log_frame s t" using log_frame_trans[OF add_block_bio(8) log_frame_bio[OF P(4)]] .
  ultimately show ?thesis using t(3-6) P(1-3) A(3) by (intro exI[of _ t]) simp
qed

text \<open>The state of the log while a process may hold buffers.\<close>

definition log_st :: "nat \<Rightarrow> 'z logst_scheme \<Rightarrow> bool" where
  "log_st p s \<longleftrightarrow> bio_inv p s \<and> log_ok s \<and> trans_ok s \<and> bdirty s = set (logged s) \<and> get32 0 (disk s (log_start s)) = 0"

lemma log_inv_st: "log_inv p s \<longleftrightarrow> log_st p s \<and> blocked s = {}"
  by (auto simp: log_inv_def log_st_def)

lemma log_stD:
  assumes "log_st p s"
  shows "bio_inv p s" "log_ok s" "trans_ok s" "bdirty s = set (logged s)" "get32 0 (disk s (log_start s)) = 0"
  using assms by (auto simp: log_st_def)

text \<open>The pieces of code of the file system: reading a block and changing one in a transaction.\<close>

definition update_block :: "u32 \<Rightarrow> (u8 list \<Rightarrow> u8 list) \<Rightarrow> ('z logst_scheme, unit) kprog" where
  "update_block b g = kbind (bread 1 b) (\<lambda>i. kbind (get_data i) (\<lambda>x. kseq [set_data i (g x), log_write i, brelse i]))"

definition room :: "nat \<Rightarrow> 'z logst_scheme \<Rightarrow> bool" where
  "room k s \<longleftrightarrow> length (logged s) + k < unat (log_size s) \<and> 1 \<le> sint (log_outstanding s)"

lemma length_logged: "log_ok s \<Longrightarrow> trans_ok s \<Longrightarrow> length (logged s) = unat (lh_n s)"
  using log_okD(5)[of s] lh_n_small[of s] by (simp add: logged_def)

lemma bread_log:
  assumes "log_st p s" "b < disksize s" "b \<notin> blocked s" "card (bdirty s \<union> blocked s) < NBUF"
  shows "\<exists>i t. bread 1 b s = Ok i t \<and> log_st p t \<and> holds t i b \<and> bview t = bview s \<and> disk t = disk s \<and>
    blocked t = insert b (blocked s) \<and> bdirty t = bdirty s \<and> logged t = logged s \<and> log_frame s t \<and> (\<forall>j b'. holds s j b' \<longrightarrow> holds t j b')"
proof -
  note I = log_stD[OF assms(1)]
  obtain i t where t: "bread 1 b s = Ok i t" "bread_post p s b i t" using bread_spec[OF I(1) assms(2,3)] assms(4) by blast
  then have P: "bio_inv p t" "holds t i b" "bview t = bview s" "disk t = disk s" "bdirty t = bdirty s" "blocked t = insert b (blocked s)"
    "\<forall>j b'. holds s j b' \<longrightarrow> holds t j b'" "bio_frame s t" by (auto simp: bread_post_def)
  note fr = frame_log[OF P(8)]
  have "log_st p t" using P I fr log_ok_frame[OF P(8)] logged_frame[OF P(8)] in_log_frame[OF P(8)] by (simp add: log_st_def trans_ok_def)
  then show ?thesis using t(1) P logged_frame[OF P(8)] log_frame_bio[OF P(8)] by (intro exI[of _ i] exI[of _ t]) simp
qed

lemma brelse_log:
  assumes "log_st p s" "holds s i b" "b \<in> bdirty s \<or> bview s b = disk s b"
  shows "\<exists>t. brelse i s = Ok () t \<and> log_st p t \<and> bview t = bview s \<and> disk t = disk s \<and> blocked t = blocked s - {b} \<and>
    bdirty t = bdirty s \<and> logged t = logged s \<and> log_frame s t \<and> (\<forall>j b'. holds s j b' \<and> b' \<noteq> b \<longrightarrow> holds t j b')"
proof -
  note I = log_stD[OF assms(1)]
  obtain t where P: "brelse i s = Ok () t" "bio_inv p t" "bview t = bview s" "disk t = disk s" "bdirty t = bdirty s" "blocked t = blocked s - {b}"
    "\<forall>j b'. holds s j b' \<and> b' \<noteq> b \<longrightarrow> holds t j b'" "bio_frame s t"
    using brelse_wp[OF I(1) assms(2,3)] unfolding wp_Ok by auto
  note fr = frame_log[OF P(8)]
  have "log_st p t" using P I fr log_ok_frame[OF P(8)] logged_frame[OF P(8)] in_log_frame[OF P(8)] by (simp add: log_st_def trans_ok_def)
  then show ?thesis using P logged_frame[OF P(8)] log_frame_bio[OF P(8)] by (intro exI[of _ t]) simp
qed

lemma clean_or_dirty: "log_st p s \<Longrightarrow> b \<notin> blocked s \<Longrightarrow> b \<in> bdirty s \<or> bview s b = disk s b"
  using bview_clean[of p s b] by (auto simp: log_st_def)

text \<open>Reading a block and releasing it leaves the contents of all blocks alone.\<close>

lemma read_block_run:
  assumes "log_st p s" "b < disksize s" "b \<notin> blocked s" "card (bdirty s \<union> blocked s) < NBUF"
  shows "\<exists>t. (\<forall>k. kbind (bread 1 b) (\<lambda>i. kbind (get_data i) (\<lambda>x. kbind (brelse i) (\<lambda>_. k x))) s = k (bview s b) t) \<and>
    log_st p t \<and> bview t = bview s \<and> disk t = disk s \<and> blocked t = blocked s \<and> bdirty t = bdirty s \<and> logged t = logged s \<and> log_frame s t"
proof -
  obtain i t where t: "bread 1 b s = Ok i t" "log_st p t" "holds t i b" "bview t = bview s" "disk t = disk s"
    "blocked t = insert b (blocked s)" "bdirty t = bdirty s" "logged t = logged s" "log_frame s t"
    using bread_log[OF assms] by blast
  have c: "b \<in> bdirty t \<or> bview t b = disk t b" using clean_or_dirty[OF assms(1,3)] t(4,5,7) by simp
  obtain u where u: "brelse i t = Ok () u" "log_st p u" "bview u = bview t" "disk u = disk t" "blocked u = blocked t - {b}"
    "bdirty u = bdirty t" "logged u = logged t" "log_frame t u"
    using brelse_log[OF t(2,3) c] by blast
  have "blocked t - {b} = blocked s" using t(6) assms(3) by auto
  then show ?thesis using t u get_data_run[OF log_stD(1)[OF t(2)] t(3)] log_frame_trans[OF t(9) u(8)]
    by (intro exI[of _ u]) simp
qed

lemma update_block_run:
  assumes "log_st p s" "b < disksize s" "b \<notin> blocked s" "card (bdirty s \<union> blocked s) < NBUF" "room 1 s" "\<not> in_log s b"
    "length (g (bview s b)) = BSIZE"
  shows "\<exists>t. update_block b g s = Ok () t \<and> log_st p t \<and> bview t = (bview s)(b := g (bview s b)) \<and> disk t = disk s \<and>
    blocked t = blocked s \<and> logged t = (if b \<in> set (logged s) then logged s else logged s @ [b]) \<and> log_frame s t"
proof -
  obtain i t where t: "bread 1 b s = Ok i t" "log_st p t" "holds t i b" "bview t = bview s" "disk t = disk s"
    "blocked t = insert b (blocked s)" "bdirty t = bdirty s" "logged t = logged s" "log_frame s t"
    using bread_log[OF assms(1-4)] by blast
  note T = log_stD[OF t(2)]
  obtain u where u: "set_data i (g (bview s b)) t = Ok () u" "bio_inv p u" "bview u = (bview s)(b := g (bview s b))"
    "disk u = disk t" "bdirty u = bdirty t" "blocked u = blocked t" "\<forall>j b'. holds u j b' = holds t j b'" "bio_frame t u"
    using set_data_wp[OF T(1) t(3) assms(7)] t(4) unfolding wp_Ok by auto
  note fr = frame_log[OF u(8)]
  have h: "holds u i b" using u(7) t(3) by simp
  have U: "log_ok u" "trans_ok u" "logged u = logged s" "in_log u = in_log s"
    using T log_ok_frame[OF u(8)] logged_frame[OF u(8)] in_log_frame[OF u(8)] fr t(8) log_frame_in_log[OF t(9)] by (simp_all add: trans_ok_def)
  have sm: "log_size u = log_size s" "log_outstanding u = log_outstanding s" using fr t(9) by (simp_all add: log_frame_def)
  have r: "Suc (unat (lh_n u)) < unat (log_size u)" "1 \<le> sint (log_outstanding u)" "\<not> in_log u b"
    using assms(5,6) U sm length_logged[OF U(1,2)] by (simp_all add: room_def)
  obtain v where v: "log_write i u = Ok () v" "bio_inv p v" "log_ok v" "trans_ok v"
    "logged v = (if b \<in> set (logged u) then logged u else logged u @ [b])" "bview v = bview u" "disk v = disk u"
    "bdirty v = insert b (bdirty u)" "blocked v = blocked u" "\<forall>j b'. holds v j b' = holds u j b'" "log_frame u v"
    using log_write_run[OF u(2) h U(1,2) r] by blast
  have V: "log_st p v" using v T(4,5) u(4,5) U(3) t(8) fr(1) by (auto simp: log_st_def log_frame_def)
  obtain w where w: "brelse i v = Ok () w" "log_st p w" "bview w = bview v" "disk w = disk v" "blocked w = blocked v - {b}"
    "bdirty w = bdirty v" "logged w = logged v" "log_frame v w"
    using brelse_log[OF V, of i b] h v(8,10) by auto
  have "blocked v - {b} = blocked s" using v(9) u(6) t(6) assms(3) by auto
  moreover have "log_frame s w"
    using log_frame_trans[OF t(9)] log_frame_trans[OF log_frame_bio[OF u(8)]] log_frame_trans[OF v(11) w(8)] by blast
  ultimately show ?thesis
    using t(1,5) u(1,3,4) v(1,5,6,7) w U(3) get_data_run[OF T(1) t(3)] t(4)
    by (intro exI[of _ w]) (simp add: update_block_def)
qed

subsection \<open>Opening and closing operations\<close>

lemma begin_op_run:
  assumes "held s = []" "curproc s = Some p" "p < length (ptable s)"
  shows "begin_op s = (if log_committing s \<or> sint (lh_n s + (log_outstanding s + 1) * of_nat MAXOPBLOCKS) > int LOGSIZE
    then Sleep Ch_log (s\<lparr>held := [LK_ptable], ptable := upd_at p (\<lambda>q. q\<lparr>chan := Some Ch_log, pstate := SLEEPING\<rparr>) (ptable s)\<rparr>)
    else Ok () (s\<lparr>log_outstanding := log_outstanding s + 1\<rparr>))"
  using assms by (simp add: begin_op_def begin_op_loop_def sleep_run[where p = p] held_self)

lemma bio_wake [simp]:
  fixes s :: "'z bio_scheme"
  shows "bio_inv p (s\<lparr>ptable := map (wake c) (ptable s)\<rparr>) = bio_inv p s"
    "bview (s\<lparr>ptable := map (wake c) (ptable s)\<rparr>) = bview s" "bdirty (s\<lparr>ptable := map (wake c) (ptable s)\<rparr>) = bdirty s"
    "blocked (s\<lparr>ptable := map (wake c) (ptable s)\<rparr>) = blocked s"
  by (auto simp: bio_inv_def buf_ok_def locked_by_def bview_def fun_eq_iff bdirty_def blocked_def wake_def split: option.split)

lemma log_flags_upd [simp]:
  fixes s :: "'z logst_scheme"
  shows "log_inv p (s\<lparr>log_outstanding := k\<rparr>) = log_inv p s" "log_inv p (s\<lparr>log_committing := c\<rparr>) = log_inv p s"
    "log_inv p (s\<lparr>ptable := map (wake ch) (ptable s)\<rparr>) = log_inv p s"
    "bview (s\<lparr>log_outstanding := k\<rparr>) = bview s" "bview (s\<lparr>log_committing := c\<rparr>) = bview s"
  by (auto simp: log_inv_def bio_inv_def buf_ok_def locked_by_def bview_def fun_eq_iff bdirty_def blocked_def log_ok_def trans_ok_def logged_def
      in_log_def wake_def split: option.split)

lemma commit_durable:
  assumes "log_inv p s"
  shows "\<exists>t. commit s = Ok () t \<and> log_inv p t \<and> lh_n t = 0 \<and> log_outstanding t = log_outstanding s \<and> log_committing t = log_committing s \<and>
    in_log t = in_log s \<and> (\<forall>b. \<not> in_log s b \<longrightarrow> disk t b = bview s b) \<and> (\<forall>b. \<not> in_log s b \<longrightarrow> bview t b = bview s b)"
proof (cases "unat (lh_n s) = 0")
  case True
  then have z: "lh_n s = 0" by (simp add: unat_eq_zero)
  then have "bdirty s = {}" "blocked s = {}" "bio_inv p s" using assms by (auto simp: log_inv_def logged_def)
  then show ?thesis using z assms bview_clean[of p s] by (intro exI[of _ s]) (simp add: commit_def kwhen_def)
next
  case False
  then obtain t where t: "commit s = Ok () t" "log_wrote p (commit_writes s) s t" "lh_n t = 0" using commit_run[OF assms] by blast
  note d = log_wroteD[OF t(2)]
  have I: "log_ok s" "trans_ok s" "bio_inv p s" "blocked s = {}" "bdirty s = set (logged s)" using assms by (auto simp: log_inv_def)
  have ds: "disk t = apply_writes (take (Suc (Suc (2 * unat (lh_n s)))) (commit_writes s)) (disk s)"
    using d(3) commit_writes_split[of s] by simp
  note c = crash_after[OF assms lessI ds]
  have "map fst (new_writes s) = logged s"
    using lh_n_small[OF I(1,2)] log_okD(5)[OF I(1)] by (intro nth_equalityI) (simp_all add: logged_def)
  then have "fst ` set (new_writes s) = set (logged s)" by (metis set_map)
  then have dirt: "bdirty t = {}" unfolding d(5) I(5) commit_writes_split(1) by (simp add: image_Un) blast
  have v: "bview t b = disk t b" for b using dirt d(6) I(4) by (intro bview_clean[OF d(1)]) simp_all
  have "get32 0 (disk t (log_start s)) = 0"
    unfolding c(1) using head_bytes_facts(2)[of 0 "commit_head s" "lh_block s"] head_blocks_commit(3)[OF assms] by simp
  then have "log_inv p t" using d dirt I t(3) log_okD(2)[OF I(1)] by (simp add: log_inv_def trans_ok_def logged_def)
  moreover have "in_log t = in_log s" using d(7,8) by (simp add: in_log_def fun_eq_iff)
  ultimately show ?thesis using t(1,3) d(12,13) c(2) v by (intro exI[of _ t]) simp
qed

lemma end_op_run:
  assumes "log_inv p s" "log_outstanding s = 1" "\<not> log_committing s"
  shows "\<exists>t. end_op s = Ok () t \<and> log_inv p t \<and> lh_n t = 0 \<and> log_outstanding t = 0 \<and> \<not> log_committing t \<and>
    (\<forall>b. \<not> in_log s b \<longrightarrow> disk t b = bview s b \<and> bview t b = bview s b)"
proof -
  let ?s = "s\<lparr>log_outstanding := 0, log_committing := True\<rparr>"
  have I: "log_inv p ?s" "held s = []" using assms(1) bio_invD(5)[of p s] by (auto simp: log_inv_def[of p s])
  have il: "in_log ?s = in_log s" by (simp add: in_log_def fun_eq_iff)
  obtain t where t: "commit ?s = Ok () t" "log_inv p t" "lh_n t = 0" "log_outstanding t = 0"
    "\<And>b. \<not> in_log s b \<Longrightarrow> disk t b = bview s b" "\<And>b. \<not> in_log s b \<Longrightarrow> bview t b = bview s b"
    using commit_durable[OF I(1)] unfolding il by auto
  have h: "held t = []" using t(2) bio_invD(5)[of p t] by (auto simp: log_inv_def)
  let ?u = "t\<lparr>log_committing := False, ptable := map (wake Ch_log) (ptable t)\<rparr>"
  have "end_op s = Ok () ?u"
    using assms(2,3) I(2) t(1) h by (simp add: end_op_def kwhen_def held_self wakeup_run)
  moreover have "log_inv p ?u" using t(2) log_flags_upd(3)[where p = p and s = "t\<lparr>log_committing := False\<rparr>" and ch = Ch_log] by simp
  moreover have "bview ?u = bview t" using bio_wake(2)[where s = "t\<lparr>log_committing := False\<rparr>" and c = Ch_log] by simp
  ultimately show ?thesis using t(3-6) by (intro exI[of _ ?u]) simp
qed

subsection \<open>Properties\<close>

text \<open>A machine that has just started, with an empty log of 30 blocks at block 256.\<close>

definition demo_log :: logst where
  "demo_log = bio.extend demo_bio (logst.fields 256 30 0 False 1 0 (replicate LOGSIZE 0))"

lemma demo_log_fields:
  "bufs demo_log = bufs demo_bio" "held demo_log = []" "disk demo_log = disk demo_bio" "ptable demo_log = ptable demo_bio"
  "disksize demo_log = 1000"
  "bio.more demo_log = logst.fields 256 30 0 False 1 0 (replicate LOGSIZE 0)"
  by (simp_all add: demo_log_def demo_bio_def bio.extend_def)

lemma logst_of_more:
  "bio.more s = logst.fields a b c d e f g \<Longrightarrow> log_start s = a \<and> log_size s = b \<and> log_outstanding s = c \<and> log_committing s = d \<and>
    log_dev s = e \<and> lh_n s = f \<and> lh_block s = g"
  by (cases s) (simp add: logst.fields_def)

lemma demo_boot:
  assumes "\<And>b. length (d b) = BSIZE"
  shows "\<exists>s :: logst. bio_inv 0 s \<and> bdirty s = {} \<and> blocked s = {} \<and> log_ok s \<and> disk s = d \<and> bview s = d \<and>
    log_start s = 256 \<and> log_size s = 30 \<and> log_outstanding s = 0 \<and> \<not> log_committing s \<and> lh_n s = 0 \<and> disksize s = 1000"
proof -
  obtain t where t: "bio_inv 0 (t\<lparr>curproc := Some 0\<rparr>)" "bview (t\<lparr>curproc := Some 0\<rparr>) = d" "disksize t = 1000"
    "\<forall>i b. \<not> caches (bufs t) i b" "bio.more t = logst.fields 256 30 0 False 1 0 (replicate LOGSIZE 0)"
    using binit_ok[of "demo_log\<lparr>disk := d\<rparr>" 0] demo_start(1,4,6) assms by (auto simp: demo_log_fields)
  let ?s = "t\<lparr>curproc := Some 0\<rparr>"
  note f = logst_of_more[OF t(5)]
  have n: "bdirty ?s = {}" "blocked ?s = {}" using t(4) by (auto simp: bdirty_def blocked_def)
  then have "disk ?s = d" using bview_clean[OF t(1)] t(2) by auto
  then show ?thesis using t(1-3) n f by (intro exI[of _ ?s]) (simp add: log_ok_def LOGSIZE_val)
qed

lemma demo_log_booted:
  "\<exists>s :: logst. log_inv 0 s \<and> bview s = disk demo_bio \<and> log_start s = 256 \<and> log_size s = 30 \<and> log_outstanding s = 0 \<and>
    \<not> log_committing s \<and> lh_n s = 0 \<and> disksize s = 1000"
proof -
  obtain s :: logst where s: "bio_inv 0 s" "bdirty s = {}" "blocked s = {}" "log_ok s" "disk s = disk demo_bio" "bview s = disk demo_bio"
    "log_start s = 256" "log_size s = 30" "log_outstanding s = 0" "\<not> log_committing s" "lh_n s = 0" "disksize s = 1000"
    using demo_boot[of "disk demo_bio"] demo_start(3) by blast
  moreover have "get32 0 (disk demo_bio 256) = 0" by (simp add: demo_bio_def get32_def BSIZE_def)
  ultimately have "log_inv 0 s" by (simp add: log_inv_def trans_ok_def logged_def)
  then show ?thesis using s by blast
qed

lemma apply_writes_len:
  "(\<And>b. length (d b) = n) \<Longrightarrow> (\<And>b x. (b, x) \<in> set ws \<Longrightarrow> length x = n) \<Longrightarrow> length (apply_writes ws d b) = n"
proof (induction ws rule: rev_induct)
  case (snoc w ws)
  then show ?case by (cases w) auto
qed simp

lemma commit_writes_len:
  assumes "log_inv p s" "(b, x) \<in> set (take k (commit_writes s))"
  shows "length x = BSIZE"
proof -
  have I: "bio_inv p s" using assms(1) by (auto simp: log_inv_def)
  have "length (commit_head s) = BSIZE" "length (head_bytes 0 (lh_block s) (commit_head s)) = BSIZE"
    using head_blocks_commit(3)[OF assms(1)] head_bytes_facts(1)[of 0] by simp_all
  then show ?thesis using in_set_takeD[OF assms(2)] bview_len[OF I] by (auto simp: commit_writes_def log_writes_def)
qed

text \<open>The same machine after \<open>begin_op\<close> and one block written.\<close>

lemma demo_log_open:
  "\<exists>s :: logst. log_inv 0 s \<and> lh_n s = 1 \<and> log_start s = 256 \<and> log_size s = 30 \<and> log_outstanding s = 1 \<and> \<not> log_committing s \<and>
    disksize s = 1000 \<and> disk s 100 = replicate BSIZE 100 \<and> bview s 100 = replicate BSIZE 9"
proof -
  obtain s :: logst where s: "log_inv 0 s" "bview s = disk demo_bio" "log_start s = 256" "log_size s = 30" "log_outstanding s = 0"
    "\<not> log_committing s" "lh_n s = 0" "disksize s = 1000"
    using demo_log_booted by blast
  let ?s = "s\<lparr>log_outstanding := 1\<rparr>"
  have I: "log_st 0 ?s" "blocked ?s = {}" using s(1) log_flags_upd(1)[where p = 0 and s = s and k = 1] by (simp_all add: log_inv_st)
  have e: "bdirty ?s = {}" "logged ?s = []" using log_stD(4)[OF I(1)] s(7) by (simp_all add: logged_def)
  have "\<exists>t. update_block 100 (\<lambda>_. replicate BSIZE 9) ?s = Ok () t \<and> log_st 0 t \<and> bview t = (bview ?s)(100 := replicate BSIZE 9) \<and> disk t = disk ?s \<and>
    blocked t = blocked ?s \<and> logged t = (if 100 \<in> set (logged ?s) then logged ?s else logged ?s @ [100]) \<and> log_frame ?s t"
    by (rule update_block_run[OF I(1)]) (use s I(2) e in \<open>simp_all add: room_def in_log_def NBUF_def MAXOPBLOCKS_def\<close>)
  then obtain t where t: "log_st 0 t" "bview t = (bview ?s)(100 := replicate BSIZE 9)" "disk t = disk ?s" "blocked t = {}"
    "logged t = [100]" "log_frame ?s t" using e I(2) by auto
  have "disk ?s 100 = replicate BSIZE 100"
    using bview_clean[OF log_stD(1)[OF I(1)], of 100] e(1) I(2) s(2) by (simp add: demo_bio_def)
  moreover have n: "unat (lh_n t) = 1" using length_logged[OF log_stD(2,3)[OF t(1)]] t(5) by simp
  have "lh_n t = 1" using arg_cong[OF n, of "of_nat :: nat \<Rightarrow> u32"] by simp
  ultimately show ?thesis using t s by (intro exI[of _ t]) (simp add: log_inv_st log_frame_def)
qed

text \<open>
  C1. Crash atomicity: let a transaction commit and stop the machine after any number \<open>k\<close> of the disk
  writes it makes. When the next boot runs recovery on that disk, with an empty cache, recovery
  ends normally and every block outside the log holds its old contents if the crash came before
  the header was written (\<open>k\<close> at most the number of logged blocks), and otherwise the contents the
  transaction gave it: all of the transaction or nothing.
\<close>

theorem crash_atomicity:
  assumes "log_inv p s" "commit s = Ok () t" "dtrace t = dtrace s @ ws"
    "bio_inv q r" "bdirty r = {}" "blocked r = {}" "log_ok r" "log_start r = log_start s" "log_size r = log_size s"
    "disksize r = disksize s" "disk r = apply_writes (take k ws) (disk s)"
  shows "\<exists>u. recover_from_log r = Ok () u \<and> log_inv q u \<and> bview u = disk u \<and>
    (\<forall>b. \<not> in_log s b \<longrightarrow> disk u b = (if k \<le> unat (lh_n s) then disk s b else bview s b))"
proof (cases "unat (lh_n s) = 0")
  case False
  then obtain t' where "commit s = Ok () t'" "log_wrote p (commit_writes s) s t'" using commit_run[OF assms(1)] by blast
  then have "ws = commit_writes s" using assms(2,3) log_wroteD(4)[of p "commit_writes s" s t'] by simp
  then show ?thesis using crash_cases[OF assms(1) refl assms(4-10)] assms(11) by simp
next
  case True
  then have z: "lh_n s = 0" by (simp add: unat_eq_zero)
  then have e: "ws = []" using assms(2,3) by (simp add: commit_def kwhen_def)
  have I: "bdirty s = {}" "blocked s = {}" "bio_inv p s" "get32 0 (disk s (log_start s)) = 0"
    using assms(1) z by (auto simp: log_inv_def logged_def)
  have v: "bview s = disk s" using bview_clean[OF I(3)] I(1,2) by auto
  have il: "in_log r = in_log s" using assms(8,9) by (simp add: in_log_def fun_eq_iff)
  have h: "head_ok r (disk r (log_start r))" "head_blocks (disk r (log_start r)) = []"
    using empty_head[of "disk r (log_start r)" r] I(4) assms(7,8,11) e by simp_all
  show ?thesis using recover_home[OF assms(4-7) h(1)] unfolding h(2) il using assms(11) e v by fastforce
qed

theorem crash_atomicity_witness:
  "\<exists>(s :: logst) t ws (r :: logst) u. log_inv 0 s \<and> commit s = Ok () t \<and> dtrace t = dtrace s @ ws \<and>
    disk r = apply_writes (take 2 ws) (disk s) \<and> recover_from_log r = Ok () u \<and>
    disk s 100 = replicate BSIZE 100 \<and> disk u 100 = replicate BSIZE 9"
proof -
  obtain s :: logst where s: "log_inv 0 s" "lh_n s = 1" "log_start s = 256" "log_size s = 30" "disksize s = 1000"
    "disk s 100 = replicate BSIZE 100" "bview s 100 = replicate BSIZE 9" using demo_log_open by blast
  obtain t where t: "commit s = Ok () t" "log_wrote 0 (commit_writes s) s t" using commit_run[OF s(1)] s(2) by auto
  note tr = log_wroteD(4)[OF t(2)]
  let ?d = "apply_writes (take 2 (commit_writes s)) (disk s)"
  have "length (?d b) = BSIZE" for b
    using s(1) commit_writes_len[OF s(1)] by (intro apply_writes_len) (auto simp: log_inv_def bio_inv_def)
  then obtain r :: logst where r: "bio_inv 0 r" "bdirty r = {}" "blocked r = {}" "log_ok r" "disk r = ?d"
    "log_start r = 256" "log_size r = 30" "disksize r = 1000"
    using demo_boot[of ?d] by blast
  have e: "log_start r = log_start s" "log_size r = log_size s" "disksize r = disksize s" using r s by simp_all
  have "\<not> in_log s 100" using s(3,4) by (simp add: in_log_def)
  moreover have "\<not> 2 \<le> unat (lh_n s)" using s(2) by simp
  ultimately obtain u where "recover_from_log r = Ok () u" "disk u 100 = bview s 100"
    using crash_atomicity[OF s(1) t(1) tr r(1-4) e r(5)] by metis
  with s t(1) tr r(5) have "log_inv 0 s \<and> commit s = Ok () t \<and> dtrace t = dtrace s @ commit_writes s \<and>
    disk r = ?d \<and> recover_from_log r = Ok () u \<and> disk s 100 = replicate BSIZE 100 \<and> disk u 100 = replicate BSIZE 9" by simp
  then show ?thesis by (intro exI)
qed

text \<open>
  C21. The last operation to end commits: \<open>end_op\<close> puts the contents of every block, as the kernel saw
  them, on the disk, leaves an empty log, and clears the flags that other operations wait for.
\<close>

theorem end_op_durable:
  assumes "log_inv p s" "log_outstanding s = 1" "\<not> log_committing s"
  shows "\<exists>t. end_op s = Ok () t \<and> log_inv p t \<and> lh_n t = 0 \<and> log_outstanding t = 0 \<and> \<not> log_committing t \<and>
    (\<forall>b. \<not> in_log s b \<longrightarrow> disk t b = bview s b \<and> bview t b = bview s b)"
  by (rule end_op_run[OF assms])

theorem end_op_durable_witness:
  "\<exists>(s :: logst) t. log_inv 0 s \<and> disk s 100 = replicate BSIZE 100 \<and> end_op s = Ok () t \<and> disk t 100 = replicate BSIZE 9"
proof -
  obtain s :: logst where s: "log_inv 0 s" "log_start s = 256" "log_size s = 30" "log_outstanding s = 1" "\<not> log_committing s"
    "disk s 100 = replicate BSIZE 100" "bview s 100 = replicate BSIZE 9" using demo_log_open by blast
  moreover have "\<not> in_log s 100" using s(2,3) by (simp add: in_log_def)
  ultimately show ?thesis using end_op_durable[OF s(1,4,5)] by metis
qed

text \<open>
  C22. Writing a block twice in a transaction takes one slot of the log: \<open>log_write\<close> of a held buffer
  adds its block to the transaction exactly when it is not in it, pins it in the cache, and does
  not touch the disk.
\<close>

theorem log_write_absorbs:
  assumes "log_st p s" "holds s i b" "room 1 s" "\<not> in_log s b"
  shows "\<exists>t. log_write i s = Ok () t \<and> log_st p t \<and> disk t = disk s \<and> bview t = bview s \<and> b \<in> bdirty t \<and>
    logged t = (if b \<in> set (logged s) then logged s else logged s @ [b])"
proof -
  note I = log_stD[OF assms(1)]
  have r: "Suc (unat (lh_n s)) < unat (log_size s)" "1 \<le> sint (log_outstanding s)"
    using assms(3) length_logged[OF I(2,3)] by (simp_all add: room_def)
  from log_write_run[OF I(1) assms(2) I(2,3) r assms(4)] obtain t where
    t: "log_write i s = Ok () t" "bio_inv p t" "log_ok t" "trans_ok t" "logged t = (if b \<in> set (logged s) then logged s else logged s @ [b])"
    "bview t = bview s" "disk t = disk s" "bdirty t = insert b (bdirty s)" "log_frame s t" by blast
  moreover have "log_st p t" using t I(4,5) by (auto simp: log_st_def log_frame_def)
  ultimately show ?thesis by (intro exI[of _ t]) simp
qed

theorem log_write_absorbs_witness:
  "\<exists>(s :: logst) i t. holds s i 100 \<and> logged s = [100] \<and> log_write i s = Ok () t \<and> logged t = [100]"
proof -
  obtain s :: logst where s: "log_inv 0 s" "lh_n s = 1" "log_start s = 256" "log_size s = 30" "log_outstanding s = 1" "disksize s = 1000"
    "disk s 100 = replicate BSIZE 100" "bview s 100 = replicate BSIZE 9" using demo_log_open by blast
  have I: "log_st 0 s" "blocked s = {}" using s(1) by (simp_all add: log_inv_st)
  have l: "length (logged s) = 1" using length_logged[OF log_stD(2,3)[OF I(1)]] s(2) by simp
  have "100 \<in> set (logged s)"
    using clean_or_dirty[OF I(1), of 100] I(2) s(7,8) log_stD(4)[OF I(1)] by (simp add: BSIZE_def)
  then have l1: "logged s = [100]" using l by (cases "logged s") auto
  have "card (bdirty s \<union> blocked s) < NBUF" using log_stD(4)[OF I(1)] I(2) l1 by (simp add: NBUF_def MAXOPBLOCKS_def)
  then obtain i t where t: "log_st 0 t" "holds t i 100" "logged t = logged s" "log_frame s t"
    using bread_log[OF I(1), of 100] s(6) I(2) by auto
  have "room 1 t" "\<not> in_log t 100" using t(3,4) s l by (simp_all add: room_def log_frame_def in_log_def)
  then show ?thesis using log_write_absorbs[OF t(1,2)] t l1 by auto
qed

text \<open>
  C23. \<open>begin_op\<close> admits an operation only while the log has room for all admitted operations at
  \<open>MAXOPBLOCKS\<close> blocks each, and otherwise sleeps. But a log made by \<^verbatim>\<open>mkfs\<close> has \<open>LOGSIZE\<close> blocks with
  the header among them: three operations are admitted at once, and yet the thirtieth block they
  write, which they have reserved, panics.
\<close>

theorem reservation_short_by_one:
  fixes s :: "'z logst_scheme"
  assumes "held s = []" "curproc s = Some p" "p < length (ptable s)" "\<not> log_committing s" "lh_n s = 0" "log_outstanding s = 0"
    "log_size s = of_nat LOGSIZE"
  shows "\<exists>t. kseq [begin_op, begin_op, begin_op] s = Ok () t \<and> log_outstanding t = 3 \<and> (\<exists>u. begin_op t = Sleep Ch_log u) \<and>
    (\<forall>i (u :: 'z logst_scheme). log_size u = log_size t \<longrightarrow> lh_n u = 29 \<longrightarrow> log_write i u = Panic ''too big a transaction'')"
proof -
  have s: "begin_op t = Ok () (t\<lparr>log_outstanding := log_outstanding t + 1\<rparr>)"
    if "t = s\<lparr>log_outstanding := k\<rparr>" "k = 0 \<or> k = 1 \<or> k = 2" for k t
    using that assms begin_op_run[of t p] by (auto simp: LOGSIZE_val MAXOPBLOCKS_def)
  let ?t = "s\<lparr>log_outstanding := 3\<rparr>"
  have "begin_op s = Ok () (s\<lparr>log_outstanding := 1\<rparr>)" using s[of s 0] assms(6) by simp
  then have "kseq [begin_op, begin_op, begin_op] s = Ok () ?t" using s[OF refl, of 1] s[OF refl, of 2] by simp
  moreover have "\<exists>u. begin_op ?t = Sleep Ch_log u" using assms begin_op_run[of ?t p] by (auto simp: LOGSIZE_val MAXOPBLOCKS_def)
  moreover have "log_write i u = Panic ''too big a transaction''" if "log_size u = log_size s" "lh_n u = 29" for i and u :: "'z logst_scheme"
    using that assms(7) by (simp add: log_write_def LOGSIZE_val)
  ultimately show ?thesis by (intro exI[of _ ?t]) simp
qed

theorem reservation_short_by_one_witness:
  "\<exists>(s :: logst) t. log_inv 0 s \<and> kseq [begin_op, begin_op, begin_op] s = Ok () t \<and> log_outstanding t = 3"
proof -
  obtain s :: logst where s: "log_inv 0 s" "log_size s = 30" "log_outstanding s = 0" "\<not> log_committing s" "lh_n s = 0"
    using demo_log_booted by blast
  then have "held s = []" "curproc s = Some 0" "0 < length (ptable s)" by (auto simp: log_inv_def bio_inv_def)
  from reservation_short_by_one[OF this s(4,5,3)] s(1,2) show ?thesis by (auto simp: LOGSIZE_val)
qed

end
