(* ===== verification/Fs.thy ===== *)
theory Fs
  imports Recovery
begin

text \<open>
  The file system, \<^verbatim>\<open>src/fs.c\<close> with \<^verbatim>\<open>src/fs.h\<close> and \<^verbatim>\<open>src/stat.h\<close>: block allocation, inodes, inode
  content, directories and paths. An inode pointer is an index into \<open>icache.inode\<close>; on-disk
  structures are read and written in the bytes of their block with \<open>get32\<close>, \<open>put32\<close> and friends.
  Path names and directory names are byte lists without the terminating NUL.

  The device switch holds function pointers to code of \<^verbatim>\<open>src/console.c\<close>, which itself calls the file
  system: \<open>readi\<close> and \<open>writei\<close> take it as an argument. The parts of them behind the device test are
  \<open>readi_data\<close> and \<open>writei_data\<close>; the directory code, which has checked that the inode is a directory,
  calls those.
\<close>

subsection \<open>The disk format\<close>

definition ROOTINO :: u32 where "ROOTINO = 1"
definition NDIRECT :: nat where "NDIRECT = 12"
definition NINDIRECT :: nat where "NINDIRECT = BSIZE div 4"
definition MAXFILE :: nat where "MAXFILE = NDIRECT + NINDIRECT"
definition IPB :: nat where "IPB = BSIZE div 64"
definition BPB :: nat where "BPB = BSIZE * 8"
definition DIRSIZ :: nat where "DIRSIZ = 14"
definition T_DIR :: u16 where "T_DIR = 1"
definition T_FILE :: u16 where "T_FILE = 2"
definition T_DEV :: u16 where "T_DEV = 3"

definition IBLOCK :: "u32 \<Rightarrow> superblock \<Rightarrow> u32" where
  "IBLOCK i sb = i div of_nat IPB + sb_inodestart sb"

definition BBLOCK :: "u32 \<Rightarrow> superblock \<Rightarrow> u32" where
  "BBLOCK b sb = b div of_nat BPB + sb_bmapstart sb"

text \<open>\<^verbatim>\<open>struct dinode\<close>: 64 bytes, \<^verbatim>\<open>type\<close> at 0, \<^verbatim>\<open>major\<close> 2, \<^verbatim>\<open>minor\<close> 4, \<^verbatim>\<open>nlink\<close> 6, \<^verbatim>\<open>size\<close> 8, \<^verbatim>\<open>addrs\<close> from 12.\<close>

record dinode =
  d_type :: u16
  d_major :: u16
  d_minor :: u16
  d_nlink :: u16
  d_size :: u32
  d_addrs :: "u32 list"

definition dinode_at :: "nat \<Rightarrow> u8 list \<Rightarrow> dinode" where
  "dinode_at off x = \<lparr>d_type = get16 off x, d_major = get16 (off + 2) x, d_minor = get16 (off + 4) x,
     d_nlink = get16 (off + 6) x, d_size = get32 (off + 8) x,
     d_addrs = map (\<lambda>k. get32 (off + 12 + 4 * k) x) [0..<NDIRECT + 1]\<rparr>"

definition put_dinode :: "nat \<Rightarrow> dinode \<Rightarrow> u8 list \<Rightarrow> u8 list" where
  "put_dinode off d x = put_at (off + 12) (concat (map le32 (d_addrs d)))
     (put32 (off + 8) (d_size d) (put16 (off + 6) (d_nlink d) (put16 (off + 4) (d_minor d)
     (put16 (off + 2) (d_major d) (put16 off (d_type d) x)))))"

text \<open>\<^verbatim>\<open>struct dirent\<close>: 16 bytes, \<^verbatim>\<open>inum\<close> and then the name.\<close>

record dirent =
  de_inum :: u16
  de_name :: "u8 list"

definition dirent_of :: "u8 list \<Rightarrow> dirent" where
  "dirent_of x = \<lparr>de_inum = get16 0 x, de_name = sub_bytes 2 DIRSIZ x\<rparr>"

definition dirent_bytes :: "dirent \<Rightarrow> u8 list" where
  "dirent_bytes d = le16 (de_inum d) @ de_name d"

subsection \<open>State\<close>

record inode =
  i_dev :: u32
  i_inum :: u32
  i_ref :: i32
  i_valid :: bool
  i_type :: u16
  i_major :: u16
  i_minor :: u16
  i_nlink :: u16
  i_size :: u32
  i_addrs :: "u32 list"

record fsst = logst +
  sb :: superblock
  icache :: "inode list"

definition upd_inode :: "nat \<Rightarrow> (inode \<Rightarrow> inode) \<Rightarrow> ('z fsst_scheme, unit) kprog" where
  "upd_inode ip f = kmodify (\<lambda>s. s\<lparr>icache := upd_at ip f (icache s)\<rparr>)"

definition get_inode :: "nat \<Rightarrow> ('z fsst_scheme, inode) kprog" where
  "get_inode ip = kgets (\<lambda>s. icache s ! ip)"

subsection \<open>Blocks\<close>

definition bzero :: "u32 \<Rightarrow> u32 \<Rightarrow> ('z fsst_scheme, unit) kprog" where
  "bzero dv bno = kbind (bread dv bno) (\<lambda>bp. kseq [set_data bp (replicate BSIZE 0), log_write bp, brelse bp])"

abbreviation bit_mask :: "nat \<Rightarrow> u8" where
  "bit_mask bi \<equiv> push_bit (bi mod 8) 1"

text \<open>The inner loop of \<open>balloc\<close>: the first clear bit of the bitmap block for the blocks from \<open>b\<close> on.\<close>

definition free_bit :: "nat \<Rightarrow> nat \<Rightarrow> u8 list \<Rightarrow> nat option" where
  "free_bit fsz b x = find (\<lambda>bi. x ! (bi div 8) AND bit_mask bi = 0) [0..<min BPB (fsz - b)]"

function balloc_loop :: "u32 \<Rightarrow> nat \<Rightarrow> nat \<Rightarrow> ('z fsst_scheme, u32) kprog" where
  "balloc_loop dv fsz b =
     (if \<not> b < fsz then kpanic ''balloc: out of blocks''
      else kbind (kgets sb) (\<lambda>sb.
        kbind (bread dv (BBLOCK (of_nat b) sb)) (\<lambda>bp.
        kbind (get_data bp) (\<lambda>x.
          case free_bit fsz b x of
            Some bi \<Rightarrow> kbind (kseq [
                set_data bp (x[bi div 8 := x ! (bi div 8) OR bit_mask bi]),
                log_write bp,
                brelse bp,
                bzero dv (of_nat (b + bi))]) (\<lambda>_. kreturn (of_nat (b + bi)))
          | None \<Rightarrow> kbind (brelse bp) (\<lambda>_. balloc_loop dv fsz (b + BPB))))))"
  by pat_completeness auto
termination
  by (relation "measure (\<lambda>(dv, fsz, b). fsz - b)") (auto simp: BPB_def BSIZE_def)

definition balloc :: "u32 \<Rightarrow> ('z fsst_scheme, u32) kprog" where
  "balloc dv = kbind (kgets sb) (\<lambda>sb. balloc_loop dv (unat (sb_size sb)) 0)"

definition bfree :: "u32 \<Rightarrow> u32 \<Rightarrow> ('z fsst_scheme, unit) kprog" where
  "bfree dv b =
     kbind (kgets sb) (\<lambda>sb.
     kbind (bread dv (BBLOCK b sb)) (\<lambda>bp.
     kbind (get_data bp) (\<lambda>x.
     let bi = unat b mod BPB
     in if x ! (bi div 8) AND bit_mask bi = 0 then kpanic ''freeing free block''
        else kseq [
          set_data bp (x[bi div 8 := x ! (bi div 8) AND NOT (bit_mask bi)]),
          log_write bp,
          brelse bp])))"

subsection \<open>Inodes\<close>

definition iinit :: "u32 \<Rightarrow> ('z fsst_scheme, unit) kprog" where
  "iinit dv = kseq [
     lk_init LK_icache,
     kfor [0..<NINODE] (\<lambda>i. initsleeplock (SL_inode i) ''inode''),
     kbind (readsb dv) (\<lambda>b. kmodify (\<lambda>s. s\<lparr>sb := b\<rparr>)),
     kbind (kgets sb) (\<lambda>b.
       cprintf ''sb: size %d nblocks %d ninodes %d nlog %d logstart %d inodestart %d bmap start %d\<newline>''
         [sb_size b, sb_nblocks b, sb_ninodes b, sb_nlog b, sb_logstart b, sb_inodestart b, sb_bmapstart b])]"

definition iget :: "u32 \<Rightarrow> u32 \<Rightarrow> ('z fsst_scheme, nat) kprog" where
  "iget dv inum =
     kbind (lk_acquire LK_icache) (\<lambda>_.
     kbind (kgets icache) (\<lambda>ic.
       case find_index (\<lambda>ip. sint (i_ref ip) > 0 \<and> i_dev ip = dv \<and> i_inum ip = inum) ic of
         Some ip \<Rightarrow>
           kbind (upd_inode ip (\<lambda>i. i\<lparr>i_ref := i_ref i + 1\<rparr>)) (\<lambda>_.
           kbind (lk_release LK_icache) (\<lambda>_. kreturn ip))
       | None \<Rightarrow>
           (case find_index (\<lambda>ip. i_ref ip = 0) ic of
              None \<Rightarrow> kpanic ''iget: no inodes''
            | Some ip \<Rightarrow>
                kbind (upd_inode ip (\<lambda>i. i\<lparr>i_dev := dv, i_inum := inum, i_ref := 1, i_valid := False\<rparr>)) (\<lambda>_.
                kbind (lk_release LK_icache) (\<lambda>_. kreturn ip)))))"

fun ialloc_loop :: "u32 \<Rightarrow> u16 \<Rightarrow> nat list \<Rightarrow> ('z fsst_scheme, nat) kprog" where
  "ialloc_loop dv ty [] = kpanic ''ialloc: no inodes''"
| "ialloc_loop dv ty (inum # inums) =
     kbind (kgets sb) (\<lambda>sb.
     kbind (bread dv (IBLOCK (of_nat inum) sb)) (\<lambda>bp.
     kbind (get_data bp) (\<lambda>x.
     let off = 64 * (inum mod IPB)
     in if get16 off x = 0
        then kbind (kseq [
            set_data bp (put16 off ty (put_at off (replicate 64 0) x)),
            log_write bp,
            brelse bp]) (\<lambda>_. iget dv (of_nat inum))
        else kbind (brelse bp) (\<lambda>_. ialloc_loop dv ty inums))))"

definition ialloc :: "u32 \<Rightarrow> u16 \<Rightarrow> ('z fsst_scheme, nat) kprog" where
  "ialloc dv ty = kbind (kgets sb) (\<lambda>sb. ialloc_loop dv ty [1..<unat (sb_ninodes sb)])"

definition dinode_of :: "inode \<Rightarrow> dinode" where
  "dinode_of i = \<lparr>d_type = i_type i, d_major = i_major i, d_minor = i_minor i, d_nlink = i_nlink i,
     d_size = i_size i, d_addrs = i_addrs i\<rparr>"

definition load_dinode :: "dinode \<Rightarrow> inode \<Rightarrow> inode" where
  "load_dinode d i = i\<lparr>i_type := d_type d, i_major := d_major d, i_minor := d_minor d, i_nlink := d_nlink d,
     i_size := d_size d, i_addrs := d_addrs d\<rparr>"

definition iupdate :: "nat \<Rightarrow> ('z fsst_scheme, unit) kprog" where
  "iupdate ip =
     kbind (get_inode ip) (\<lambda>i.
     kbind (kgets sb) (\<lambda>sb.
     kbind (bread (i_dev i) (IBLOCK (i_inum i) sb)) (\<lambda>bp.
     kbind (get_data bp) (\<lambda>x. kseq [
       set_data bp (put_dinode (64 * (unat (i_inum i) mod IPB)) (dinode_of i) x),
       log_write bp,
       brelse bp]))))"

definition idup :: "nat \<Rightarrow> ('z fsst_scheme, nat) kprog" where
  "idup ip = kbind (kseq [lk_acquire LK_icache, upd_inode ip (\<lambda>i. i\<lparr>i_ref := i_ref i + 1\<rparr>), lk_release LK_icache])
     (\<lambda>_. kreturn ip)"

definition ilock :: "nat option \<Rightarrow> ('z fsst_scheme, unit) kprog" where
  "ilock ipo = (case ipo of None \<Rightarrow> kpanic ''ilock'' | Some ip \<Rightarrow>
     kbind (get_inode ip) (\<lambda>i.
     if sint (i_ref i) < 1 then kpanic ''ilock''
     else kbind (acquiresleep (SL_inode ip)) (\<lambda>_.
       kbind (get_inode ip) (\<lambda>i.
       kwhen (\<not> i_valid i) (
         kbind (kgets sb) (\<lambda>sb.
         kbind (bread (i_dev i) (IBLOCK (i_inum i) sb)) (\<lambda>bp.
         kbind (get_data bp) (\<lambda>x.
         kbind (upd_inode ip (load_dinode (dinode_at (64 * (unat (i_inum i) mod IPB)) x))) (\<lambda>_.
         kbind (brelse bp) (\<lambda>_.
         kbind (upd_inode ip (\<lambda>i. i\<lparr>i_valid := True\<rparr>)) (\<lambda>_.
         kbind (get_inode ip) (\<lambda>i.
         if i_type i = 0 then kpanic ''ilock: no type'' else kreturn ()))))))))))))"

definition iunlock :: "nat option \<Rightarrow> ('z fsst_scheme, unit) kprog" where
  "iunlock ipo = (case ipo of None \<Rightarrow> kpanic ''iunlock'' | Some ip \<Rightarrow>
     kbind (holdingsleep (SL_inode ip)) (\<lambda>h.
     kbind (get_inode ip) (\<lambda>i.
     if \<not> h \<or> sint (i_ref i) < 1 then kpanic ''iunlock''
     else releasesleep (SL_inode ip))))"

subsection \<open>Inode content\<close>

definition bmap :: "nat \<Rightarrow> u32 \<Rightarrow> ('z fsst_scheme, u32) kprog" where
  "bmap ip bn =
     kbind (get_inode ip) (\<lambda>i.
     if unat bn < NDIRECT then
       (let addr = i_addrs i ! unat bn in
        if addr \<noteq> 0 then kreturn addr
        else kbind (balloc (i_dev i)) (\<lambda>addr.
          kbind (upd_inode ip (\<lambda>i. i\<lparr>i_addrs := (i_addrs i)[unat bn := addr]\<rparr>)) (\<lambda>_.
          kreturn addr)))
     else (let bn = unat bn - NDIRECT in
       if bn < NINDIRECT then
         kbind (if i_addrs i ! NDIRECT \<noteq> 0 then kreturn (i_addrs i ! NDIRECT)
                else kbind (balloc (i_dev i)) (\<lambda>addr.
                  kbind (upd_inode ip (\<lambda>i. i\<lparr>i_addrs := (i_addrs i)[NDIRECT := addr]\<rparr>)) (\<lambda>_.
                  kreturn addr))) (\<lambda>addr.
         kbind (bread (i_dev i) addr) (\<lambda>bp.
         kbind (get_data bp) (\<lambda>a.
         kbind (if get32 (4 * bn) a \<noteq> 0 then kreturn (get32 (4 * bn) a)
                else kbind (balloc (i_dev i)) (\<lambda>addr.
                  kbind (get_data bp) (\<lambda>a.
                  kbind (set_data bp (put32 (4 * bn) addr a)) (\<lambda>_.
                  kbind (log_write bp) (\<lambda>_.
                  kreturn addr))))) (\<lambda>addr.
         kbind (brelse bp) (\<lambda>_.
         kreturn addr)))))
       else kpanic ''bmap: out of range''))"

definition itrunc :: "nat \<Rightarrow> ('z fsst_scheme, unit) kprog" where
  "itrunc ip = kseq [
     kfor [0..<NDIRECT] (\<lambda>k.
       kbind (get_inode ip) (\<lambda>i.
       kwhen (i_addrs i ! k \<noteq> 0) (kseq [
         bfree (i_dev i) (i_addrs i ! k),
         upd_inode ip (\<lambda>i. i\<lparr>i_addrs := (i_addrs i)[k := 0]\<rparr>)]))),
     kbind (get_inode ip) (\<lambda>i.
       kwhen (i_addrs i ! NDIRECT \<noteq> 0) (
         kbind (bread (i_dev i) (i_addrs i ! NDIRECT)) (\<lambda>bp. kseq [
           kfor [0..<NINDIRECT] (\<lambda>j.
             kbind (get_data bp) (\<lambda>a.
             kwhen (get32 (4 * j) a \<noteq> 0) (bfree (i_dev i) (get32 (4 * j) a)))),
           brelse bp,
           bfree (i_dev i) (i_addrs i ! NDIRECT),
           upd_inode ip (\<lambda>i. i\<lparr>i_addrs := (i_addrs i)[NDIRECT := 0]\<rparr>)]))),
     upd_inode ip (\<lambda>i. i\<lparr>i_size := 0\<rparr>),
     iupdate ip]"

definition iput :: "nat \<Rightarrow> ('z fsst_scheme, unit) kprog" where
  "iput ip = kseq [
     acquiresleep (SL_inode ip),
     kbind (get_inode ip) (\<lambda>i.
       kwhen (i_valid i \<and> i_nlink i = 0) (
         kbind (lk_acquire LK_icache) (\<lambda>_.
         kbind (kgets (\<lambda>s. i_ref (icache s ! ip))) (\<lambda>r.
         kbind (lk_release LK_icache) (\<lambda>_.
         kwhen (r = 1) (kseq [
           itrunc ip,
           upd_inode ip (\<lambda>i. i\<lparr>i_type := 0\<rparr>),
           iupdate ip,
           upd_inode ip (\<lambda>i. i\<lparr>i_valid := False\<rparr>)])))))),
     releasesleep (SL_inode ip),
     lk_acquire LK_icache,
     upd_inode ip (\<lambda>i. i\<lparr>i_ref := i_ref i - 1\<rparr>),
     lk_release LK_icache]"

definition iunlockput :: "nat \<Rightarrow> ('z fsst_scheme, unit) kprog" where
  "iunlockput ip = kseq [iunlock (Some ip), iput ip]"

record stat =
  st_type :: u16
  st_dev :: i32
  st_ino :: u32
  st_nlink :: u16
  st_size :: u32

definition stati :: "nat \<Rightarrow> ('z fsst_scheme, stat) kprog" where
  "stati ip = kbind (get_inode ip) (\<lambda>i.
     kreturn \<lparr>st_type = i_type i, st_dev = i_dev i, st_ino = i_inum i, st_nlink = i_nlink i, st_size = i_size i\<rparr>)"

text \<open>
  The device switch: for each major number the read and the write function, if any. A read
  function takes the inode and the count and returns its result with the bytes it delivered.
\<close>

type_synonym 's devsw = "nat \<Rightarrow> (nat \<Rightarrow> i32 \<Rightarrow> ('s, int \<times> u8 list) kprog) option \<times> (nat \<Rightarrow> u8 list \<Rightarrow> ('s, int) kprog) option"

text \<open>The loop of \<open>readi\<close> with \<open>n\<close> bytes still to read; it returns the bytes.\<close>

function readi_loop :: "nat \<Rightarrow> nat \<Rightarrow> nat \<Rightarrow> ('z fsst_scheme, u8 list) kprog" where
  "readi_loop ip off n =
     (if n = 0 then kreturn []
      else kbind (bmap ip (of_nat (off div BSIZE))) (\<lambda>addr.
        kbind (get_inode ip) (\<lambda>i.
        kbind (bread (i_dev i) addr) (\<lambda>bp.
        kbind (get_data bp) (\<lambda>x.
        kbind (brelse bp) (\<lambda>_.
        let m = min n (BSIZE - off mod BSIZE)
        in kbind (readi_loop ip (off + m) (n - m)) (\<lambda>r.
           kreturn (sub_bytes (off mod BSIZE) m x @ r))))))))"
  by pat_completeness auto
termination
  by (relation "measure (\<lambda>(ip, off, n). n)") (auto simp: BSIZE_def)

definition readi_data :: "nat \<Rightarrow> u32 \<Rightarrow> u32 \<Rightarrow> ('z fsst_scheme, int \<times> u8 list) kprog" where
  "readi_data ip off n =
     kbind (get_inode ip) (\<lambda>i.
     if off > i_size i \<or> off + n < off then kreturn (- 1, [])
     else let n = (if off + n > i_size i then i_size i - off else n)
       in kbind (readi_loop ip (unat off) (unat n)) (\<lambda>x.
          kreturn (sint n, x)))"

definition readi :: "('z fsst_scheme) devsw \<Rightarrow> nat \<Rightarrow> u32 \<Rightarrow> u32 \<Rightarrow> ('z fsst_scheme, int \<times> u8 list) kprog" where
  "readi devsw ip off n =
     kbind (get_inode ip) (\<lambda>i.
     if i_type i = T_DEV then
       (if sint (i_major i) < 0 \<or> sint (i_major i) \<ge> int NDEV then kreturn (- 1, [])
        else case fst (devsw (unat (i_major i))) of
            None \<Rightarrow> kreturn (- 1, [])
          | Some rd \<Rightarrow> rd ip n)
     else readi_data ip off n)"

function writei_loop :: "nat \<Rightarrow> u8 list \<Rightarrow> nat \<Rightarrow> ('z fsst_scheme, unit) kprog" where
  "writei_loop ip src off =
     (if src = [] then kreturn ()
      else kbind (bmap ip (of_nat (off div BSIZE))) (\<lambda>addr.
        kbind (get_inode ip) (\<lambda>i.
        kbind (bread (i_dev i) addr) (\<lambda>bp.
        kbind (get_data bp) (\<lambda>x.
        let m = min (length src) (BSIZE - off mod BSIZE)
        in kseq [
          set_data bp (put_at (off mod BSIZE) (take m src) x),
          log_write bp,
          brelse bp,
          writei_loop ip (drop m src) (off + m)])))))"
  by pat_completeness auto
termination
  by (relation "measure (\<lambda>(ip, src, off). length src)") (auto simp: BSIZE_def)

definition writei_data :: "nat \<Rightarrow> u8 list \<Rightarrow> u32 \<Rightarrow> ('z fsst_scheme, int) kprog" where
  "writei_data ip src off =
     kbind (get_inode ip) (\<lambda>i.
     let n = of_nat (length src) :: u32
     in if off > i_size i \<or> off + n < off then kreturn (- 1)
     else if off + n > of_nat (MAXFILE * BSIZE) then kreturn (- 1)
     else kbind (writei_loop ip src (unat off)) (\<lambda>_.
       kbind (get_inode ip) (\<lambda>i.
       kbind (kwhen (n > 0 \<and> off + n > i_size i) (kseq [
         upd_inode ip (\<lambda>i. i\<lparr>i_size := off + n\<rparr>),
         iupdate ip])) (\<lambda>_.
       kreturn (sint n)))))"

definition writei :: "('z fsst_scheme) devsw \<Rightarrow> nat \<Rightarrow> u8 list \<Rightarrow> u32 \<Rightarrow> ('z fsst_scheme, int) kprog" where
  "writei devsw ip src off =
     kbind (get_inode ip) (\<lambda>i.
     if i_type i = T_DEV then
       (if sint (i_major i) < 0 \<or> sint (i_major i) \<ge> int NDEV then kreturn (- 1)
        else case snd (devsw (unat (i_major i))) of
            None \<Rightarrow> kreturn (- 1)
          | Some wr \<Rightarrow> wr ip src)
     else writei_data ip src off)"

subsection \<open>Directories\<close>

text \<open>\<open>strncmp\<close> and \<open>strncpy\<close> of \<^verbatim>\<open>src/string.c\<close> on byte lists, the end of a list counting as a NUL.\<close>

fun strncmp_list :: "nat \<Rightarrow> u8 list \<Rightarrow> u8 list \<Rightarrow> int" where
  "strncmp_list 0 p q = 0"
| "strncmp_list (Suc n) p q =
     (let a = (case p of [] \<Rightarrow> 0 | c # _ \<Rightarrow> c); b = (case q of [] \<Rightarrow> 0 | c # _ \<Rightarrow> c)
      in if a \<noteq> 0 \<and> a = b then strncmp_list n (tl p) (tl q) else uint a - uint b)"

definition strncpy_list :: "nat \<Rightarrow> u8 list \<Rightarrow> u8 list" where
  "strncpy_list n s = take n (cstr s) @ replicate (n - length (cstr s)) 0"

definition namecmp :: "u8 list \<Rightarrow> u8 list \<Rightarrow> int" where
  "namecmp s t = strncmp_list DIRSIZ s t"

text \<open>The offsets of the entries of a directory of the given size.\<close>

definition dirent_offs :: "u32 \<Rightarrow> nat list" where
  "dirent_offs dsz = map (\<lambda>k. 16 * k) [0..<(unat dsz + 15) div 16]"

fun dirlookup_loop :: "nat \<Rightarrow> u8 list \<Rightarrow> nat list \<Rightarrow> ('z fsst_scheme, (nat \<times> u32) option) kprog" where
  "dirlookup_loop dp name [] = kreturn None"
| "dirlookup_loop dp name (off # offs) =
     kbind (readi_data dp (of_nat off) 16) (\<lambda>(r, x).
     if r \<noteq> 16 then kpanic ''dirlookup read''
     else let de = dirent_of x
       in if de_inum de = 0 then dirlookup_loop dp name offs
       else if namecmp name (de_name de) = 0
         then kbind (get_inode dp) (\<lambda>i.
           kbind (iget (i_dev i) (ucast (de_inum de))) (\<lambda>ip.
           kreturn (Some (ip, of_nat off))))
         else dirlookup_loop dp name offs)"

text \<open>The result is the inode with the offset of its entry, \<^verbatim>\<open>*poff\<close>.\<close>

definition dirlookup :: "nat \<Rightarrow> u8 list \<Rightarrow> ('z fsst_scheme, (nat \<times> u32) option) kprog" where
  "dirlookup dp name =
     kbind (get_inode dp) (\<lambda>i.
     if i_type i \<noteq> T_DIR then kpanic ''dirlookup not DIR''
     else dirlookup_loop dp name (dirent_offs (i_size i)))"

text \<open>The offset of the first empty entry, or the end of the directory.\<close>

fun dirlink_scan :: "nat \<Rightarrow> nat \<Rightarrow> nat list \<Rightarrow> ('z fsst_scheme, nat) kprog" where
  "dirlink_scan dp eod [] = kreturn eod"
| "dirlink_scan dp eod (off # offs) =
     kbind (readi_data dp (of_nat off) 16) (\<lambda>(r, x).
     if r \<noteq> 16 then kpanic ''dirlink read''
     else if de_inum (dirent_of x) = 0 then kreturn off
     else dirlink_scan dp eod offs)"

definition dirlink :: "nat \<Rightarrow> u8 list \<Rightarrow> u32 \<Rightarrow> ('z fsst_scheme, int) kprog" where
  "dirlink dp name inum =
     kbind (dirlookup dp name) (\<lambda>found.
       case found of
         Some (ip, _) \<Rightarrow> kbind (iput ip) (\<lambda>_. kreturn (- 1))
       | None \<Rightarrow>
           kbind (get_inode dp) (\<lambda>i.
           kbind (dirlink_scan dp (16 * length (dirent_offs (i_size i))) (dirent_offs (i_size i))) (\<lambda>off.
           kbind (writei_data dp (dirent_bytes \<lparr>de_inum = ucast inum, de_name = strncpy_list DIRSIZ name\<rparr>) (of_nat off)) (\<lambda>r.
           if r \<noteq> 16 then kpanic ''dirlink'' else kreturn 0))))"

subsection \<open>Paths\<close>

abbreviation slash :: u8 where "slash \<equiv> 47"

definition skipelem :: "u8 list \<Rightarrow> (u8 list \<times> u8 list) option" where
  "skipelem path =
     (let path = dropWhile (\<lambda>c. c = slash) path
      in if path = [] then None
         else let elem = takeWhile (\<lambda>c. c \<noteq> slash) path
           in Some (take DIRSIZ elem, dropWhile (\<lambda>c. c = slash) (drop (length elem) path)))"

lemma skipelem_shorter: "skipelem path = Some (name, rest) \<Longrightarrow> length rest < length path"
proof -
  assume a: "skipelem path = Some (name, rest)"
  let ?p = "dropWhile (\<lambda>c. c = slash) path"
  let ?e = "takeWhile (\<lambda>c. c \<noteq> slash) ?p"
  have p: "?p \<noteq> []" and r: "rest = dropWhile (\<lambda>c. c = slash) (drop (length ?e) ?p)"
    using a by (auto simp: skipelem_def Let_def split: if_splits)
  have "?e \<noteq> []" using p hd_dropWhile[OF p] by (cases ?p) auto
  then have "length (drop (length ?e) ?p) < length ?p" using p by (cases "length ?e") simp_all
  moreover have "length rest \<le> length (drop (length ?e) ?p)" unfolding r by (rule length_dropWhile_le)
  ultimately show ?thesis using length_dropWhile_le[of "\<lambda>c. c = slash" path] by linarith
qed

text \<open>The loop of \<open>namex\<close>: the result is the inode and the last name copied out.\<close>

function namex_loop :: "nat \<Rightarrow> u8 list \<Rightarrow> bool \<Rightarrow> u8 list \<Rightarrow> ('z fsst_scheme, (nat \<times> u8 list) option) kprog" where
  "namex_loop ip path par name =
     (case skipelem path of
        None \<Rightarrow>
          if par then kbind (iput ip) (\<lambda>_. kreturn None)
          else kreturn (Some (ip, name))
      | Some (name, path) \<Rightarrow>
          kbind (ilock (Some ip)) (\<lambda>_.
          kbind (get_inode ip) (\<lambda>i.
          if i_type i \<noteq> T_DIR then kbind (iunlockput ip) (\<lambda>_. kreturn None)
          else if par \<and> path = [] then kbind (iunlock (Some ip)) (\<lambda>_. kreturn (Some (ip, name)))
          else kbind (dirlookup ip name) (\<lambda>found.
            case found of
              None \<Rightarrow> kbind (iunlockput ip) (\<lambda>_. kreturn None)
            | Some (next, _) \<Rightarrow> kbind (iunlockput ip) (\<lambda>_. namex_loop next path par name)))))"
  by pat_completeness auto
termination
  by (relation "measure (\<lambda>(ip, path, par, name). length path)") (auto dest: skipelem_shorter)

definition namex :: "u8 list \<Rightarrow> bool \<Rightarrow> ('z fsst_scheme, (nat \<times> u8 list) option) kprog" where
  "namex path par =
     kbind (if path \<noteq> [] \<and> hd path = slash then iget ROOTDEV ROOTINO
            else kbind (myproc_get cwd) (\<lambda>c. case c of None \<Rightarrow> kpanic ''trap'' | Some ip \<Rightarrow> idup ip)) (\<lambda>ip.
     namex_loop ip path par [])"

definition namei :: "u8 list \<Rightarrow> ('z fsst_scheme, nat option) kprog" where
  "namei path = kbind (namex path False) (\<lambda>r. kreturn (map_option fst r))"

definition nameiparent :: "u8 list \<Rightarrow> ('z fsst_scheme, (nat \<times> u8 list) option) kprog" where
  "nameiparent path = namex path True"

declare balloc_loop.simps [simp del] readi_loop.simps [simp del] writei_loop.simps [simp del] namex_loop.simps [simp del]

end
