(* ===== verification/Fsblock.thy ===== *)
theory Fsblock
  imports Fs
begin

text \<open>
  The blocks of the file system: what \<open>balloc\<close> and \<open>bfree\<close> of \<^verbatim>\<open>src/fs.c\<close> do to the bitmap and to the contents
  of the blocks, in a transaction and with other buffers held. \<open>eff\<close> relates the states before and after code
  that reads and writes blocks and releases what it locked: the contents are those given, at most
  \<open>n\<close> blocks have joined the transaction, and nothing but the cache and the log's header has changed.
\<close>

subsection \<open>Reading and writing a block\<close>

definition eff :: "nat \<Rightarrow> nat \<Rightarrow> 'z logst_scheme \<Rightarrow> (u32 \<Rightarrow> u8 list) \<Rightarrow> 'z logst_scheme \<Rightarrow> bool" where
  "eff p n s V t \<longleftrightarrow> log_st p t \<and> bview t = V \<and> blocked t = blocked s \<and> log_frame s t \<and> disk t = disk s \<and>
     set (logged s) \<subseteq> set (logged t) \<and> length (logged t) \<le> length (logged s) + n \<and> (\<forall>j b. holds s j b \<longrightarrow> holds t j b)"

lemma effD:
  assumes "eff p n s V t"
  shows "log_st p t" "bview t = V" "blocked t = blocked s" "log_frame s t" "disk t = disk s" "set (logged s) \<subseteq> set (logged t)"
    "length (logged t) \<le> length (logged s) + n" "holds s j b \<Longrightarrow> holds t j b"
  using assms by (auto simp: eff_def)

lemma eff_refl: "log_st p s \<Longrightarrow> eff p 0 s (bview s) s"
  by (simp add: eff_def)

lemma eff_trans:
  assumes "eff p n s V t" "eff p m t W u"
  shows "eff p (n + m) s W u"
  using assms log_frame_trans[of s t u] by (fastforce simp: eff_def)

lemma eff_mono: "eff p n s V t \<Longrightarrow> n \<le> m \<Longrightarrow> eff p m s V t"
  by (auto simp: eff_def)

text \<open>Space for \<open>k\<close> more blocks in the transaction, and buffers for them beside the held ones.\<close>

definition space :: "nat \<Rightarrow> 'z logst_scheme \<Rightarrow> bool" where
  "space k s \<longleftrightarrow> finite (blocked s) \<and> room (k + card (blocked s)) s"

lemma space_mono: "space k s \<Longrightarrow> j \<le> k \<Longrightarrow> space j s"
  by (auto simp: space_def room_def)

lemma space_eff: "space (n + k) s \<Longrightarrow> eff p n s V t \<Longrightarrow> space k t"
  by (auto simp: space_def room_def eff_def log_frame_def)

lemma space_cache:
  assumes "log_st p s" "space k s"
  shows "card (bdirty s \<union> blocked s) < NBUF"
proof -
  note I = log_stD[OF assms(1)]
  have "card (bdirty s \<union> blocked s) \<le> card (set (logged s)) + card (blocked s)" unfolding I(4) by (rule card_Un_le)
  also have "\<dots> \<le> length (logged s) + card (blocked s)" using card_length[of "logged s"] by simp
  also have "\<dots> < NBUF" using assms(2) log_okD(3)[OF I(2)] by (simp add: space_def room_def LOGSIZE_val NBUF_def MAXOPBLOCKS_def)
  finally show ?thesis .
qed

text \<open>
  A held buffer: \<open>brelse\<close> of it when its block is clean or in the transaction, and writing it
  (\<open>set_data\<close>, \<open>log_write\<close>).
\<close>

definition grips :: "nat \<Rightarrow> nat \<Rightarrow> u32 \<Rightarrow> 'z logst_scheme \<Rightarrow> bool" where
  "grips p i b s \<longleftrightarrow> log_st p s \<and> holds s i b \<and> (b \<in> bdirty s \<or> bview s b = disk s b)"

lemma grips_blocked: "grips p i b s \<Longrightarrow> b \<in> blocked s"
  by (auto simp: grips_def holds_def blocked_def)

lemma grips_get: "grips p i b s \<Longrightarrow> get_data i s = Ok (bview s b) s"
  by (auto simp: grips_def intro: get_data_run log_stD(1))

lemma bread_grips:
  assumes "log_st p s" "b < disksize s" "b \<notin> blocked s" "space k s"
  obtains i t where "bread 1 b s = Ok i t" "grips p i b t" "bview t = bview s" "disk t = disk s" "blocked t = insert b (blocked s)"
    "logged t = logged s" "log_frame s t" "\<And>j b'. holds s j b' \<Longrightarrow> holds t j b'"
proof -
  obtain i t where t: "bread 1 b s = Ok i t" "log_st p t" "holds t i b" "bview t = bview s" "disk t = disk s"
    "blocked t = insert b (blocked s)" "bdirty t = bdirty s" "logged t = logged s" "log_frame s t" "\<forall>j b'. holds s j b' \<longrightarrow> holds t j b'"
    using bread_log[OF assms(1-3) space_cache[OF assms(1,4)]] by blast
  moreover have "grips p i b t" using t clean_or_dirty[OF assms(1,3)] by (simp add: grips_def)
  ultimately show thesis using that[of i t] by blast
qed

lemma brelse_grips:
  assumes "grips p i b s"
  obtains t where "brelse i s = Ok () t" "log_st p t" "bview t = bview s" "disk t = disk s" "blocked t = blocked s - {b}"
    "logged t = logged s" "log_frame s t" "\<And>j b'. holds s j b' \<Longrightarrow> b' \<noteq> b \<Longrightarrow> holds t j b'"
  using brelse_log[of p s i b] assms that unfolding grips_def by blast

lemma write_grips:
  assumes "grips p i b s" "length y = BSIZE" "room 1 s" "\<not> in_log s b"
  obtains u t where "set_data i y s = Ok () u" "log_write i u = Ok () t" "grips p i b t" "bview t = (bview s)(b := y)" "disk t = disk s"
    "blocked t = blocked s" "set (logged s) \<subseteq> set (logged t)" "length (logged t) \<le> length (logged s) + 1" "log_frame s t"
    "\<And>j b'. holds t j b' = holds s j b'"
proof -
  have S: "log_st p s" "holds s i b" using assms(1) by (auto simp: grips_def)
  note T = log_stD[OF S(1)]
  obtain u where u: "set_data i y s = Ok () u" "bio_inv p u" "bview u = (bview s)(b := y)"
    "disk u = disk s" "bdirty u = bdirty s" "blocked u = blocked s" "\<forall>j b'. holds u j b' = holds s j b'" "bio_frame s u"
    using set_data_wp[OF T(1) S(2) assms(2)] unfolding wp_Ok by auto
  note fr = frame_log[OF u(8)]
  have h: "holds u i b" using u(7) S(2) by simp
  have U: "log_ok u" "trans_ok u" "logged u = logged s" "in_log u = in_log s"
    using T log_ok_frame[OF u(8)] logged_frame[OF u(8)] in_log_frame[OF u(8)] fr by (simp_all add: trans_ok_def)
  have r: "Suc (unat (lh_n u)) < unat (log_size u)" "1 \<le> sint (log_outstanding u)" "\<not> in_log u b"
    using assms(3,4) U fr length_logged[OF U(1,2)] by (simp_all add: room_def)
  obtain v where v: "log_write i u = Ok () v" "bio_inv p v" "log_ok v" "trans_ok v"
    "logged v = (if b \<in> set (logged u) then logged u else logged u @ [b])" "bview v = bview u" "disk v = disk u"
    "bdirty v = insert b (bdirty u)" "blocked v = blocked u" "\<forall>j b'. holds v j b' = holds u j b'" "log_frame u v"
    using log_write_run[OF u(2) h U(1,2) r] by blast
  have "log_st p v" using v T(4,5) u(4,5) U(3) fr(1) by (auto simp: log_st_def log_frame_def)
  then have "grips p i b v" using v(8,10) h by (simp add: grips_def)
  moreover have "log_frame s v" using log_frame_trans[OF log_frame_bio[OF u(8)] v(11)] .
  moreover have "set (logged s) \<subseteq> set (logged v)" "length (logged v) \<le> length (logged s) + 1" using v(5) U(3) by auto
  ultimately show thesis using that[OF u(1) v(1)] u v by simp
qed

text \<open>Releasing closes the bracket that \<open>bread\<close> opened.\<close>

lemma eff_close:
  assumes "log_st p s" "b \<notin> blocked s" and t: "log_st p t" "blocked t = insert b (blocked s) - {b}" "log_frame s t" "disk t = disk s" "bview t = V"
    "set (logged s) \<subseteq> set (logged t)" "length (logged t) \<le> length (logged s) + n" "\<And>j b'. holds s j b' \<Longrightarrow> b' \<noteq> b \<Longrightarrow> holds t j b'"
  shows "eff p n s V t"
proof -
  have "b' \<noteq> b" if "holds s j b'" for j b' using that assms(2) by (auto simp: holds_def blocked_def)
  then show ?thesis using t assms(2) by (auto simp: eff_def)
qed

lemma block_access:
  assumes "log_st p s" "b < disksize s" "b \<notin> blocked s" "space k s"
  obtains i t u where "bread 1 b s = Ok i t" "get_data i t = Ok (bview s b) t" "brelse i t = Ok () u" "eff p 0 s (bview s) u"
    "\<And>y. length y = BSIZE \<Longrightarrow> 0 < k \<Longrightarrow> \<not> in_log s b \<Longrightarrow>
      \<exists>v w u. set_data i y t = Ok () v \<and> log_write i v = Ok () w \<and> brelse i w = Ok () u \<and> eff p 1 s ((bview s)(b := y)) u"
proof -
  obtain i t where t: "bread 1 b s = Ok i t" "grips p i b t" "bview t = bview s" "disk t = disk s" "blocked t = insert b (blocked s)"
    "logged t = logged s" "log_frame s t" "\<And>j b'. holds s j b' \<Longrightarrow> holds t j b'"
    using bread_grips[OF assms] by blast
  obtain u where u: "brelse i t = Ok () u" "log_st p u" "bview u = bview t" "disk u = disk t" "blocked u = blocked t - {b}"
    "logged u = logged t" "log_frame t u" "\<And>j b'. holds t j b' \<Longrightarrow> b' \<noteq> b \<Longrightarrow> holds u j b'"
    using brelse_grips[OF t(2)] by blast
  have e: "eff p 0 s (bview s) u"
    using assms(3) t u log_frame_trans[OF t(7) u(7)] by (intro eff_close[OF assms(1,3)]) auto
  have w: "\<exists>v w u. set_data i y t = Ok () v \<and> log_write i v = Ok () w \<and> brelse i w = Ok () u \<and> eff p 1 s ((bview s)(b := y)) u"
    if y: "length y = BSIZE" "0 < k" "\<not> in_log s b" for y
  proof -
    have r: "room 1 t" using assms(4) y(2) t(6,7) by (auto simp: space_def room_def log_frame_def)
    have l: "\<not> in_log t b" using y(3) log_frame_in_log[OF t(7)] by simp
    obtain v w where w: "set_data i y t = Ok () v" "log_write i v = Ok () w" "grips p i b w" "bview w = (bview t)(b := y)" "disk w = disk t"
      "blocked w = blocked t" "set (logged t) \<subseteq> set (logged w)" "length (logged w) \<le> length (logged t) + 1" "log_frame t w"
      "\<And>j b'. holds w j b' = holds t j b'"
      using write_grips[OF t(2) y(1) r l] by blast
    obtain x where x: "brelse i w = Ok () x" "log_st p x" "bview x = bview w" "disk x = disk w" "blocked x = blocked w - {b}"
      "logged x = logged w" "log_frame w x" "\<And>j b'. holds w j b' \<Longrightarrow> b' \<noteq> b \<Longrightarrow> holds x j b'"
      using brelse_grips[OF w(3)] by blast
    have "eff p 1 s ((bview s)(b := y)) x"
      using assms(3) t w x log_frame_trans[OF t(7) log_frame_trans[OF w(9) x(7)]] by (intro eff_close[OF assms(1,3)]) auto
    then show ?thesis using w(1,2) x(1) by blast
  qed
  show thesis by (rule that[OF t(1) _ u(1) e w]) (use grips_get[OF t(2)] t(3) in auto)
qed

subsection \<open>The bitmap\<close>

text \<open>The bit of block \<open>b\<close>, as \<open>balloc\<close> and \<open>bfree\<close> find it.\<close>

definition used :: "superblock \<Rightarrow> (u32 \<Rightarrow> u8 list) \<Rightarrow> u32 \<Rightarrow> bool" where
  "used z V b \<longleftrightarrow> V (BBLOCK b z) ! (unat b mod BPB div 8) AND bit_mask (unat b mod BPB) \<noteq> 0"

lemma BPB_val: "BPB = 4096"
  by (simp add: BPB_def BSIZE_def)

lemma BBLOCK_unat: "BBLOCK b z = of_nat (unat b div BPB) + sb_bmapstart z"
proof -
  have "b div of_nat BPB = of_nat (unat b div BPB)" by (rule word_unat_eq_iff[THEN iffD2]) (simp add: BPB_val unat_div unat_of_nat_u32 less_imp_diff_less div_le_dividend le_less_trans[OF div_le_dividend unat_u32_bound])
  then show ?thesis by (simp add: BBLOCK_def)
qed

lemma mask_bit: "x AND bit_mask n \<noteq> 0 \<longleftrightarrow> bit x (n mod 8)" for x :: u8
proof
  assume "bit x (n mod 8)"
  then have "bit (x AND bit_mask n) (n mod 8)" by (simp add: bit_simps)
  then show "x AND bit_mask n \<noteq> 0" by force
next
  assume "x AND bit_mask n \<noteq> 0"
  then obtain k where "bit (x AND bit_mask n) k" by (auto simp: bit_eq_iff)
  then show "bit x (n mod 8)" by (auto simp: bit_simps)
qed

lemma used_bit: "used z V b \<longleftrightarrow> bit (V (BBLOCK b z) ! (unat b mod BPB div 8)) (unat b mod 8)"
  unfolding used_def mask_bit by (simp add: BPB_val mod_mod_cancel)

text \<open>Setting or clearing the bit of \<open>b\<close> changes the state of no other block.\<close>

definition with_bit :: "bool \<Rightarrow> nat \<Rightarrow> u8 list \<Rightarrow> u8 list" where
  "with_bit v n x = x[n div 8 := (if v then x ! (n div 8) OR bit_mask n else x ! (n div 8) AND NOT (bit_mask n))]"

lemma length_with_bit [simp]: "length (with_bit v n x) = length x"
  by (simp add: with_bit_def)

lemma with_bit_nth:
  assumes "n div 8 < length x" "m div 8 < length x"
  shows "bit (with_bit v n x ! (m div 8)) (m mod 8) = (if m = n then v else bit (x ! (m div 8)) (m mod 8))"
proof -
  have "m = n \<longleftrightarrow> m div 8 = n div 8 \<and> m mod 8 = n mod 8" by (metis div_mod_decomp)
  moreover have "m mod 8 < 8" by simp
  ultimately show ?thesis using assms by (auto simp: with_bit_def nth_list_update bit_simps)
qed

lemma used_with_bit:
  assumes "length (V (BBLOCK b z)) = BSIZE"
  shows "used z (V(BBLOCK b z := with_bit v (unat b mod BPB) (V (BBLOCK b z)))) c =
    (if c = b then v else used z V c)"
proof (cases "BBLOCK c z = BBLOCK b z")
  case True
  then have "(of_nat (unat c div BPB) :: u32) = of_nat (unat b div BPB)" by (simp add: BBLOCK_unat)
  then have d: "unat c div BPB = unat b div BPB"
    by (metis div_le_dividend le_less_trans unat_of_nat_u32 unat_u32_bound)
  have e: "unat c mod BPB = unat b mod BPB \<longleftrightarrow> c = b" using d by (metis div_mod_decomp word_unat_eq_iff)
  have n: "k mod BPB div 8 < BSIZE" for k :: nat
    using mod_less_divisor[of BPB k] by (simp add: BPB_val BSIZE_def less_mult_imp_div_less)
  have m: "k mod BPB mod 8 = k mod 8" for k :: nat by (simp add: BPB_val mod_mod_cancel)
  show ?thesis
    using with_bit_nth[of "unat b mod BPB" "V (BBLOCK b z)" "unat c mod BPB" v] True assms n e by (simp add: used_bit m)
next
  case False
  then show ?thesis by (auto simp: used_bit)
qed

subsection \<open>The layout of the disk\<close>

text \<open>Where the superblock puts the bitmap and the inodes; the rest, log excluded, is data.\<close>

definition data_blk :: "'z fsst_scheme \<Rightarrow> u32 \<Rightarrow> bool" where
  "data_blk s b \<longleftrightarrow> b < sb_size (sb s) \<and> b \<noteq> 0 \<and> b < disksize s \<and> \<not> in_log s b \<and>
     (\<forall>c < sb_size (sb s). b \<noteq> BBLOCK c (sb s)) \<and> (\<forall>i < sb_ninodes (sb s). b \<noteq> IBLOCK i (sb s))"

definition geom :: "'z fsst_scheme \<Rightarrow> bool" where
  "geom s \<longleftrightarrow> (\<forall>c < sb_size (sb s). BBLOCK c (sb s) < disksize s \<and> \<not> in_log s (BBLOCK c (sb s))) \<and>
     (\<forall>i < sb_ninodes (sb s). IBLOCK i (sb s) < disksize s \<and> \<not> in_log s (IBLOCK i (sb s)) \<and>
       (\<forall>c < sb_size (sb s). IBLOCK i (sb s) \<noteq> BBLOCK c (sb s)))"

text \<open>Between the steps of a transaction: only data blocks are free, only allocated data blocks are held.\<close>

definition fs_st :: "nat \<Rightarrow> 'z fsst_scheme \<Rightarrow> bool" where
  "fs_st p s \<longleftrightarrow> log_st p s \<and> geom s \<and> (\<forall>b < sb_size (sb s). \<not> used (sb s) (bview s) b \<longrightarrow> data_blk s b) \<and>
     (\<forall>b \<in> blocked s. data_blk s b \<and> used (sb s) (bview s) b)"

lemma fs_stD:
  assumes "fs_st p s"
  shows "log_st p s" "geom s" "b < sb_size (sb s) \<Longrightarrow> \<not> used (sb s) (bview s) b \<Longrightarrow> data_blk s b"
    "b \<in> blocked s \<Longrightarrow> data_blk s b" "b \<in> blocked s \<Longrightarrow> used (sb s) (bview s) b"
  using assms by (auto simp: fs_st_def)

lemma log_frame_fs:
  fixes s t :: "'z fsst_scheme"
  assumes "log_frame s t"
  shows "sb t = sb s" "icache t = icache s" "disksize t = disksize s" "in_log t = in_log s" "data_blk t = data_blk s" "geom t = geom s"
proof -
  show f: "sb t = sb s" "icache t = icache s" "disksize t = disksize s" "in_log t = in_log s"
    using assms log_frame_in_log[OF assms] by (cases s; cases t; simp add: log_frame_def)+
  show "data_blk t = data_blk s" "geom t = geom s" using f by (auto simp: data_blk_def geom_def fun_eq_iff)
qed

lemma log_st_len: "log_st p s \<Longrightarrow> length (bview s b) = BSIZE"
  using bview_len log_stD(1) by blast

text \<open>What remains to show after a change of the contents.\<close>

lemma fs_st_eff:
  fixes s t :: "'z fsst_scheme"
  assumes "fs_st p s" "eff p n s V t" "\<And>b. b < sb_size (sb s) \<Longrightarrow> \<not> used (sb s) V b \<Longrightarrow> data_blk s b" "\<And>b. b \<in> blocked s \<Longrightarrow> used (sb s) V b"
  shows "fs_st p t"
  using assms(3,4) fs_stD[OF assms(1)] effD[OF assms(2)] log_frame_fs[OF effD(4)[OF assms(2)]] by (simp add: fs_st_def)

text \<open>\<open>bfree\<close>\<close>

lemma bfree_run:
  fixes s :: "'z fsst_scheme"
  assumes "fs_st p s" "space 1 s" "b < sb_size (sb s)" "used (sb s) (bview s) b"
  shows "\<exists>t. bfree 1 b s = Ok () t \<and>
    eff p 1 s ((bview s)(BBLOCK b (sb s) := with_bit False (unat b mod BPB) (bview s (BBLOCK b (sb s))))) t"
proof -
  let ?B = "BBLOCK b (sb s)"
  have g: "?B < disksize s" "\<not> in_log s ?B" using fs_stD(2)[OF assms(1)] assms(3) by (auto simp: geom_def)
  have nb: "?B \<notin> blocked s" using fs_stD(4)[OF assms(1)] assms(3) by (auto simp: data_blk_def)
  obtain i t where t: "bread 1 ?B s = Ok i t" "get_data i t = Ok (bview s ?B) t"
    and w: "\<And>y. length y = BSIZE \<Longrightarrow> 0 < (1 :: nat) \<Longrightarrow> \<not> in_log s ?B \<Longrightarrow>
      \<exists>v w u. set_data i y t = Ok () v \<and> log_write i v = Ok () w \<and> brelse i w = Ok () u \<and> eff p 1 s ((bview s)(?B := y)) u"
    by (rule block_access[OF fs_stD(1)[OF assms(1)] g(1) nb assms(2)]) blast
  let ?y = "with_bit False (unat b mod BPB) (bview s ?B)"
  obtain v w u where u: "set_data i ?y t = Ok () v" "log_write i v = Ok () w" "brelse i w = Ok () u" "eff p 1 s ((bview s)(?B := ?y)) u"
    using w[of ?y] g(2) log_st_len[OF fs_stD(1)[OF assms(1)]] by auto
  have "bfree 1 b s = Ok () u"
    using t u(1-3) assms(4) by (simp add: bfree_def Let_def used_def with_bit_def)
  then show ?thesis using u(4) by blast
qed

lemma bfree_free_panics:
  fixes s :: "'z fsst_scheme"
  assumes "fs_st p s" "space 0 s" "b < sb_size (sb s)" "\<not> used (sb s) (bview s) b"
  shows "bfree 1 b s = Panic ''freeing free block''"
proof -
  let ?B = "BBLOCK b (sb s)"
  have g: "?B < disksize s" using fs_stD(2)[OF assms(1)] assms(3) by (auto simp: geom_def)
  have nb: "?B \<notin> blocked s" using fs_stD(4)[OF assms(1)] assms(3) by (auto simp: data_blk_def)
  obtain i t where "bread 1 ?B s = Ok i t" "get_data i t = Ok (bview s ?B) t"
    by (rule block_access[OF fs_stD(1)[OF assms(1)] g(1) nb assms(2)]) blast
  then show ?thesis using assms(4) by (simp add: bfree_def Let_def used_def)
qed

text \<open>\<open>bzero\<close>\<close>

lemma bzero_run:
  fixes s :: "'z fsst_scheme"
  assumes "log_st p s" "space 1 s" "b < disksize s" "\<not> in_log s b" "b \<notin> blocked s"
  shows "\<exists>t. bzero 1 b s = Ok () t \<and> eff p 1 s ((bview s)(b := replicate BSIZE 0)) t"
proof -
  obtain i t where t: "bread 1 b s = Ok i t"
    and w: "\<And>y. length y = BSIZE \<Longrightarrow> 0 < (1 :: nat) \<Longrightarrow> \<not> in_log s b \<Longrightarrow>
      \<exists>v w u. set_data i y t = Ok () v \<and> log_write i v = Ok () w \<and> brelse i w = Ok () u \<and> eff p 1 s ((bview s)(b := y)) u"
    by (rule block_access[OF assms(1,3,5,2)]) blast
  obtain v w u where "set_data i (replicate BSIZE 0) t = Ok () v" "log_write i v = Ok () w" "brelse i w = Ok () u"
      "eff p 1 s ((bview s)(b := replicate BSIZE 0)) u"
    using w[of "replicate BSIZE 0"] assms(4) by auto
  then show ?thesis using t by (simp add: bzero_def)
qed

text \<open>The inner loop of \<open>balloc\<close>\<close>

lemma BBLOCK_row:
  assumes "b mod BPB = 0" "k < BPB" "b + k < 4294967296"
  shows "BBLOCK (of_nat (b + k)) z = BBLOCK (of_nat b) z" "unat (of_nat (b + k) :: u32) mod BPB = k"
proof -
  have "(b + k) div BPB = b div BPB" using assms(1,2) by (simp add: div_add1_eq BPB_val)
  then show "BBLOCK (of_nat (b + k)) z = BBLOCK (of_nat b) z" using assms(3) by (simp add: BBLOCK_unat unat_of_nat_u32 del: of_nat_add)
  show "unat (of_nat (b + k) :: u32) mod BPB = k" using assms by (simp add: unat_of_nat_u32 mod_add_eq[symmetric] del: of_nat_add)
qed

lemma free_bit_cases:
  assumes "b mod BPB = 0" "fsz < 4294967296" "b < fsz"
  shows "free_bit fsz b (V (BBLOCK (of_nat b) z)) = Some k \<Longrightarrow>
      k < BPB \<and> b + k < fsz \<and> \<not> used z V (of_nat (b + k)) \<and> (\<forall>j<k. used z V (of_nat (b + j)))"
    "free_bit fsz b (V (BBLOCK (of_nat b) z)) = None \<Longrightarrow> j < BPB \<Longrightarrow> b + j < fsz \<Longrightarrow> used z V (of_nat (b + j))"
proof -
  let ?x = "V (BBLOCK (of_nat b) z)"
  have u: "used z V (of_nat (b + j)) \<longleftrightarrow> ?x ! (j div 8) AND bit_mask j \<noteq> 0" if "j < BPB" "b + j < fsz" for j
    using BBLOCK_row[OF assms(1) that(1)] assms(2) that(2) by (simp add: used_def del: of_nat_add)
  show "k < BPB \<and> b + k < fsz \<and> \<not> used z V (of_nat (b + k)) \<and> (\<forall>j<k. used z V (of_nat (b + j)))" if "free_bit fsz b ?x = Some k"
  proof -
    obtain i where i: "i < length [0..<min BPB (fsz - b)]" "[0..<min BPB (fsz - b)] ! i = k" "?x ! (k div 8) AND bit_mask k = 0"
        "\<forall>j<i. \<not> ?x ! ([0..<min BPB (fsz - b)] ! j div 8) AND bit_mask ([0..<min BPB (fsz - b)] ! j) = 0"
      using \<open>free_bit fsz b ?x = Some k\<close> unfolding free_bit_def find_Some_iff by blast
    then have k: "i = k" "k < BPB" "b + k < fsz" using assms(3) by auto
    then have "\<forall>j<k. used z V (of_nat (b + j))" using i(1,4) u by (simp del: of_nat_add push_bit_of_1)
    then show ?thesis using k i(3) u[OF k(2,3)] by (simp del: of_nat_add push_bit_of_1)
  qed
  show "used z V (of_nat (b + j))" if "free_bit fsz b ?x = None" "j < BPB" "b + j < fsz"
    using that u[OF that(2,3)] by (auto simp: free_bit_def find_None_iff)
qed

lemma balloc_loop_run:
  fixes s :: "'z fsst_scheme"
  assumes "fs_st p s" "space 2 s" "b mod BPB = 0" "c < sb_size (sb s)" "\<not> used (sb s) (bview s) c" "b \<le> unat c"
    "\<And>d. unat d < b \<Longrightarrow> used (sb s) (bview s) d"
  shows "\<exists>a t. balloc_loop 1 (unat (sb_size (sb s))) b s = Ok a t \<and> a < sb_size (sb s) \<and> \<not> used (sb s) (bview s) a \<and>
    (\<forall>d<a. used (sb s) (bview s) d) \<and>
    eff p 2 s ((bview s)(BBLOCK a (sb s) := with_bit True (unat a mod BPB) (bview s (BBLOCK a (sb s))), a := replicate BSIZE 0)) t"
  using assms
proof (induction "unat (sb_size (sb s)) - b" arbitrary: b s rule: less_induct)
  case less
  let ?z = "sb s" and ?n = "unat (sb_size (sb s))"
  let ?B = "BBLOCK (of_nat b) ?z"
  have bn: "b < ?n" using less.prems(4,6) by (simp add: word_less_nat_alt)
  have n: "?n < 4294967296" by (rule unat_u32_bound)
  have ub: "unat (of_nat b :: u32) = b" using bn n by (simp add: unat_of_nat_u32)
  have bz: "of_nat b < sb_size ?z" using ub bn by (simp add: word_less_nat_alt)
  have g: "?B < disksize s" "\<not> in_log s ?B" using fs_stD(2)[OF less.prems(1)] bz by (auto simp: geom_def)
  have nb: "?B \<notin> blocked s" using fs_stD(4)[OF less.prems(1)] bz by (auto simp: data_blk_def)
  note L = fs_stD(1)[OF less.prems(1)]
  obtain i t u where t: "bread 1 ?B s = Ok i t" "get_data i t = Ok (bview s ?B) t" "brelse i t = Ok () u" "eff p 0 s (bview s) u"
    and w: "\<And>y. length y = BSIZE \<Longrightarrow> 0 < (2 :: nat) \<Longrightarrow> \<not> in_log s ?B \<Longrightarrow>
      \<exists>v w u. set_data i y t = Ok () v \<and> log_write i v = Ok () w \<and> brelse i w = Ok () u \<and> eff p 1 s ((bview s)(?B := y)) u"
    by (rule block_access[OF L g(1) nb less.prems(2)]) blast
  note fb = free_bit_cases[OF less.prems(3) n bn, where V = "bview s" and z = ?z]
  show ?case
  proof (cases "free_bit ?n b (bview s ?B)")
    case (Some k)
    let ?a = "of_nat (b + k) :: u32"
    have k: "k < BPB" "b + k < ?n" "\<not> used ?z (bview s) ?a" "\<forall>j<k. used ?z (bview s) (of_nat (b + j))" using fb(1)[OF Some] by auto
    have row: "BBLOCK ?a ?z = ?B" "unat ?a mod BPB = k" "unat ?a = b + k"
      using BBLOCK_row[OF less.prems(3) k(1)] k(2) n unat_of_nat_u32[of "b + k"] by simp_all
    have a: "?a < sb_size ?z" using row(3) k(2) by (simp add: word_less_nat_alt)
    have lo: "used ?z (bview s) d" if "d < ?a" for d
    proof (cases "unat d < b")
      case False
      then have "d = of_nat (b + (unat d - b))" "unat d - b < k" using that row(3) by (auto simp: word_less_nat_alt)
      then show ?thesis using k(4) by metis
    qed (use less.prems(7) in blast)
    let ?y = "with_bit True k (bview s ?B)"
    obtain v w u where u: "set_data i ?y t = Ok () v" "log_write i v = Ok () w" "brelse i w = Ok () u" "eff p 1 s ((bview s)(?B := ?y)) u"
      using w[of ?y] g(2) log_st_len[OF L] by auto
    note U = effD[OF u(4)] and F = log_frame_fs[OF effD(4)[OF u(4)]]
    have da: "data_blk s ?a" by (rule fs_stD(3)[OF less.prems(1) a k(3)])
    have sp: "space 1 u" using space_eff[of 1 1, OF _ u(4)] less.prems(2) by (simp add: numeral_2_eq_2)
    have "?a \<notin> blocked s" using fs_stD(5)[OF less.prems(1)] k(3) by blast
    then obtain x where x: "bzero 1 ?a u = Ok () x" "eff p 1 u ((bview u)(?a := replicate BSIZE 0)) x"
      using bzero_run[OF U(1), of ?a] sp da F U(3) by (auto simp: data_blk_def)
    have "balloc_loop 1 ?n b s = Ok ?a x"
      using bn t(1,2) Some u(1-3) x(1) by (subst balloc_loop.simps) (simp add: with_bit_def del: of_nat_add)
    moreover have "eff p 2 s ((bview s)(?B := ?y, ?a := replicate BSIZE 0)) x" using eff_trans[OF u(4) x(2)] U(2) by (simp add: numeral_2_eq_2)
    ultimately show ?thesis using a k(3) lo row by (intro exI[of _ ?a] exI[of _ x]) (simp del: of_nat_add)
  next
    case None
    note U = effD[OF t(4)] and F = log_frame_fs[OF effD(4)[OF t(4)]]
    have st: "fs_st p u" using fs_stD[OF less.prems(1)] by (intro fs_st_eff[OF less.prems(1) t(4)]) auto
    have r: "used ?z (bview s) d" if "unat d < b + BPB" "unat d < ?n" for d
    proof (cases "unat d < b")
      case False
      then show ?thesis using fb(2)[OF None, of "unat d - b"] that by simp
    qed (use less.prems(7) in blast)
    have c: "b + BPB \<le> unat c" using r[of c] less.prems(4,5) by (meson leI word_less_nat_alt)
    have "used ?z (bview s) d" if "unat d < b + BPB" for d
      using r[OF that] that c less.prems(4) by (simp add: word_less_nat_alt)
    moreover have "space 2 u" using space_eff[of 0 2 s p "bview s" u] t(4) less.prems(2) by (simp only: add_0)
    moreover have "?n - (b + BPB) < ?n - b" using bn by (simp add: BPB_val)
    ultimately have "\<exists>a v. balloc_loop 1 ?n (b + BPB) u = Ok a v \<and> a < sb_size ?z \<and> \<not> used ?z (bview s) a \<and> (\<forall>d<a. used ?z (bview s) d) \<and>
      eff p 2 u ((bview s)(BBLOCK a ?z := with_bit True (unat a mod BPB) (bview s (BBLOCK a ?z)), a := replicate BSIZE 0)) v"
      using less.hyps[of u "b + BPB"] st less.prems(3-5) F(1) U(2) c by simp
    then obtain a v where v: "balloc_loop 1 ?n (b + BPB) u = Ok a v" "a < sb_size ?z" "\<not> used ?z (bview s) a" "\<forall>d<a. used ?z (bview s) d"
      "eff p 2 u ((bview s)(BBLOCK a ?z := with_bit True (unat a mod BPB) (bview s (BBLOCK a ?z)), a := replicate BSIZE 0)) v" by blast
    have "balloc_loop 1 ?n b s = Ok a v" using bn t(1-3) None v(1) by (subst balloc_loop.simps) simp
    then show ?thesis using v(2-4) eff_trans[OF t(4) v(5), unfolded add_0] by (intro exI[of _ a] exI[of _ v]) simp
  qed
qed

text \<open>The bitmap after an allocation: the new block lies in no bitmap block, so that zeroing it leaves the bitmap alone.\<close>

lemma used_alloc:
  fixes s :: "'z fsst_scheme"
  assumes "log_st p s" "data_blk s a" "c < sb_size (sb s)"
  shows "used (sb s) ((bview s)(BBLOCK a (sb s) := with_bit True (unat a mod BPB) (bview s (BBLOCK a (sb s))), a := x)) c
    \<longleftrightarrow> used (sb s) (bview s) c \<or> c = a"
proof -
  have "BBLOCK c (sb s) \<noteq> a" using assms(2,3) by (auto simp: data_blk_def)
  then have "used (sb s) ((bview s)(BBLOCK a (sb s) := with_bit True (unat a mod BPB) (bview s (BBLOCK a (sb s))), a := x)) c =
      used (sb s) ((bview s)(BBLOCK a (sb s) := with_bit True (unat a mod BPB) (bview s (BBLOCK a (sb s))))) c"
    by (simp add: used_def)
  then show ?thesis using used_with_bit[where V = "bview s" and b = a and z = "sb s" and v = True and c = c] log_st_len[OF assms(1)] by simp
qed

lemma balloc_run:
  fixes s :: "'z fsst_scheme"
  assumes "fs_st p s" "space 2 s" "\<exists>c < sb_size (sb s). \<not> used (sb s) (bview s) c"
  obtains a t where "balloc 1 s = Ok a t" "a < sb_size (sb s)" "\<not> used (sb s) (bview s) a" "\<And>d. d < a \<Longrightarrow> used (sb s) (bview s) d"
    "eff p 2 s ((bview s)(BBLOCK a (sb s) := with_bit True (unat a mod BPB) (bview s (BBLOCK a (sb s))), a := replicate BSIZE 0)) t"
    "fs_st p t" "data_blk s a" "\<And>c. c < sb_size (sb s) \<Longrightarrow> used (sb s) (bview t) c \<longleftrightarrow> used (sb s) (bview s) c \<or> c = a"
proof -
  obtain c where c: "c < sb_size (sb s)" "\<not> used (sb s) (bview s) c" using assms(3) by blast
  obtain a t where t: "balloc_loop 1 (unat (sb_size (sb s))) 0 s = Ok a t" "a < sb_size (sb s)" "\<not> used (sb s) (bview s) a"
    "\<forall>d<a. used (sb s) (bview s) d"
    "eff p 2 s ((bview s)(BBLOCK a (sb s) := with_bit True (unat a mod BPB) (bview s (BBLOCK a (sb s))), a := replicate BSIZE 0)) t"
    using balloc_loop_run[OF assms(1,2) _ c, of 0] by auto
  have d: "data_blk s a" by (rule fs_stD(3)[OF assms(1) t(2,3)])
  note ua = used_alloc[OF fs_stD(1)[OF assms(1)] d, where x = "replicate BSIZE 0"]
  have "fs_st p t"
    using fs_stD[OF assms(1)] ua by (intro fs_st_eff[OF assms(1) t(5)]) (auto simp: data_blk_def)
  moreover have "balloc 1 s = Ok a t" using t(1) by (simp add: balloc_def)
  ultimately show thesis using that t(2-5) d ua effD(2)[OF t(5)] by simp
qed

text \<open>
  C16. Block allocation. In a transaction with room for three blocks and no buffer held, on a disk
  where only data blocks are free: when some block is free, \<open>balloc\<close> returns the lowest free block, which lies
  outside the log, the bitmap and the inodes, marks it and no other block in use, zeroes it, and
  changes the contents of no other block but its bitmap block; at most two blocks join the
  transaction. \<open>bfree\<close> of that block then marks exactly it free again, and a second \<open>bfree\<close> panics.
\<close>

theorem balloc_bfree:
  fixes s :: "'z fsst_scheme"
  assumes "fs_st p s" "space 3 s" "\<exists>c < sb_size (sb s). \<not> used (sb s) (bview s) c" "blocked s = {}"
  shows "\<exists>a t u. balloc 1 s = Ok a t \<and> data_blk s a \<and> \<not> used (sb s) (bview s) a \<and> (\<forall>d<a. used (sb s) (bview s) d)
    \<and> (\<forall>c < sb_size (sb s). used (sb s) (bview t) c \<longleftrightarrow> used (sb s) (bview s) c \<or> c = a)
    \<and> bview t a = replicate BSIZE 0 \<and> (\<forall>b. b \<noteq> a \<and> b \<noteq> BBLOCK a (sb s) \<longrightarrow> bview t b = bview s b)
    \<and> length (logged t) \<le> length (logged s) + 2
    \<and> bfree 1 a t = Ok () u \<and> (\<forall>c < sb_size (sb s). used (sb s) (bview u) c \<longleftrightarrow> used (sb s) (bview s) c)
    \<and> bfree 1 a u = Panic ''freeing free block''"
proof -
  obtain a t where t: "balloc 1 s = Ok a t" "a < sb_size (sb s)" "\<not> used (sb s) (bview s) a" "\<And>d. d < a \<Longrightarrow> used (sb s) (bview s) d"
    "eff p 2 s ((bview s)(BBLOCK a (sb s) := with_bit True (unat a mod BPB) (bview s (BBLOCK a (sb s))), a := replicate BSIZE 0)) t"
    "fs_st p t" "data_blk s a" "\<And>c. c < sb_size (sb s) \<Longrightarrow> used (sb s) (bview t) c \<longleftrightarrow> used (sb s) (bview s) c \<or> c = a"
    using balloc_run[OF assms(1) space_mono[OF assms(2)] assms(3)] by auto
  note T = effD[OF t(5)] and F = log_frame_fs[OF effD(4)[OF t(5)]]
  have sp: "space 1 t" using space_eff[of 2 1, OF _ t(5)] assms(2) by simp
  obtain u where u: "bfree 1 a t = Ok () u"
    "eff p 1 t ((bview t)(BBLOCK a (sb t) := with_bit False (unat a mod BPB) (bview t (BBLOCK a (sb t))))) u"
    using bfree_run[OF t(6) sp, of a] t(2,8) F(1) by auto
  have fu: "used (sb s) (bview u) c \<longleftrightarrow> used (sb s) (bview s) c" if "c < sb_size (sb s)" for c
    using effD(2)[OF u(2)] used_with_bit[where V = "bview t" and b = a and z = "sb s" and v = False and c = c] log_st_len[OF T(1)] t(3) t(8)[OF that] F(1) by auto
  have U: "fs_st p u"
    using fs_st_eff[OF t(6) u(2)] effD(2)[OF u(2)] fu fs_stD(3)[OF assms(1)] F T(3) assms(4) by auto
  have "bfree 1 a u = Panic ''freeing free block''"
    using bfree_free_panics[OF U] space_eff[of 1 0, OF _ u(2)] sp t(2,3) fu[of a] log_frame_fs(1)[OF effD(4)[OF u(2)]] F(1) by simp
  then show ?thesis using t(1-4,7,8) T(2,7) u(1) fu
    by (intro exI[of _ a] exI[of _ t] exI[of _ u]) (auto simp: data_blk_def)
qed

subsection \<open>An example\<close>

text \<open>
  A started machine in a transaction, with the given superblock, inode cache and disk: one inode
  block 2, the bitmap in block 3, 100 blocks in all.
\<close>

definition demo_sb :: superblock where
  "demo_sb = \<lparr>sb_size = 100, sb_nblocks = 96, sb_ninodes = 8, sb_nlog = 30, sb_logstart = 256, sb_inodestart = 2, sb_bmapstart = 3\<rparr>"

definition demo_disk :: "u32 \<Rightarrow> u8 list" where
  "demo_disk b = (if b = 3 then 15 # replicate 511 0 else replicate BSIZE 0)"

definition demo_fs :: "inode list \<Rightarrow> fsst" where
  "demo_fs ic = logst.extend (demo_log\<lparr>disk := demo_disk, log_outstanding := 1\<rparr>) (fsst.fields demo_sb ic)"

lemma demo_fs_fields:
  "bufs (demo_fs ic) = bufs demo_bio" "held (demo_fs ic) = []" "disk (demo_fs ic) = demo_disk" "ptable (demo_fs ic) = ptable demo_bio"
  "disksize (demo_fs ic) = 1000"
  "log_start (demo_fs ic) = 256" "log_size (demo_fs ic) = 30" "log_outstanding (demo_fs ic) = 1" "log_dev (demo_fs ic) = 1"
  "lh_n (demo_fs ic) = 0" "lh_block (demo_fs ic) = replicate LOGSIZE 0" "sb (demo_fs ic) = demo_sb"
  by (simp_all add: demo_fs_def demo_log_def demo_bio_def bio.extend_def logst.extend_def logst.fields_def fsst.fields_def)

lemma fsst_of_more:
  fixes s t :: fsst
  shows "bio.more s = bio.more t \<Longrightarrow> log_start s = log_start t \<and> log_size s = log_size t \<and> log_outstanding s = log_outstanding t \<and>
    log_dev s = log_dev t \<and> lh_n s = lh_n t \<and> lh_block s = lh_block t \<and> sb s = sb t"
  by (cases s; cases t) simp

lemma demo_disk_len: "length (demo_disk b) = BSIZE"
  by (simp add: demo_disk_def BSIZE_def)

lemma demo_fs_started:
  "\<exists>s :: fsst. log_st 0 s \<and> blocked s = {} \<and> logged s = [] \<and> bview s = demo_disk \<and> disksize s = 1000 \<and> sb s = demo_sb \<and>
     log_start s = 256 \<and> log_size s = 30 \<and> log_outstanding s = 1"
proof -
  obtain t :: fsst where t: "bio_inv 0 (t\<lparr>curproc := Some 0\<rparr>)" "bview (t\<lparr>curproc := Some 0\<rparr>) = demo_disk" "disksize t = 1000"
    "\<forall>i b. \<not> caches (bufs t) i b" "bio.more t = bio.more (demo_fs [])"
    using binit_ok[of "demo_fs []" 0] demo_start(1,4,6) demo_disk_len by (auto simp: demo_fs_fields)
  let ?s = "t\<lparr>curproc := Some 0\<rparr>"
  note f = fsst_of_more[OF t(5), unfolded demo_fs_fields]
  have n: "bdirty ?s = {}" "blocked ?s = {}" using t(4) by (auto simp: bdirty_def blocked_def)
  then have d: "disk ?s = demo_disk" using bview_clean[OF t(1)] t(2) by auto
  have "get32 0 (demo_disk 256) = 0" by (simp add: demo_disk_def get32_def BSIZE_def)
  then have "log_st 0 ?s" using t(1,3) n d f by (simp add: log_st_def log_ok_def trans_ok_def logged_def LOGSIZE_val)
  then show ?thesis using t(2,3) n f by (intro exI[of _ ?s]) (simp add: logged_def)
qed

lemma demo_used: "b < 100 \<Longrightarrow> used demo_sb demo_disk b \<longleftrightarrow> b < 4"
proof -
  assume b: "b < 100"
  have "list_all (\<lambda>n. used demo_sb demo_disk (of_nat n) = (of_nat n < (4 :: u32))) [0..<100]" by code_simp
  moreover have "unat b \<in> set [0..<100]" using b by (simp add: word_less_nat_alt)
  ultimately have "used demo_sb demo_disk (of_nat (unat b)) = (of_nat (unat b) < (4 :: u32))" unfolding list_all_iff by blast
  then show ?thesis by simp
qed

lemma demo_blocks: "c < 100 \<Longrightarrow> BBLOCK c demo_sb = 3" "i < 8 \<Longrightarrow> IBLOCK i demo_sb = 2"
proof -
  show "c < 100 \<Longrightarrow> BBLOCK c demo_sb = 3" by (simp add: BBLOCK_unat demo_sb_def BPB_val word_less_nat_alt)
  have "i < 8 \<Longrightarrow> i div 8 = 0" by (simp add: word_unat_eq_iff unat_div word_less_nat_alt)
  then show "i < 8 \<Longrightarrow> IBLOCK i demo_sb = 2" by (simp add: IBLOCK_def demo_sb_def IPB_def BSIZE_def)
qed

lemma demo_fs_ok: "\<exists>s :: fsst. fs_st 0 s \<and> space 3 s \<and> blocked s = {} \<and> sb s = demo_sb \<and> bview s = demo_disk"
proof -
  obtain s :: fsst where s: "log_st 0 s" "blocked s = {}" "logged s = []" "bview s = demo_disk" "disksize s = 1000" "sb s = demo_sb"
     "log_start s = 256" "log_size s = 30" "log_outstanding s = 1" using demo_fs_started by blast
  have z: "sb_size demo_sb = 100" "sb_ninodes demo_sb = 8" by (simp_all add: demo_sb_def)
  have l: "\<not> in_log s b" if "b < 100" for b using that s(7) by (simp add: in_log_def word_less_nat_alt)
  have "geom s" using s(5,6) z demo_blocks l by (simp add: geom_def)
  moreover have "data_blk s b" if "b < 100" "\<not> b < 4" for b
  proof -
    have "b \<noteq> 0" "b \<noteq> 2" "b \<noteq> 3" "b < 1000" using that less_trans[of b 100 1000] by auto
    then show ?thesis using that s(5,6) z demo_blocks l by (simp add: data_blk_def)
  qed
  ultimately have "fs_st 0 s" using s(1,2,4,6) z demo_used by (simp add: fs_st_def)
  then show ?thesis using s by (intro exI[of _ s]) (simp add: space_def room_def)
qed

theorem balloc_bfree_witness:
  "\<exists>(s :: fsst) a t. balloc 1 s = Ok a t \<and> bview s = demo_disk \<and> \<not> used demo_sb demo_disk a \<and> bview t a = replicate BSIZE 0"
proof -
  obtain s :: fsst where s: "fs_st 0 s" "space 3 s" "blocked s = {}" "sb s = demo_sb" "bview s = demo_disk" using demo_fs_ok by blast
  have "\<exists>c < sb_size (sb s). \<not> used (sb s) (bview s) c" using s demo_used[of 50] by (intro exI[of _ 50]) (simp add: demo_sb_def)
  from balloc_bfree[OF s(1,2) this s(3)] s show ?thesis by auto
qed

end
