(* ===== verification/File.thy ===== *)
theory File
  imports Fs
begin

text \<open>
  Pipes, \<^verbatim>\<open>src/pipe.c\<close>, and open files, \<^verbatim>\<open>src/file.c\<close>. A pipe lives in a page of its own and is kept in
  a table indexed by the page's address; a file pointer is an index into \<open>ftable.file\<close>.
  The functions that copy from a user buffer take its bytes, and those that copy into one return
  the bytes.
\<close>

subsection \<open>State\<close>

definition PIPESIZE :: nat where "PIPESIZE = 512"

record pipe =
  p_data :: "u8 list"
  p_nread :: u32
  p_nwrite :: u32
  p_readopen :: bool
  p_writeopen :: bool

datatype fdtype = FD_NONE | FD_PIPE | FD_INODE

record file_t =
  f_type :: fdtype
  f_ref :: i32
  f_readable :: bool
  f_writable :: bool
  f_pipe :: u32
  f_ip :: nat
  f_off :: u32

record filest = fsst +
  pipes :: "u32 \<Rightarrow> pipe"
  ftable :: "file_t list"

definition upd_pipe :: "u32 \<Rightarrow> (pipe \<Rightarrow> pipe) \<Rightarrow> ('z filest_scheme, unit) kprog" where
  "upd_pipe p f = kmodify (\<lambda>s. s\<lparr>pipes := (pipes s)(p := f (pipes s p))\<rparr>)"

definition upd_file :: "nat \<Rightarrow> (file_t \<Rightarrow> file_t) \<Rightarrow> ('z filest_scheme, unit) kprog" where
  "upd_file f g = kmodify (\<lambda>s. s\<lparr>ftable := upd_at f g (ftable s)\<rparr>)"

definition get_file :: "nat \<Rightarrow> ('z filest_scheme, file_t) kprog" where
  "get_file f = kgets (\<lambda>s. ftable s ! f)"

subsection \<open>Pipes\<close>

definition pipeclose :: "u32 \<Rightarrow> bool \<Rightarrow> ('z filest_scheme, unit) kprog" where
  "pipeclose p writable =
     kbind (lk_acquire (LK_pipe p)) (\<lambda>_.
     kbind (if writable
            then kseq [upd_pipe p (\<lambda>q. q\<lparr>p_writeopen := False\<rparr>), wakeup (Ch_pipe_nread p)]
            else kseq [upd_pipe p (\<lambda>q. q\<lparr>p_readopen := False\<rparr>), wakeup (Ch_pipe_nwrite p)]) (\<lambda>_.
     kbind (kgets (\<lambda>s. pipes s p)) (\<lambda>q.
     if \<not> p_readopen q \<and> \<not> p_writeopen q
     then kseq [lk_release (LK_pipe p), kfree p]
     else lk_release (LK_pipe p))))"

text \<open>
  \<open>pipewrite_loop\<close> has the bytes that are still to be written; a process that has slept continues with
  the bytes it had left. \<open>pipe_put\<close> is one round of the copy.
\<close>

definition pipe_put :: "u8 \<Rightarrow> pipe \<Rightarrow> pipe" where
  "pipe_put c q = q\<lparr>p_data := (p_data q)[unat (p_nwrite q) mod PIPESIZE := c], p_nwrite := p_nwrite q + 1\<rparr>"

fun pipewrite_loop :: "u32 \<Rightarrow> i32 \<Rightarrow> u8 list \<Rightarrow> ('z filest_scheme, int) kprog" where
  "pipewrite_loop p n [] = kbind (kseq [wakeup (Ch_pipe_nread p), lk_release (LK_pipe p)]) (\<lambda>_. kreturn (sint n))"
| "pipewrite_loop p n (c # cs) =
     kbind (kgets (\<lambda>s. pipes s p)) (\<lambda>q.
     if p_nwrite q = p_nread q + of_nat PIPESIZE
     then kbind (if p_readopen q then myproc_get killed else kreturn True) (\<lambda>stop.
            if stop then kbind (lk_release (LK_pipe p)) (\<lambda>_. kreturn (- 1))
            else kbind (wakeup (Ch_pipe_nread p)) (\<lambda>_. sleep (Ch_pipe_nwrite p) (LK_pipe p)))
     else kbind (upd_pipe p (pipe_put c)) (\<lambda>_. pipewrite_loop p n cs))"

definition pipewrite :: "u32 \<Rightarrow> u8 list \<Rightarrow> i32 \<Rightarrow> ('z filest_scheme, int) kprog" where
  "pipewrite p addr n = kbind (lk_acquire (LK_pipe p)) (\<lambda>_. pipewrite_loop p n (take (nat (sint n)) addr))"

fun piperead_copy :: "u32 \<Rightarrow> nat \<Rightarrow> ('z filest_scheme, u8 list) kprog" where
  "piperead_copy p 0 = kreturn []"
| "piperead_copy p (Suc k) =
     kbind (kgets (\<lambda>s. pipes s p)) (\<lambda>q.
     if p_nread q = p_nwrite q then kreturn []
     else kbind (upd_pipe p (\<lambda>q. q\<lparr>p_nread := p_nread q + 1\<rparr>)) (\<lambda>_.
       kbind (piperead_copy p k) (\<lambda>r.
       kreturn (p_data q ! (unat (p_nread q) mod PIPESIZE) # r))))"

text \<open>\<open>piperead_loop\<close> starts at the \<^verbatim>\<open>while\<close>, where a woken process continues.\<close>

definition piperead_loop :: "u32 \<Rightarrow> i32 \<Rightarrow> ('z filest_scheme, int \<times> u8 list) kprog" where
  "piperead_loop p n =
     kbind (kgets (\<lambda>s. pipes s p)) (\<lambda>q.
     if p_nread q = p_nwrite q \<and> p_writeopen q
     then kbind (myproc_get killed) (\<lambda>k.
            if k then kbind (lk_release (LK_pipe p)) (\<lambda>_. kreturn (- 1, []))
            else sleep (Ch_pipe_nread p) (LK_pipe p))
     else kbind (piperead_copy p (nat (sint n))) (\<lambda>x.
       kbind (kseq [wakeup (Ch_pipe_nwrite p), lk_release (LK_pipe p)]) (\<lambda>_.
       kreturn (int (length x), x))))"

definition piperead :: "u32 \<Rightarrow> i32 \<Rightarrow> ('z filest_scheme, int \<times> u8 list) kprog" where
  "piperead p n = kbind (lk_acquire (LK_pipe p)) (\<lambda>_. piperead_loop p n)"

subsection \<open>Files\<close>

definition fileinit :: "('z filest_scheme, unit) kprog" where
  "fileinit = lk_init LK_ftable"

definition filealloc :: "('z filest_scheme, nat option) kprog" where
  "filealloc =
     kbind (lk_acquire LK_ftable) (\<lambda>_.
     kbind (kgets (\<lambda>s. find_index (\<lambda>f. f_ref f = 0) (ftable s))) (\<lambda>found.
     kbind (case found of Some f \<Rightarrow> upd_file f (\<lambda>x. x\<lparr>f_ref := 1\<rparr>) | None \<Rightarrow> kreturn ()) (\<lambda>_.
     kbind (lk_release LK_ftable) (\<lambda>_.
     kreturn found))))"

definition filedup :: "nat \<Rightarrow> ('z filest_scheme, nat) kprog" where
  "filedup f =
     kbind (lk_acquire LK_ftable) (\<lambda>_.
     kbind (get_file f) (\<lambda>x.
     if sint (f_ref x) < 1 then kpanic ''filedup''
     else kbind (kseq [upd_file f (\<lambda>x. x\<lparr>f_ref := f_ref x + 1\<rparr>), lk_release LK_ftable]) (\<lambda>_. kreturn f)))"

definition fileclose :: "nat \<Rightarrow> ('z filest_scheme, unit) kprog" where
  "fileclose f =
     kbind (lk_acquire LK_ftable) (\<lambda>_.
     kbind (get_file f) (\<lambda>x.
     if sint (f_ref x) < 1 then kpanic ''fileclose''
     else kbind (upd_file f (\<lambda>x. x\<lparr>f_ref := f_ref x - 1\<rparr>)) (\<lambda>_.
       kbind (get_file f) (\<lambda>ff.
       if sint (f_ref ff) > 0 then lk_release LK_ftable
       else kbind (kseq [upd_file f (\<lambda>x. x\<lparr>f_ref := 0, f_type := FD_NONE\<rparr>), lk_release LK_ftable]) (\<lambda>_.
         case f_type ff of
           FD_PIPE \<Rightarrow> pipeclose (f_pipe ff) (f_writable ff)
         | FD_INODE \<Rightarrow> kseq [begin_op, iput (f_ip ff), end_op]
         | FD_NONE \<Rightarrow> kreturn ())))))"

definition filestat :: "nat \<Rightarrow> ('z filest_scheme, stat option) kprog" where
  "filestat f =
     kbind (get_file f) (\<lambda>x.
     if f_type x = FD_INODE
     then kbind (ilock (Some (f_ip x))) (\<lambda>_.
       kbind (stati (f_ip x)) (\<lambda>st.
       kbind (iunlock (Some (f_ip x))) (\<lambda>_.
       kreturn (Some st))))
     else kreturn None)"

definition fileread :: "('z filest_scheme) devsw \<Rightarrow> nat \<Rightarrow> i32 \<Rightarrow> ('z filest_scheme, int \<times> u8 list) kprog" where
  "fileread devsw f n =
     kbind (get_file f) (\<lambda>x.
     if \<not> f_readable x then kreturn (- 1, [])
     else case f_type x of
       FD_PIPE \<Rightarrow> piperead (f_pipe x) n
     | FD_INODE \<Rightarrow>
         kbind (ilock (Some (f_ip x))) (\<lambda>_.
         kbind (readi devsw (f_ip x) (f_off x) n) (\<lambda>(r, bs).
         kbind (kwhen (r > 0) (upd_file f (\<lambda>y. y\<lparr>f_off := f_off y + of_int r\<rparr>))) (\<lambda>_.
         kbind (iunlock (Some (f_ip x))) (\<lambda>_.
         kreturn (r, bs)))))
     | FD_NONE \<Rightarrow> kpanic ''fileread'')"

definition filewrite_max :: nat where
  "filewrite_max = ((MAXOPBLOCKS - 1 - 1 - 2) div 2) * 512"

text \<open>The loop of \<open>filewrite\<close> on the bytes that remain; it returns how many were written.\<close>

function filewrite_loop :: "('z filest_scheme) devsw \<Rightarrow> nat \<Rightarrow> u8 list \<Rightarrow> nat \<Rightarrow> ('z filest_scheme, nat) kprog" where
  "filewrite_loop devsw f addr i =
     (if addr = [] then kreturn i
      else let n1 = min (length addr) filewrite_max in
        kbind begin_op (\<lambda>_.
        kbind (get_file f) (\<lambda>x.
        kbind (ilock (Some (f_ip x))) (\<lambda>_.
        kbind (writei devsw (f_ip x) (take n1 addr) (f_off x)) (\<lambda>r.
        kbind (kwhen (r > 0) (upd_file f (\<lambda>y. y\<lparr>f_off := f_off y + of_int r\<rparr>))) (\<lambda>_.
        kbind (iunlock (Some (f_ip x))) (\<lambda>_.
        kbind end_op (\<lambda>_.
        if r < 0 then kreturn i
        else if r \<noteq> int n1 then kpanic ''short filewrite''
        else filewrite_loop devsw f (drop n1 addr) (i + n1)))))))))"
  by pat_completeness auto
termination
  by (relation "measure (\<lambda>(devsw, f, addr, i). length addr)") (auto simp: filewrite_max_def MAXOPBLOCKS_def)

definition filewrite :: "('z filest_scheme) devsw \<Rightarrow> nat \<Rightarrow> u8 list \<Rightarrow> i32 \<Rightarrow> ('z filest_scheme, int) kprog" where
  "filewrite devsw f addr n =
     kbind (get_file f) (\<lambda>x.
     if \<not> f_writable x then kreturn (- 1)
     else case f_type x of
       FD_PIPE \<Rightarrow> pipewrite (f_pipe x) addr n
     | FD_INODE \<Rightarrow>
         kbind (filewrite_loop devsw f (take (nat (sint n)) addr) 0) (\<lambda>i.
         kreturn (if int i = sint n then sint n else - 1))
     | FD_NONE \<Rightarrow> kpanic ''filewrite'')"

declare filewrite_loop.simps [simp del]

text \<open>\<open>pipealloc\<close> returns the two files, or nothing after undoing what it had done.\<close>

definition pipealloc :: "('z filest_scheme, (nat \<times> nat) option) kprog" where
  "pipealloc =
     kbind filealloc (\<lambda>f0.
     kbind (case f0 of None \<Rightarrow> kreturn None | Some _ \<Rightarrow> filealloc) (\<lambda>f1.
     kbind (case f1 of None \<Rightarrow> kreturn 0 | Some _ \<Rightarrow> kalloc) (\<lambda>p.
     case (f0, f1) of
       (Some r, Some w) \<Rightarrow>
         if p \<noteq> 0
         then kbind (kseq [
             upd_pipe p (\<lambda>q. q\<lparr>p_readopen := True, p_writeopen := True, p_nwrite := 0, p_nread := 0\<rparr>),
             lk_init (LK_pipe p),
             upd_file r (\<lambda>x. x\<lparr>f_type := FD_PIPE, f_readable := True, f_writable := False, f_pipe := p\<rparr>),
             upd_file w (\<lambda>x. x\<lparr>f_type := FD_PIPE, f_readable := False, f_writable := True, f_pipe := p\<rparr>)])
           (\<lambda>_. kreturn (Some (r, w)))
         else kbind (kseq [fileclose r, fileclose w]) (\<lambda>_. kreturn None)
     | (Some r, None) \<Rightarrow> kbind (fileclose r) (\<lambda>_. kreturn None)
     | _ \<Rightarrow> kreturn None)))"

end
