(* ===== verification/Pipes.thy ===== *)
theory Pipes
  imports File
begin

text \<open>
  What the pipes of \<^verbatim>\<open>src/pipe.c\<close> guarantee. The ring buffer with its two wrapping counters is a
  bounded queue; over every interleaving of readers and writers that sleep and are resumed, the bytes
  read are the bytes written, in order. One path loses a wake-up, and it is stated as it is.
\<close>

subsection \<open>The ring buffer is a queue\<close>

definition pipe_queue :: "pipe \<Rightarrow> u8 list" where
  "pipe_queue q = map (\<lambda>k. p_data q ! (unat (p_nread q + of_nat k) mod PIPESIZE)) [0..<unat (p_nwrite q - p_nread q)]"

definition pipe_ok :: "pipe \<Rightarrow> bool" where
  "pipe_ok q \<longleftrightarrow> length (p_data q) = PIPESIZE \<and> unat (p_nwrite q - p_nread q) \<le> PIPESIZE"

lemma ring_index: "unat (x + of_nat k :: u32) mod PIPESIZE = (unat x + k) mod PIPESIZE"
proof -
  have "unat (x + of_nat k) = (unat x + k) mod 4294967296"
    by (simp add: unat_word_ariths unat_of_nat mod_simps)
  moreover have "PIPESIZE dvd 4294967296" by (simp add: PIPESIZE_def)
  ultimately show ?thesis by (simp add: mod_mod_cancel)
qed

lemma length_pipe_queue: "length (pipe_queue q) = unat (p_nwrite q - p_nread q)"
  by (simp add: pipe_queue_def)

lemma nwrite_queue: "p_nwrite q = p_nread q + of_nat (length (pipe_queue q))"
  by (simp add: length_pipe_queue)

lemma nth_pipe_queue:
  "k < length (pipe_queue q) \<Longrightarrow> pipe_queue q ! k = p_data q ! ((unat (p_nread q) + k) mod PIPESIZE)"
  by (simp add: pipe_queue_def ring_index)

lemma pipe_full_iff: "pipe_ok q \<Longrightarrow> p_nwrite q = p_nread q + of_nat PIPESIZE \<longleftrightarrow> length (pipe_queue q) = PIPESIZE"
proof
  assume "p_nwrite q = p_nread q + of_nat PIPESIZE"
  then show "length (pipe_queue q) = PIPESIZE" by (simp add: length_pipe_queue unat_of_nat PIPESIZE_def)
qed (metis nwrite_queue)

lemma pipe_empty_iff: "p_nread q = p_nwrite q \<longleftrightarrow> pipe_queue q = []"
proof
  assume "pipe_queue q = []"
  then have "unat (p_nwrite q - p_nread q) = 0" using length_pipe_queue[of q] by simp
  then have "p_nwrite q - p_nread q = 0" by (simp only: unsigned_eq_0_iff)
  then show "p_nread q = p_nwrite q" by simp
qed (simp add: pipe_queue_def)

lemma ring_slots_differ:
  assumes "k < l" "l < PIPESIZE"
  shows "(n + k) mod PIPESIZE \<noteq> (n + l) mod PIPESIZE"
proof
  assume "(n + k) mod PIPESIZE = (n + l) mod PIPESIZE"
  then have "PIPESIZE dvd (n + l) - (n + k)"
    using assms mod_eq_dvd_iff_nat[of "n + k" "n + l" PIPESIZE] by simp
  then have "PIPESIZE dvd l - k" by simp
  then show False using assms by (simp add: nat_dvd_not_less)
qed

lemma pipe_put_fields [simp]:
  "p_nread (pipe_put c q) = p_nread q" "p_readopen (pipe_put c q) = p_readopen q" "p_writeopen (pipe_put c q) = p_writeopen q"
  by (simp_all add: pipe_put_def)

lemma pipe_put_queue:
  assumes "pipe_ok q" "length (pipe_queue q) < PIPESIZE"
  shows "pipe_queue (pipe_put c q) = pipe_queue q @ [c]" "pipe_ok (pipe_put c q)"
proof -
  let ?l = "length (pipe_queue q)"
  have "p_nwrite (pipe_put c q) - p_nread (pipe_put c q) = of_nat (Suc ?l)"
    using nwrite_queue[of q] by (simp add: pipe_put_def algebra_simps)
  moreover have "unat (of_nat (Suc ?l) :: u32) = Suc ?l"
    using assms(2) by (intro unat_of_nat_u32) (simp add: PIPESIZE_def)
  ultimately have l: "length (pipe_queue (pipe_put c q)) = Suc ?l" by (simp only: length_pipe_queue)
  have slot: "unat (p_nwrite q) mod PIPESIZE = (unat (p_nread q) + ?l) mod PIPESIZE"
    using ring_index[of "p_nread q" ?l] nwrite_queue[of q] by simp
  have d: "length (p_data q) = PIPESIZE" "0 < PIPESIZE" using assms(1) by (simp_all add: pipe_ok_def PIPESIZE_def)
  show "pipe_queue (pipe_put c q) = pipe_queue q @ [c]"
  proof (rule nth_equalityI)
    fix k assume "k < length (pipe_queue (pipe_put c q))"
    then have k: "k < Suc ?l" using l by simp
    have "pipe_queue (pipe_put c q) ! k = (p_data q)[(unat (p_nread q) + ?l) mod PIPESIZE := c] ! ((unat (p_nread q) + k) mod PIPESIZE)"
      using nth_pipe_queue[of k "pipe_put c q"] k l slot by (simp add: pipe_put_def)
    also have "\<dots> = (pipe_queue q @ [c]) ! k"
    proof (cases "k = ?l")
      case True
      then show ?thesis using d by (simp add: nth_append)
    next
      case False
      then have "k < ?l" using k by simp
      then show ?thesis using ring_slots_differ[of k ?l "unat (p_nread q)"] assms(2) nth_pipe_queue[of k q]
        by (simp add: nth_append)
    qed
    finally show "pipe_queue (pipe_put c q) ! k = (pipe_queue q @ [c]) ! k" .
  qed (simp add: l)
  show "pipe_ok (pipe_put c q)" using l assms d by (simp add: pipe_ok_def length_pipe_queue) (simp add: pipe_put_def d)
qed

abbreviation pipe_get :: "nat \<Rightarrow> pipe \<Rightarrow> pipe" where
  "pipe_get k q \<equiv> q\<lparr>p_nread := p_nread q + of_nat k\<rparr>"

lemma pipe_get_queue:
  assumes "pipe_ok q" "k \<le> length (pipe_queue q)"
  shows "pipe_queue (pipe_get k q) = drop k (pipe_queue q)" "pipe_ok (pipe_get k q)"
proof -
  let ?l = "length (pipe_queue q)"
  have "p_nwrite q - (p_nread q + of_nat k) = of_nat (?l - k)"
    using nwrite_queue[of q] assms(2) by (simp add: of_nat_diff)
  moreover have "unat (of_nat (?l - k) :: u32) = ?l - k"
    using assms(1) by (intro unat_of_nat_u32) (auto simp: pipe_ok_def length_pipe_queue PIPESIZE_def)
  ultimately have l: "length (pipe_queue (pipe_get k q)) = ?l - k" by (simp add: length_pipe_queue)
  show "pipe_queue (pipe_get k q) = drop k (pipe_queue q)"
  proof (rule nth_equalityI)
    fix j assume "j < length (pipe_queue (pipe_get k q))"
    then have j: "k + j < ?l" using l by simp
    have "(unat (p_nread q + of_nat k) + j) mod PIPESIZE = (unat (p_nread q) + (k + j)) mod PIPESIZE"
      using ring_index[of "p_nread q" k] by (metis mod_add_left_eq add.assoc)
    then show "pipe_queue (pipe_get k q) ! j = drop k (pipe_queue q) ! j"
      using nth_pipe_queue[of j "pipe_get k q"] nth_pipe_queue[of "k + j" q] j l assms(2) by simp
  qed (simp add: l)
  show "pipe_ok (pipe_get k q)" using l assms(1) by (auto simp: pipe_ok_def length_pipe_queue)
qed

subsection \<open>What the operations do\<close>

definition set_pipe :: "u32 \<Rightarrow> pipe \<Rightarrow> 'z filest_scheme \<Rightarrow> 'z filest_scheme" where
  "set_pipe p q s = s\<lparr>pipes := (pipes s)(p := q)\<rparr>"

lemma set_pipe_simps [simp]:
  "pipes (set_pipe p q s) = (pipes s)(p := q)" "held (set_pipe p q s) = held s" "ptable (set_pipe p q s) = ptable s"
  "curproc (set_pipe p q s) = curproc s" "set_pipe p q (set_pipe p q' s) = set_pipe p q s" "set_pipe p (pipes s p) s = s"
  "set_pipe p q (s\<lparr>held := h\<rparr>) = (set_pipe p q s)\<lparr>held := h\<rparr>"
  "set_pipe p q (s\<lparr>ptable := t\<rparr>) = (set_pipe p q s)\<lparr>ptable := t\<rparr>"
  by (simp_all add: set_pipe_def)

lemma upd_pipe_run [simp]: "upd_pipe p f s = Ok () (set_pipe p (f (pipes s p)) s)"
  by (simp add: upd_pipe_def set_pipe_def)

lemma fold_put_queue:
  assumes "pipe_ok q" "length (pipe_queue q) + length cs \<le> PIPESIZE"
  shows "pipe_queue (fold pipe_put cs q) = pipe_queue q @ cs" "pipe_ok (fold pipe_put cs q)"
    "p_readopen (fold pipe_put cs q) = p_readopen q" "p_nread (fold pipe_put cs q) = p_nread q"
  using assms by (induction cs arbitrary: q) (simp_all add: pipe_put_queue)

text \<open>The run of a writer: it stores what fits, and then returns, gives up or sleeps.\<close>

definition pipewrite_end :: "u32 \<Rightarrow> i32 \<Rightarrow> bool \<Rightarrow> nat \<Rightarrow> 'z filest_scheme \<Rightarrow> (int, 'z filest_scheme) outcome" where
  "pipewrite_end p n fits c s =
     (if fits then Ok (sint n) (s\<lparr>ptable := map (wake (Ch_pipe_nread p)) (ptable s), held := []\<rparr>)
      else if \<not> p_readopen (pipes s p) \<or> killed (ptable s ! c) then Ok (- 1) (s\<lparr>held := []\<rparr>)
      else Sleep (Ch_pipe_nwrite p) (s\<lparr>held := [LK_ptable],
        ptable := upd_at c (\<lambda>q. q\<lparr>chan := Some (Ch_pipe_nwrite p), pstate := SLEEPING\<rparr>)
          (map (wake (Ch_pipe_nread p)) (ptable s))\<rparr>))"

lemma pipewrite_loop_run:
  assumes "pipe_ok (pipes s p)" "held s = [LK_pipe p]" "curproc s = Some c" "c < length (ptable s)"
  shows "pipewrite_loop p n cs s = (let room = PIPESIZE - length (pipe_queue (pipes s p))
    in pipewrite_end p n (length cs \<le> room) c (set_pipe p (fold pipe_put (take room cs) (pipes s p)) s))"
  using assms
proof (induction cs arbitrary: s)
  case Nil
  then show ?case by (simp add: pipewrite_end_def wakeup_run Let_def)
next
  case (Cons b cs)
  let ?q = "pipes s p"
  show ?case
  proof (cases "length (pipe_queue ?q) = PIPESIZE")
    case True
    then have "p_nwrite ?q = p_nread ?q + of_nat PIPESIZE" using pipe_full_iff[OF Cons.prems(1)] by simp
    moreover have "fold pipe_put (take (PIPESIZE - length (pipe_queue ?q)) (b # cs)) ?q = ?q" using True by simp
    then have same: "set_pipe p (fold pipe_put (take (PIPESIZE - length (pipe_queue ?q)) (b # cs)) ?q) s = s"
      by (simp only: set_pipe_simps)
    ultimately show ?thesis using Cons.prems True unfolding Let_def same
      by (auto simp: pipewrite_end_def wakeup_run sleep_run[where p = c] myproc_get_def with_proc_def)
  next
    case False
    then have lt: "length (pipe_queue ?q) < PIPESIZE" using Cons.prems(1) by (simp add: pipe_ok_def length_pipe_queue)
    have nf: "p_nwrite ?q \<noteq> p_nread ?q + of_nat PIPESIZE" using pipe_full_iff[OF Cons.prems(1)] False by simp
    note put = pipe_put_queue[OF Cons.prems(1) lt, of b]
    obtain r where r: "PIPESIZE - length (pipe_queue ?q) = Suc r" using lt by (metis Suc_diff_Suc)
    then have r': "PIPESIZE - Suc (length (pipe_queue ?q)) = r" by simp
    have "pipewrite_loop p n (b # cs) s = pipewrite_loop p n cs (set_pipe p (pipe_put b ?q) s)"
      using nf by simp
    then show ?thesis
      using Cons.IH[of "set_pipe p (pipe_put b ?q) s"] Cons.prems put r r' by (simp add: Let_def)
  qed
qed

lemma piperead_copy_run:
  assumes "pipe_ok (pipes s p)"
  shows "piperead_copy p k s = Ok (take k (pipe_queue (pipes s p)))
    (set_pipe p (pipe_get (min k (length (pipe_queue (pipes s p)))) (pipes s p)) s)"
  using assms
proof (induction k arbitrary: s)
  case (Suc k)
  let ?q = "pipes s p"
  show ?case
  proof (cases "pipe_queue ?q")
    case Nil
    then have "piperead_copy p (Suc k) s = Ok [] s" using pipe_empty_iff[of ?q] by simp
    then show ?thesis using Nil by (simp del: piperead_copy.simps)
  next
    case (Cons b bs)
    then have ne: "p_nread ?q \<noteq> p_nwrite ?q" "1 \<le> length (pipe_queue ?q)" using pipe_empty_iff[of ?q] by simp_all
    have hd: "p_data ?q ! (unat (p_nread ?q) mod PIPESIZE) = b" using nth_pipe_queue[of 0 ?q] Cons by simp
    note get = pipe_get_queue[OF Suc.prems ne(2)]
    have "piperead_copy p k (set_pipe p (pipe_get 1 ?q) s) = Ok (take k bs)
        (set_pipe p (pipe_get (Suc (min k (length bs))) ?q) s)"
      using Suc.IH[of "set_pipe p (pipe_get 1 ?q) s"] get Cons by (simp add: algebra_simps)
    then show ?thesis using ne hd Cons by simp
  qed
qed simp

text \<open>The run of a reader.\<close>

lemma piperead_loop_run:
  assumes "pipe_ok (pipes s p)" "held s = [LK_pipe p]" "curproc s = Some c" "c < length (ptable s)"
  shows "piperead_loop p n s = (let Q = pipe_queue (pipes s p); m = nat (sint n) in
    if Q = [] \<and> p_writeopen (pipes s p)
    then if killed (ptable s ! c) then Ok (- 1, []) (s\<lparr>held := []\<rparr>)
      else Sleep (Ch_pipe_nread p) (s\<lparr>held := [LK_ptable],
        ptable := upd_at c (\<lambda>q. q\<lparr>chan := Some (Ch_pipe_nread p), pstate := SLEEPING\<rparr>) (ptable s)\<rparr>)
    else Ok (int (min m (length Q)), take m Q) (set_pipe p (pipe_get (min m (length Q)) (pipes s p))
      (s\<lparr>ptable := map (wake (Ch_pipe_nwrite p)) (ptable s), held := []\<rparr>)))"
  using assms pipe_empty_iff[of "pipes s p"]
  by (auto simp: piperead_loop_def piperead_copy_run wakeup_run sleep_run[where p = c] myproc_get_def with_proc_def
      Let_def min.commute)

subsection \<open>Readers and writers\<close>

text \<open>
  A writer has the bytes it still has to store, a reader the size of its buffer. A step is the run of
  one process from its call, or from the return of \<open>sleep\<close>, to its return or its next \<open>sleep\<close>; the number
  of bytes a writer has stored in the run is the advance of \<open>nwrite\<close>. \<open>other\<close> is any step of the system
  that leaves this pipe alone, and \<open>closes\<close> the closing of one end while the other is open.
\<close>

datatype pipe_call = PIdle | PWrite i32 "u8 list" | PRead i32

record pipe_sys =
  kern :: filest
  pcall :: "nat \<Rightarrow> pipe_call"
  written :: "u8 list"
  readb :: "u8 list"

definition on_cpu :: "nat \<Rightarrow> filest \<Rightarrow> filest" where
  "on_cpu c s = s\<lparr>curproc := Some c, held := []\<rparr>"

definition resumed :: "nat \<Rightarrow> filest \<Rightarrow> filest" where
  "resumed c s = s\<lparr>curproc := Some c, held := [LK_ptable], ptable := upd_at c (\<lambda>q. q\<lparr>pstate := RUNNING\<rparr>) (ptable s)\<rparr>"

fun left_state :: "('a, 's) outcome \<Rightarrow> 's option" where
  "left_state (Ok a t) = Some t"
| "left_state (Sleep c t) = Some t"
| "left_state _ = None"

fun asleep :: "('a, 's) outcome \<Rightarrow> bool" where
  "asleep (Sleep c t) = True"
| "asleep _ = False"

fun pipe_got :: "(int \<times> u8 list, 's) outcome \<Rightarrow> u8 list" where
  "pipe_got (Ok (r, x) t) = x"
| "pipe_got _ = []"

definition stored :: "u32 \<Rightarrow> filest \<Rightarrow> filest \<Rightarrow> nat" where
  "stored p s t = unat (p_nwrite (pipes t p) - p_nwrite (pipes s p))"

definition after_write :: "u32 \<Rightarrow> nat \<Rightarrow> i32 \<Rightarrow> u8 list \<Rightarrow> bool \<Rightarrow> filest \<Rightarrow> pipe_sys \<Rightarrow> pipe_sys" where
  "after_write p c n cs slept t y = (let k = stored p (kern y) t in
     y\<lparr>kern := t, pcall := (pcall y)(c := if slept then PWrite n (drop k cs) else PIdle), written := written y @ take k cs\<rparr>)"

definition after_read :: "nat \<Rightarrow> i32 \<Rightarrow> u8 list \<Rightarrow> bool \<Rightarrow> filest \<Rightarrow> pipe_sys \<Rightarrow> pipe_sys" where
  "after_read c n got slept t y =
     y\<lparr>kern := t, pcall := (pcall y)(c := if slept then PRead n else PIdle), readb := readb y @ got\<rparr>"

inductive pipe_step :: "u32 \<Rightarrow> pipe_sys \<Rightarrow> pipe_sys \<Rightarrow> bool" for p where
  writes: "c < length (ptable (kern y)) \<Longrightarrow> pcall y c = PIdle \<Longrightarrow> nat (sint n) \<le> length addr \<Longrightarrow>
    pipewrite p addr n (on_cpu c (kern y)) = out \<Longrightarrow> left_state out = Some t \<Longrightarrow>
    pipe_step p y (after_write p c n (take (nat (sint n)) addr) (asleep out) t y)"
| write_goes_on: "c < length (ptable (kern y)) \<Longrightarrow> pcall y c = PWrite n cs \<Longrightarrow>
    kbind (sleep_resume (LK_pipe p)) (\<lambda>_. pipewrite_loop p n cs) (resumed c (kern y)) = out \<Longrightarrow> left_state out = Some t \<Longrightarrow>
    pipe_step p y (after_write p c n cs (asleep out) t y)"
| reads: "c < length (ptable (kern y)) \<Longrightarrow> pcall y c = PIdle \<Longrightarrow>
    piperead p n (on_cpu c (kern y)) = out \<Longrightarrow> left_state out = Some t \<Longrightarrow>
    pipe_step p y (after_read c n (pipe_got out) (asleep out) t y)"
| read_goes_on: "c < length (ptable (kern y)) \<Longrightarrow> pcall y c = PRead n \<Longrightarrow>
    kbind (sleep_resume (LK_pipe p)) (\<lambda>_. piperead_loop p n) (resumed c (kern y)) = out \<Longrightarrow> left_state out = Some t \<Longrightarrow>
    pipe_step p y (after_read c n (pipe_got out) (asleep out) t y)"
| closes: "pipeclose p w (on_cpu c (kern y)) = Ok () t \<Longrightarrow> p_readopen (pipes t p) \<or> p_writeopen (pipes t p) \<Longrightarrow>
    pipe_step p y (y\<lparr>kern := t\<rparr>)"
| other: "pipes t p = pipes (kern y) p \<Longrightarrow> pipe_step p y (y\<lparr>kern := t\<rparr>)"

inductive pipe_reach :: "u32 \<Rightarrow> pipe_sys \<Rightarrow> bool" for p where
  start: "pipe_ok (pipes (kern y) p) \<Longrightarrow> pipe_queue (pipes (kern y) p) = [] \<Longrightarrow> (\<And>c. pcall y c = PIdle) \<Longrightarrow>
    written y = [] \<Longrightarrow> readb y = [] \<Longrightarrow> pipe_reach p y"
| step: "pipe_reach p y \<Longrightarrow> pipe_step p y z \<Longrightarrow> pipe_reach p z"

definition stream_ok :: "u32 \<Rightarrow> pipe_sys \<Rightarrow> bool" where
  "stream_ok p y \<longleftrightarrow> pipe_ok (pipes (kern y) p) \<and> written y = readb y @ pipe_queue (pipes (kern y) p)"

lemma fold_put_nwrite: "p_nwrite (fold pipe_put cs q) = p_nwrite q + of_nat (length cs)"
  by (induction cs arbitrary: q) (simp_all add: pipe_put_def)

text \<open>Both ways a process comes to run the loops: the lock is held and the pipe is as it was.\<close>

lemma stream_write:
  assumes "stream_ok p y" "pipes s p = pipes (kern y) p" "held s = [LK_pipe p]" "curproc s = Some c" "c < length (ptable s)"
    "left_state (pipewrite_loop p n cs s) = Some t"
  shows "stream_ok p (after_write p c n cs slept t y)"
proof -
  let ?q = "pipes s p" let ?room = "PIPESIZE - length (pipe_queue ?q)"
  have ok: "pipe_ok ?q" "written y = readb y @ pipe_queue ?q" using assms(1,2) by (simp_all add: stream_ok_def)
  have t: "pipes t p = fold pipe_put (take ?room cs) ?q"
    using assms(6) pipewrite_loop_run[OF ok(1) assms(3,4,5), of n cs]
    by (auto simp: Let_def pipewrite_end_def split: if_splits)
  have l: "length (pipe_queue ?q) + length (take ?room cs) \<le> PIPESIZE"
    using ok(1) by (auto simp: pipe_ok_def length_pipe_queue)
  note put = fold_put_queue[OF ok(1) l]
  have "unat (of_nat (length (take ?room cs)) :: u32) = length (take ?room cs)"
    using l by (intro unat_of_nat_u32) (simp add: PIPESIZE_def)
  then have "stored p (kern y) t = length (take ?room cs)"
    unfolding stored_def t assms(2)[symmetric] fold_put_nwrite by simp
  then have "take (stored p (kern y) t) cs = take ?room cs" by (simp add: min_def)
  then show ?thesis
    using put t ok by (simp add: stream_ok_def after_write_def Let_def)
qed

lemma stream_read:
  assumes "stream_ok p y" "pipes s p = pipes (kern y) p" "held s = [LK_pipe p]" "curproc s = Some c" "c < length (ptable s)"
    "left_state (piperead_loop p n s) = Some t"
  shows "stream_ok p (after_read c n (pipe_got (piperead_loop p n s)) slept t y)"
proof -
  let ?q = "pipes s p"
  have ok: "pipe_ok ?q" "written y = readb y @ pipe_queue ?q" using assms(1,2) by (simp_all add: stream_ok_def)
  note run = piperead_loop_run[OF ok(1) assms(3,4,5), of n, unfolded Let_def]
  have get: "pipe_queue (pipe_get (min m (length (pipe_queue ?q))) ?q) = drop m (pipe_queue ?q)"
    "pipe_ok (pipe_get (min m (length (pipe_queue ?q))) ?q)" for m
    using pipe_get_queue[OF ok(1), of "min m (length (pipe_queue ?q))"] by (auto simp: min_def)
  show ?thesis
  proof (cases "pipe_queue ?q = [] \<and> p_writeopen ?q")
    case True
    then show ?thesis using run assms(6) ok by (auto simp: stream_ok_def after_read_def split: if_splits)
  next
    case False
    then show ?thesis using run assms(6) ok get[of "nat (sint n)"] by (auto simp: stream_ok_def after_read_def)
  qed
qed

lemma pipe_called:
  "pipewrite p addr n (on_cpu c s) = pipewrite_loop p n (take (nat (sint n)) addr) (s\<lparr>curproc := Some c, held := [LK_pipe p]\<rparr>)"
  "piperead p n (on_cpu c s) = piperead_loop p n (s\<lparr>curproc := Some c, held := [LK_pipe p]\<rparr>)"
  by (simp_all add: pipewrite_def piperead_def on_cpu_def)

lemma pipe_resumed:
  "kbind (sleep_resume lk) (\<lambda>_. m) (resumed c s) =
     m (s\<lparr>curproc := Some c, held := [lk], ptable := upd_at c (\<lambda>q. q\<lparr>pstate := RUNNING, chan := None\<rparr>) (ptable s)\<rparr>)"
  by (simp add: sleep_resume_run[where p = c] resumed_def)

lemma kbind_kreturn: "kbind m kreturn = m"
  by (rule ext) (simp add: kbind_def kreturn_def split: outcome.splits)

lemma kfree_pipes: "kfree v s = Ok () t \<Longrightarrow> pipes t = pipes s"
  by (auto simp: kfree_def kpanic_def kwhen_def lk_acquire_def lk_release_def kbind_def split: if_splits)

lemma pipeclose_run:
  assumes "pipeclose p w s = Ok () t" "held s = []"
  shows "p_data (pipes t p) = p_data (pipes s p)" "p_nread (pipes t p) = p_nread (pipes s p)" "p_nwrite (pipes t p) = p_nwrite (pipes s p)"
  using assms by (auto simp: pipeclose_def wakeup_run kbind_kreturn split: if_splits dest!: kfree_pipes)

lemma stream_pipe:
  assumes "stream_ok p y" "p_data (pipes t p) = p_data (pipes (kern y) p)" "p_nread (pipes t p) = p_nread (pipes (kern y) p)"
    "p_nwrite (pipes t p) = p_nwrite (pipes (kern y) p)"
  shows "stream_ok p (y\<lparr>kern := t\<rparr>)"
  using assms by (simp add: stream_ok_def pipe_ok_def pipe_queue_def)

lemma pipe_step_ok: "pipe_step p y z \<Longrightarrow> stream_ok p y \<Longrightarrow> stream_ok p z"
proof (induction rule: pipe_step.induct)
  case (writes c y n addr out t)
  then show ?case
    by (intro stream_write[where s = "(kern y)\<lparr>curproc := Some c, held := [LK_pipe p]\<rparr>"]) (auto simp: pipe_called)
next
  case (write_goes_on c y n cs out t)
  then show ?case unfolding pipe_resumed
    by (intro stream_write[where s = "(kern y)\<lparr>curproc := Some c, held := [LK_pipe p],
      ptable := upd_at c (\<lambda>q. q\<lparr>pstate := RUNNING, chan := None\<rparr>) (ptable (kern y))\<rparr>"]) auto
next
  case (reads c y n out t)
  then show ?case unfolding pipe_called
    using stream_read[where s = "(kern y)\<lparr>curproc := Some c, held := [LK_pipe p]\<rparr>"] by auto
next
  case (read_goes_on c y n out t)
  let ?s = "(kern y)\<lparr>curproc := Some c, held := [LK_pipe p], ptable := upd_at c (\<lambda>q. q\<lparr>pstate := RUNNING, chan := None\<rparr>) (ptable (kern y))\<rparr>"
  show ?case using read_goes_on stream_read[where s = ?s and c = c] unfolding pipe_resumed by auto
next
  case (closes w c y t)
  then show ?case using pipeclose_run[of p w "on_cpu c (kern y)" t] by (intro stream_pipe) (auto simp: on_cpu_def)
next
  case (other t y)
  then show ?case by (intro stream_pipe) auto
qed

lemma pipe_reach_ok: "pipe_reach p y \<Longrightarrow> stream_ok p y"
proof (induction rule: pipe_reach.induct)
  case (start y)
  then show ?case by (simp add: stream_ok_def)
qed (rule pipe_step_ok)

text \<open>A system with two running processes and an empty pipe whose counters are about to wrap.\<close>

definition demo_files :: filest where
  "demo_files = fsst.extend
     (logst.extend (demo_log\<lparr>ptable := replicate 2 (proc0\<lparr>pstate := RUNNING\<rparr>)\<rparr>)
       (fsst.fields (superblock_of (replicate BSIZE 0)) []))
     (filest.fields (\<lambda>_. \<lparr>p_data = replicate PIPESIZE 0, p_nread = - 1, p_nwrite = - 1, p_readopen = True, p_writeopen = True\<rparr>) [])"

lemma demo_files_fields:
  "pipes demo_files a = \<lparr>p_data = replicate PIPESIZE 0, p_nread = - 1, p_nwrite = - 1, p_readopen = True, p_writeopen = True\<rparr>"
  "ptable demo_files = replicate 2 (proc0\<lparr>pstate := RUNNING\<rparr>)" "held demo_files = []"
  by (simp_all add: demo_files_def logst.extend_def fsst.extend_def fsst.fields_def filest.fields_def demo_log_fields)

lemma demo_pipe: "pipe_ok (pipes demo_files a)" "pipe_queue (pipes demo_files a) = []"
  by (simp_all add: demo_files_fields pipe_ok_def pipe_queue_def)

definition demo_pipes :: pipe_sys where
  "demo_pipes = \<lparr>kern = demo_files, pcall = (\<lambda>_. PIdle), written = [], readb = []\<rparr>"

text \<open>
  C28. A pipe is a stream: over every interleaving of calls of \<open>pipewrite\<close> and \<open>piperead\<close> that sleep and
  are resumed, of closing an end and of anything else the system does, the bytes stored by writers
  are the bytes returned to readers followed by those in the ring, in order, whatever the counters
  do when they wrap; and the ring never holds more than \<open>PIPESIZE\<close>.
\<close>

theorem pipe_stream:
  assumes "pipe_reach p y"
  shows "written y = readb y @ pipe_queue (pipes (kern y) p) \<and> length (pipe_queue (pipes (kern y) p)) \<le> PIPESIZE"
  using pipe_reach_ok[OF assms] by (simp add: stream_ok_def pipe_ok_def length_pipe_queue)

theorem pipe_stream_witness:
  "\<exists>y. pipe_reach 0 y \<and> written y = [7, 8, 9] \<and> written y = readb y @ pipe_queue (pipes (kern y) 0)"
proof -
  have r: "pipe_reach 0 demo_pipes" by (rule pipe_reach.start) (simp_all add: demo_pipes_def demo_pipe)
  let ?s = "demo_files\<lparr>curproc := Some 0, held := [LK_pipe 0]\<rparr>"
  have q: "pipe_ok (pipes ?s 0)" "held ?s = [LK_pipe 0]" "curproc ?s = Some 0" "0 < length (ptable ?s)" "pipe_queue (pipes ?s 0) = []"
    using demo_pipe by (simp_all add: demo_files_fields)
  have "pipewrite 0 [7, 8, 9] 3 (on_cpu 0 demo_files) = pipewrite_end 0 3 True 0 (set_pipe 0 (fold pipe_put [7, 8, 9] (pipes ?s 0)) ?s)"
    unfolding pipe_called pipewrite_loop_run[OF q(1,2,3,4)] Let_def q(5) by (simp add: PIPESIZE_def)
  then obtain t where t: "pipewrite 0 [7, 8, 9] 3 (on_cpu 0 demo_files) = Ok 3 t" "pipes t 0 = fold pipe_put [7, 8, 9] (pipes ?s 0)"
    by (simp add: pipewrite_end_def)
  have st: "stored 0 demo_files t = 3"
    unfolding stored_def t(2) fold_put_nwrite by (simp add: demo_files_fields)
  have "pipe_step 0 demo_pipes (after_write 0 0 3 (take (nat (sint (3 :: i32))) [7, 8, 9]) (asleep (Ok 3 t :: (int, filest) outcome)) t demo_pipes)"
    by (rule pipe_step.writes[where addr = "[7, 8, 9]"]) (simp_all add: demo_pipes_def demo_files_fields t(1))
  then have "pipe_reach 0 (after_write 0 0 3 [7, 8, 9] False t demo_pipes)" (is "pipe_reach 0 ?y")
    using pipe_reach.step[OF r] by simp
  moreover have "written ?y = [7, 8, 9]" using st by (simp add: after_write_def demo_pipes_def)
  ultimately show ?thesis using pipe_stream[of 0 ?y] by blast
qed

text \<open>
  C29. A killed writer loses a wake-up. When it fills the ring and finds itself killed, \<open>pipewrite\<close> returns
  \<open>-1\<close> without the \<open>wakeup\<close> of its other exits: a reader that slept on the empty pipe stays asleep
  although the ring is full of data.
\<close>

theorem pipe_lost_wakeup:
  assumes "pipe_ok (pipes s p)" "pipe_queue (pipes s p) = []" "held s = []" "curproc s = Some c"
    "c < length (ptable s)" "killed (ptable s ! c)" "pstate (ptable s ! r) = SLEEPING" "chan (ptable s ! r) = Some (Ch_pipe_nread p)"
    "PIPESIZE < nat (sint n)" "nat (sint n) \<le> length addr"
  shows "\<exists>t. pipewrite p addr n s = Ok (- 1) t \<and> pipe_queue (pipes t p) = take PIPESIZE addr \<and>
    length (pipe_queue (pipes t p)) = PIPESIZE \<and> pstate (ptable t ! r) = SLEEPING \<and> chan (ptable t ! r) = Some (Ch_pipe_nread p)"
proof -
  let ?s = "s\<lparr>held := [LK_pipe p]\<rparr>" let ?cs = "take (nat (sint n)) addr"
  have "pipewrite p addr n s = pipewrite_loop p n ?cs ?s" using assms(3) by (simp add: pipewrite_def)
  also have "\<dots> = pipewrite_end p n False c (set_pipe p (fold pipe_put (take PIPESIZE ?cs) (pipes s p)) ?s)"
    using pipewrite_loop_run[of ?s p c n ?cs] assms by (simp add: Let_def)
  also have "\<dots> = Ok (- 1) ((set_pipe p (fold pipe_put (take PIPESIZE ?cs) (pipes s p)) s)\<lparr>held := []\<rparr>)"
    using assms(6) by (simp add: pipewrite_end_def)
  finally show ?thesis
    using fold_put_queue(1)[OF assms(1), of "take PIPESIZE ?cs"] assms by (simp add: min_def)
qed

theorem pipe_lost_wakeup_witness:
  "\<exists>(s :: filest) (t :: filest). pipewrite 0 (replicate 600 5) 600 s = Ok (- 1) t \<and> length (pipe_queue (pipes t 0)) = PIPESIZE \<and> pstate (ptable t ! 1) = SLEEPING"
proof -
  let ?s = "demo_files\<lparr>curproc := Some 0, ptable := [proc0\<lparr>killed := True, pstate := RUNNING\<rparr>,
    proc0\<lparr>pstate := SLEEPING, chan := Some (Ch_pipe_nread 0)\<rparr>]\<rparr>"
  have "pipe_ok (pipes ?s 0)" "pipe_queue (pipes ?s 0) = []" "held ?s = []" using demo_pipe by (simp_all add: demo_files_fields)
  from pipe_lost_wakeup[OF this, of 0 1 600 "replicate 600 5"] obtain t where
    "pipewrite 0 (replicate 600 5) 600 ?s = Ok (- 1) t" "length (pipe_queue (pipes t 0)) = PIPESIZE" "pstate (ptable t ! 1) = SLEEPING"
    by (auto simp: PIPESIZE_def)
  then show ?thesis by (intro exI conjI)
qed

end
