(* ===== verification/Usermem.thy ===== *)
theory Usermem
  imports File
begin

text \<open>
  The kernel's access to user memory and the fetching of system call arguments (the first half of
  \<^verbatim>\<open>src/syscall.c\<close>). The kernel follows user pointers directly, through the page table in \<^verbatim>\<open>%cr3\<close>:
  \<open>uva\<close> is the translation the processor performs. A missing translation is a page fault in the
  kernel, which \<^verbatim>\<open>trap\<close> turns into \<^verbatim>\<open>panic("trap")\<close>; \<^verbatim>\<open>CR0_WP\<close> is set, so a write needs \<^verbatim>\<open>PTE_W\<close>.
\<close>

subsection \<open>Translation\<close>

definition uva :: "mem \<Rightarrow> u32 \<Rightarrow> bool \<Rightarrow> u32 \<Rightarrow> u32 option" where
  "uva m pd wr va =
     (let pde = load32 m (pd + 4 * PDX va)
      in if pde AND PTE_P = 0 then None
         else let pte = load32 m (P2V (PTE_ADDR pde) + 4 * PTX va)
           in if pte AND PTE_P = 0 \<or> wr \<and> (pte AND PTE_W = 0 \<or> pde AND PTE_W = 0) then None
              else Some (P2V (PTE_ADDR pte) + (va AND 0xFFF)))"

definition uget8 :: "u32 \<Rightarrow> ('z vm_scheme, u8) kprog" where
  "uget8 va = kbind (kgets id) (\<lambda>s.
     case uva (kmemory s) (P2V (cr3 s)) False va of
       None \<Rightarrow> kpanic ''trap''
     | Some a \<Rightarrow> kreturn (kmemory s a))"

definition uput8 :: "u32 \<Rightarrow> u8 \<Rightarrow> ('z vm_scheme, unit) kprog" where
  "uput8 va c = kbind (kgets id) (\<lambda>s.
     case uva (kmemory s) (P2V (cr3 s)) True va of
       None \<Rightarrow> kpanic ''trap''
     | Some a \<Rightarrow> kmodify (\<lambda>s. s\<lparr>kmemory := (kmemory s)(a := c)\<rparr>))"

fun uget :: "u32 \<Rightarrow> nat \<Rightarrow> ('z vm_scheme, u8 list) kprog" where
  "uget va 0 = kreturn []"
| "uget va (Suc n) = kbind (uget8 va) (\<lambda>c. kbind (uget (va + 1) n) (\<lambda>cs. kreturn (c # cs)))"

fun uput :: "u32 \<Rightarrow> u8 list \<Rightarrow> ('z vm_scheme, unit) kprog" where
  "uput va [] = kreturn ()"
| "uput va (c # cs) = kbind (uput8 va c) (\<lambda>_. uput (va + 1) cs)"

subsection \<open>System call arguments\<close>

text \<open>Offsets in \<^verbatim>\<open>struct trapframe\<close>, whose size is 76.\<close>

definition TF_eax :: u32 where "TF_eax = 28"
definition TF_es :: u32 where "TF_es = 40"
definition TF_ds :: u32 where "TF_ds = 44"
definition TF_trapno :: u32 where "TF_trapno = 48"
definition TF_eip :: u32 where "TF_eip = 56"
definition TF_cs :: u32 where "TF_cs = 60"
definition TF_eflags :: u32 where "TF_eflags = 64"
definition TF_esp :: u32 where "TF_esp = 68"
definition TF_ss :: u32 where "TF_ss = 72"

definition fetchint :: "u32 \<Rightarrow> ('z ptab_scheme, i32 option) kprog" where
  "fetchint addr =
     kbind (myproc_get sz) (\<lambda>psz.
     if addr \<ge> psz \<or> addr + 4 > psz then kreturn None
     else kbind (uget addr 4) (\<lambda>x. kreturn (Some (get32 0 x))))"

text \<open>\<open>fetchstr\<close> returns the string; \<open>None\<close> when it is not terminated below \<^verbatim>\<open>sz\<close>. The scan is bounded by the distance to \<^verbatim>\<open>sz\<close>.\<close>

fun fetchstr_loop :: "nat \<Rightarrow> u32 \<Rightarrow> ('z vm_scheme, u8 list option) kprog" where
  "fetchstr_loop 0 s = kreturn None"
| "fetchstr_loop (Suc left) s =
     kbind (uget8 s) (\<lambda>c.
     if c = 0 then kreturn (Some [])
     else kbind (fetchstr_loop left (s + 1)) (\<lambda>r. kreturn (map_option (\<lambda>cs. c # cs) r)))"

definition fetchstr :: "u32 \<Rightarrow> ('z ptab_scheme, u8 list option) kprog" where
  "fetchstr addr =
     kbind (myproc_get sz) (\<lambda>psz.
     if addr \<ge> psz then kreturn None
     else fetchstr_loop (unat (psz - addr)) addr)"

definition argint :: "nat \<Rightarrow> ('z ptab_scheme, i32 option) kprog" where
  "argint n =
     kbind (myproc_get tf) (\<lambda>t.
     kbind (mget (t + TF_esp)) (\<lambda>esp.
     fetchint (esp + 4 + 4 * of_nat n)))"

definition argptr :: "nat \<Rightarrow> i32 \<Rightarrow> ('z ptab_scheme, u32 option) kprog" where
  "argptr n nby =
     kbind (argint n) (\<lambda>r. case r of None \<Rightarrow> kreturn None | Some i \<Rightarrow>
     kbind (myproc_get sz) (\<lambda>psz.
     if sint nby < 0 \<or> i \<ge> psz \<or> i + nby > psz then kreturn None
     else kreturn (Some i)))"

definition argstr :: "nat \<Rightarrow> ('z ptab_scheme, u8 list option) kprog" where
  "argstr n = kbind (argint n) (\<lambda>r. case r of None \<Rightarrow> kreturn None | Some addr \<Rightarrow> fetchstr addr)"

end
