(* ===== verification/Args.thy ===== *)
theory Args
  imports Usermem
begin

text \<open>
  The checks that \<^verbatim>\<open>src/syscall.c\<close> makes on system call arguments keep the kernel inside the user
  part of the address space.
\<close>

lemma uget_keeps: "uget a n s = Ok x t \<Longrightarrow> t = s"
  by (induction n arbitrary: a s x t) (auto simp: kbind_def uget8_def split: outcome.splits option.splits)

lemma fetchint_keeps: "fetchint a s = Ok r t \<Longrightarrow> t = s"
  by (auto simp: fetchint_def myproc_get_def with_proc_def kbind_def split: outcome.splits option.splits if_splits dest: uget_keeps)

lemma argint_keeps: "argint k s = Ok r t \<Longrightarrow> t = s"
  by (auto simp: argint_def myproc_get_def with_proc_def mget_def kbind_def split: outcome.splits option.splits dest: fetchint_keeps)

lemma fetchstr_loop_length:
  "fetchstr_loop n a s = Ok (Some x) t \<Longrightarrow> length x < n \<and> 0 \<notin> set x"
proof (induction n arbitrary: a s x t)
  case (Suc n)
  then show ?case
    by (auto simp: kbind_def split: outcome.splits if_splits)
qed simp

lemma range_below:
  assumes "a < (z :: u32)" "z \<le> KERNBASE" "a + n \<le> z" "0 \<le> sint n"
  shows "unat a + nat (sint n) \<le> unat z"
proof -
  have n: "nat (sint n) = unat n" "unat n < 2147483648" using assms(4) sint_unat[of n] unat_of_sint[of n] by simp_all
  have "unat a < 2147483648" using assms(1,2) by (simp add: word_less_nat_alt word_le_nat_alt KERNBASE_def)
  then have "unat (a + n) = unat a + unat n" using n(2) by (simp add: unat_word_ariths)
  then show ?thesis using n(1) assms(3) by (simp add: word_le_nat_alt)
qed

text \<open>
  C30. Whatever a system call passes: an integer that \<open>fetchint\<close> accepts, a block that \<open>argptr\<close> accepts and
  a string that \<open>fetchstr\<close> accepts lie, with all their bytes, below the size of the process and so
  below \<open>KERNBASE\<close>; none of these ranges wraps around. A string comes without a NUL inside.
\<close>

theorem user_args_in_bounds:
  assumes "curproc s = Some p" "sz (ptable s ! p) \<le> KERNBASE"
  shows "(fetchint a s = Ok (Some v) t \<longrightarrow> unat a + 4 \<le> unat (sz (ptable s ! p))) \<and>
    (argptr k n s = Ok (Some b) t \<longrightarrow> 0 \<le> sint n \<and> b < sz (ptable s ! p) \<and> unat b + nat (sint n) \<le> unat (sz (ptable s ! p))) \<and>
    (fetchstr a s = Ok (Some x) t \<longrightarrow> unat a + length x < unat (sz (ptable s ! p)) \<and> 0 \<notin> set x)"
proof (intro conjI impI)
  let ?z = "sz (ptable s ! p)"
  assume "fetchint a s = Ok (Some v) t"
  then have "a < ?z" "a + 4 \<le> ?z" using assms(1) by (auto simp: fetchint_def myproc_get_def with_proc_def split: if_splits)
  then show "unat a + 4 \<le> unat ?z" using range_below[of a ?z 4] assms(2) by simp
next
  let ?z = "sz (ptable s ! p)"
  assume "fetchstr a s = Ok (Some x) t"
  then have a: "a < ?z" and l: "fetchstr_loop (unat (?z - a)) a s = Ok (Some x) t"
    using assms(1) by (auto simp: fetchstr_def myproc_get_def with_proc_def split: if_splits)
  have "unat (?z - a) = unat ?z - unat a" using a by (intro unat_sub) simp
  then show "unat a + length x < unat ?z" "0 \<notin> set x" using fetchstr_loop_length[OF l] by auto
next
  let ?z = "sz (ptable s ! p)"
  assume r: "argptr k n s = Ok (Some b) t"
  then obtain i u where i: "argint k s = Ok (Some i) u" by (auto simp: argptr_def kbind_def split: outcome.splits option.splits)
  moreover have "u = s" by (rule argint_keeps[OF i])
  ultimately have b: "0 \<le> sint n" "b < ?z" "b + n \<le> ?z"
    using r assms(1) by (auto simp: argptr_def myproc_get_def with_proc_def split: if_splits)
  then show "0 \<le> sint n" "b < ?z" "unat b + nat (sint n) \<le> unat ?z" using range_below[of b ?z n] assms(2) by simp_all
qed

text \<open>
  A process with one page: its page directory at physical \<open>0x1000\<close>, page table at \<open>0x2000\<close>, page at
  \<open>0x3000\<close>; its argument 0 is the address 16, where the string \<open>hi\<close> is.
\<close>

definition demo_user_mem :: mem where
  "demo_user_mem a = (if a = 0x80001000 then 7 else if a = 0x80001001 then 0x20 else
     if a = 0x80002000 then 7 else if a = 0x80002001 then 0x30 else
     if a = 0x80003004 then 16 else if a = 0x80003010 then 104 else if a = 0x80003011 then 105 else 0)"

definition demo_user :: ptab where
  "demo_user = demo_ptab\<lparr>kmemory := demo_user_mem, cr3 := 0x1000, curproc := Some 0,
     ptable := [proc0\<lparr>sz := 0x1000, tf := 0x80004000\<rparr>]\<rparr>"

lemma demo_user_fields: "kmemory demo_user = demo_user_mem" "cr3 demo_user = 0x1000" "curproc demo_user = Some 0"
  "ptable demo_user ! 0 = proc0\<lparr>sz := 0x1000, tf := 0x80004000\<rparr>"
  by (simp_all add: demo_user_def)

lemma demo_uva:
  "list_all (\<lambda>va. uva demo_user_mem 0x80001000 False va = Some (0x80003000 + va)) [4, 5, 6, 7, 16, 17, 18]"
  by code_simp

lemma demo_uget8: "va \<in> set [4, 5, 6, 7, 16, 17, 18] \<Longrightarrow> uget8 va demo_user = Ok (demo_user_mem (0x80003000 + va)) demo_user"
  using demo_uva by (auto simp: uget8_def demo_user_fields P2V_def KERNBASE_def)

lemma demo_fetch:
  "fetchint 4 demo_user = Ok (Some 16) demo_user" "fetchstr 16 demo_user = Ok (Some [104, 105]) demo_user"
  "argptr 0 8 demo_user = Ok (Some 16) demo_user"
proof -
  have "uget 4 (Suc (Suc (Suc (Suc 0)))) demo_user = Ok [16, 0, 0, 0] demo_user"
    using demo_uget8 by (simp add: demo_user_mem_def)
  then have "uget 4 4 demo_user = Ok [16, 0, 0, 0] demo_user" by (simp only: numeral_eq_Suc pred_numeral_simps BitM.simps)
  then show i: "fetchint 4 demo_user = Ok (Some 16) demo_user"
    by (simp add: fetchint_def myproc_get_def with_proc_def demo_user_fields get32_def)
  have "load32 demo_user_mem (0x80004000 + TF_esp) = 0" by code_simp
  then have "argint 0 demo_user = Ok (Some 16) demo_user"
    using i by (simp add: argint_def myproc_get_def with_proc_def demo_user_fields mget_def)
  then show "argptr 0 8 demo_user = Ok (Some 16) demo_user"
    by (simp add: argptr_def myproc_get_def with_proc_def demo_user_fields)
  have fs: "fetchstr_loop (Suc (Suc (Suc n))) 16 demo_user = Ok (Some [104, 105]) demo_user" for n
    using demo_uget8 by (simp add: demo_user_mem_def)
  from fs[where n = 4077] have "fetchstr_loop 0xFF0 16 demo_user = Ok (Some [104, 105]) demo_user" by (simp del: fetchstr_loop.simps)
  then show "fetchstr 16 demo_user = Ok (Some [104, 105]) demo_user"
    by (simp add: fetchstr_def myproc_get_def with_proc_def demo_user_fields)
qed

theorem user_args_in_bounds_witness:
  "unat (4 :: u32) + 4 \<le> unat (sz (ptable demo_user ! 0)) \<and> unat (16 :: u32) + nat (sint (8 :: i32)) \<le> unat (sz (ptable demo_user ! 0)) \<and>
    unat (16 :: u32) + length [104, 105 :: u8] < unat (sz (ptable demo_user ! 0))"
proof -
  have h: "curproc demo_user = Some 0" "sz (ptable demo_user ! 0) \<le> KERNBASE"
    by (simp_all add: demo_user_fields KERNBASE_def)
  show ?thesis
    using user_args_in_bounds[OF h, where a = 4] user_args_in_bounds[OF h, where k = 0] user_args_in_bounds[OF h, where a = 16]
      demo_fetch by blast
qed

end
