(* ===== verification/Lifecycle.thy ===== *)
theory Lifecycle
  imports Usermem
begin

text \<open>
  The life of a process, the rest of \<^verbatim>\<open>src/proc.c\<close>: \<open>userinit\<close>, \<open>fork\<close>, \<open>exit\<close>, \<open>wait\<close> and \<open>forkret\<close>. These
  call the file system, so they come after it. \<open>exit\<close> ends in the outcome \<open>Sleep\<close>, the outcome of
  operations that switch away; its process is a zombie by then and nothing resumes it.
\<close>

text \<open>\<open>first\<close> is the static variable of \<open>forkret\<close>.\<close>

record kst = filest +
  first :: bool

text \<open>\<open>safestrcpy\<close> into an array, on byte lists.\<close>

definition safestrcpy_list :: "u8 list \<Rightarrow> u8 list \<Rightarrow> u8 list" where
  "safestrcpy_list old s = put_at 0 (take (length old - 1) (cstr s) @ [0]) old"

definition initcode_name :: "u8 list" where
  "initcode_name = map (of_nat \<circ> of_char) ''initcode''"

text \<open>The initial program is linked into the kernel at \<open>start\<close> with length \<open>len\<close> (linker symbols).\<close>

definition userinit :: "u32 \<Rightarrow> u32 \<Rightarrow> ('z filest_scheme, unit) kprog" where
  "userinit start len =
     kbind allocproc (\<lambda>po.
     kbind (kmodify (\<lambda>s. s\<lparr>initproc := po\<rparr>)) (\<lambda>_.
     case po of None \<Rightarrow> kpanic ''trap'' | Some p \<Rightarrow>
     kbind setupkvm (\<lambda>pd.
     kbind (upd_proc p (\<lambda>q. q\<lparr>pgdir := pd\<rparr>)) (\<lambda>_.
     if pd = 0 then kpanic ''userinit: out of memory?''
     else kbind (inituvm pd start len) (\<lambda>_.
       kbind (upd_proc p (\<lambda>q. q\<lparr>sz := PGSIZE\<rparr>)) (\<lambda>_.
       kbind (kgets (\<lambda>s. tf (ptable s ! p))) (\<lambda>t.
       kbind (kseq [
         mfill t 0 76,
         mwrite (t + TF_cs) (le16 (push_bit 3 (of_nat SEG_UCODE) OR ucast DPL_USER)),
         mwrite (t + TF_ds) (le16 (push_bit 3 (of_nat SEG_UDATA) OR ucast DPL_USER)),
         mwrite (t + TF_es) (le16 (push_bit 3 (of_nat SEG_UDATA) OR ucast DPL_USER)),
         mwrite (t + TF_ss) (le16 (push_bit 3 (of_nat SEG_UDATA) OR ucast DPL_USER)),
         mput (t + TF_eflags) FL_IF,
         mput (t + TF_esp) PGSIZE,
         mput (t + TF_eip) 0,
         upd_proc p (\<lambda>q. q\<lparr>pname := safestrcpy_list (pname q) initcode_name\<rparr>)]) (\<lambda>_.
       kbind (namei [slash]) (\<lambda>ip. kseq [
         upd_proc p (\<lambda>q. q\<lparr>cwd := ip\<rparr>),
         lk_acquire LK_ptable,
         upd_proc p (\<lambda>q. q\<lparr>pstate := RUNNABLE\<rparr>),
         lk_release LK_ptable])))))))))"

definition fork :: "('z filest_scheme, int) kprog" where
  "fork = with_proc (\<lambda>cp.
     kbind allocproc (\<lambda>npo. case npo of None \<Rightarrow> kreturn (- 1) | Some np \<Rightarrow>
     kbind (kgets (\<lambda>s. ptable s ! cp)) (\<lambda>c.
     kbind (copyuvm (pgdir c) (sz c)) (\<lambda>pd.
     kbind (upd_proc np (\<lambda>q. q\<lparr>pgdir := pd\<rparr>)) (\<lambda>_.
     kbind (kgets (\<lambda>s. ptable s ! np)) (\<lambda>n.
     if pd = 0
     then kbind (kseq [
         kfree (kstack n),
         upd_proc np (\<lambda>q. q\<lparr>kstack := 0\<rparr>),
         upd_proc np (\<lambda>q. q\<lparr>pstate := UNUSED\<rparr>)]) (\<lambda>_. kreturn (- 1))
     else kbind (kseq [
         upd_proc np (\<lambda>q. q\<lparr>sz := sz c\<rparr>),
         upd_proc np (\<lambda>q. q\<lparr>parent := Some cp\<rparr>),
         mcopy (tf n) (tf c) 76,
         mput (tf n + TF_eax) 0,
         kfor [0..<NOFILE] (\<lambda>i.
           case ofile c ! i of
             None \<Rightarrow> kreturn ()
           | Some f \<Rightarrow> kbind (filedup f) (\<lambda>f. upd_proc np (\<lambda>q. q\<lparr>ofile := (ofile q)[i := Some f]\<rparr>))),
         kbind (case cwd c of None \<Rightarrow> kpanic ''trap'' | Some ip \<Rightarrow> idup ip) (\<lambda>ip.
           upd_proc np (\<lambda>q. q\<lparr>cwd := Some ip\<rparr>)),
         upd_proc np (\<lambda>q. q\<lparr>pname := safestrcpy_list (pname q) (pname c)\<rparr>)]) (\<lambda>_.
       kbind (kgets (\<lambda>s. pid (ptable s ! np))) (\<lambda>pd.
       kbind (kseq [
         lk_acquire LK_ptable,
         upd_proc np (\<lambda>q. q\<lparr>pstate := RUNNABLE\<rparr>),
         lk_release LK_ptable]) (\<lambda>_.
       kreturn (sint pd))))))))))"

text \<open>Passing the children of a process to \<open>initproc\<close>, with the wake-ups that asks for.\<close>

definition reparent :: "nat \<Rightarrow> ('z ptab_scheme, unit) kprog" where
  "reparent cp = kfor [0..<NPROC] (\<lambda>p.
     kbind (kgets id) (\<lambda>s.
     kwhen (parent (ptable s ! p) = Some cp) (kseq [
       upd_proc p (\<lambda>q. q\<lparr>parent := initproc s\<rparr>),
       kwhen (pstate (ptable s ! p) = ZOMBIE)
         (case initproc s of None \<Rightarrow> kreturn () | Some i \<Rightarrow> wakeup1 (Ch_proc i))])))"

text \<open>The end of \<open>exit\<close>, under the lock of the table.\<close>

definition exit_tail :: "nat \<Rightarrow> ('z ptab_scheme, 'a) kprog" where
  "exit_tail cp = kbind (kseq [
     lk_acquire LK_ptable,
     kbind (kgets (\<lambda>s. parent (ptable s ! cp))) (\<lambda>par.
       case par of None \<Rightarrow> kreturn () | Some q \<Rightarrow> wakeup1 (Ch_proc q)),
     reparent cp,
     upd_proc cp (\<lambda>q. q\<lparr>pstate := ZOMBIE\<rparr>),
     sched]) (\<lambda>_ s. Sleep (Ch_proc cp) s)"

definition exit :: "('z filest_scheme, 'a) kprog" where
  "exit = with_proc (\<lambda>cp.
     kbind (kgets initproc) (\<lambda>ini.
     if ini = Some cp then kpanic ''init exiting''
     else kbind (kseq [
         kfor [0..<NOFILE] (\<lambda>fd.
           kbind (kgets (\<lambda>s. ofile (ptable s ! cp) ! fd)) (\<lambda>fo. case fo of None \<Rightarrow> kreturn () | Some f \<Rightarrow> kseq [
             fileclose f,
             upd_proc cp (\<lambda>q. q\<lparr>ofile := (ofile q)[fd := None]\<rparr>)])),
         begin_op,
         kbind (kgets (\<lambda>s. cwd (ptable s ! cp))) (\<lambda>c. case c of None \<Rightarrow> kpanic ''trap'' | Some ip \<Rightarrow> iput ip),
         end_op,
         upd_proc cp (\<lambda>q. q\<lparr>cwd := None\<rparr>)]) (\<lambda>_. exit_tail cp)))"

text \<open>\<open>wait_loop\<close> is one pass over the table, where a woken parent continues.\<close>

definition wait_loop :: "nat \<Rightarrow> ('z ptab_scheme, int) kprog" where
  "wait_loop cp =
     kbind (kgets ptable) (\<lambda>pt.
       case find_index (\<lambda>p. parent p = Some cp \<and> pstate p = ZOMBIE) pt of
         Some p \<Rightarrow>
           kbind (kseq [
             kfree (kstack (pt ! p)),
             upd_proc p (\<lambda>q. q\<lparr>kstack := 0\<rparr>),
             freevm (pgdir (pt ! p)),
             upd_proc p (\<lambda>q. q\<lparr>pid := 0\<rparr>),
             upd_proc p (\<lambda>q. q\<lparr>parent := None\<rparr>),
             upd_proc p (\<lambda>q. q\<lparr>pname := (pname q)[0 := 0]\<rparr>),
             upd_proc p (\<lambda>q. q\<lparr>killed := False\<rparr>),
             upd_proc p (\<lambda>q. q\<lparr>pstate := UNUSED\<rparr>),
             lk_release LK_ptable]) (\<lambda>_. kreturn (sint (pid (pt ! p))))
       | None \<Rightarrow>
           if (\<forall>p\<in>set pt. parent p \<noteq> Some cp) \<or> killed (pt ! cp)
           then kbind (lk_release LK_ptable) (\<lambda>_. kreturn (- 1))
           else sleep (Ch_proc cp) LK_ptable)"

definition wait :: "('z ptab_scheme, int) kprog" where
  "wait = with_proc (\<lambda>cp. kbind (lk_acquire LK_ptable) (\<lambda>_. wait_loop cp))"

definition forkret :: "('z kst_scheme, unit) kprog" where
  "forkret = kseq [
     lk_release LK_ptable,
     kbind (kgets first) (\<lambda>f. kwhen f (kseq [
       kmodify (\<lambda>s. s\<lparr>first := False\<rparr>),
       iinit ROOTDEV,
       initlog ROOTDEV]))]"

end
