(* ===== verification/Reaping.thy ===== *)
theory Reaping
  imports Lifecycle Pipes
begin

text \<open>
  Parents and children: \<open>exit\<close> and \<open>wait\<close> of \<^verbatim>\<open>src/proc.c\<close>. A parent asleep in \<open>wait\<close> has no zombie child, so
  no exit is missed, over every interleaving of exits, waits and other steps of the system.
\<close>

subsection \<open>Freeing memory leaves the rest of the state alone\<close>

lemma kfree_frame: "kfree v s = Ok r t \<Longrightarrow> kmem.more t = kmem.more s \<and> held t = held s"
  by (auto simp: kfree_def kpanic_def kwhen_def lk_acquire_def lk_release_def kbind_def split: if_splits)

lemma deallocuvm_loop_frame: "deallocuvm_loop n pd a z s = Ok r t \<Longrightarrow> kmem.more t = kmem.more s \<and> held t = held s"
proof (induction n arbitrary: a s)
  case (Suc n)
  then show ?case
    by (fastforce simp: walkpgdir_def mget_def mput_def kbind_def Let_def dest: kfree_frame split: if_splits outcome.splits)
qed (simp add: kdiverge_def)

lemma kfor_frame:
  assumes "\<And>x s t. f x s = Ok () t \<Longrightarrow> R (s :: 's) = (R t :: 'b)" "kfor xs f s = Ok () t"
  shows "R t = R s"
  using assms(2) by (induction xs arbitrary: s) (auto simp: kbind_def assms(1) split: outcome.splits)

lemma kbindE:
  assumes "kbind m f s = Ok r t"
  obtains a u where "m s = Ok a u" "f a u = Ok r t"
  using assms by (auto simp: kbind_def split: outcome.splits)

text \<open>Nor does it sleep.\<close>

definition awake :: "('s, 'a) kprog \<Rightarrow> bool" where
  "awake m \<longleftrightarrow> (\<forall>s c t. m s \<noteq> Sleep c t)"

lemma awakeD: "awake m \<Longrightarrow> m s \<noteq> Sleep c t"
  by (simp add: awake_def)

lemma awake_basic:
  "awake (kreturn a)" "awake (kgets h)" "awake (kmodify u)" "awake (kpanic e)"
  "awake m \<Longrightarrow> (\<And>a. awake (f a)) \<Longrightarrow> awake (kbind m f)"
  "awake p \<Longrightarrow> awake (kwhen b p)"
  "(b \<Longrightarrow> awake m) \<Longrightarrow> (\<not> b \<Longrightarrow> awake n) \<Longrightarrow> awake (if b then m else n)"
  by (auto simp: awake_def kbind_def kwhen_def split: outcome.splits)

lemma awake_kfor: "(\<And>x. awake (f x)) \<Longrightarrow> awake (kfor xs f)"
  by (induction xs) (auto intro: awake_basic)

lemma awake_kseq: "list_all awake ms \<Longrightarrow> awake (kseq ms)"
  by (induction ms) (auto intro: awake_basic)

lemma awake_kernel: "awake (kfree v)" "awake (lk_release l)" "awake (upd_proc p g)" "awake (mget a)" "awake (mput a w)"
  by (auto simp: awake_def kfree_def kpanic_def kwhen_def lk_acquire_def lk_release_def kbind_def upd_proc_def mget_def mput_def split: if_splits)

lemmas awake_intros = awake_basic awake_kfor awake_kseq awake_kernel

lemma awake_deallocuvm_loop: "awake (deallocuvm_loop n pd a z)"
proof (induction n arbitrary: a)
  case (Suc n)
  have "awake (walkpgdir pd a False)" by (auto simp: walkpgdir_def mget_def awake_def)
  then show ?case using Suc unfolding deallocuvm_loop.simps Let_def by (intro awake_intros)
qed (simp add: awake_def kdiverge_def)

lemma awake_freevm: "awake (freevm pd)"
  unfolding freevm_def deallocuvm_def by (intro awake_intros awake_deallocuvm_loop)

lemma freevm_frame:
  assumes "freevm pd s = Ok () t"
  shows "kmem.more t = kmem.more s \<and> held t = held s"
proof -
  let ?R = "\<lambda>s. (kmem.more s, held s)"
  let ?f = "\<lambda>i. kbind (mget (pd + 4 * of_nat i)) (\<lambda>e. kwhen (e AND PTE_P \<noteq> 0) (kfree (P2V (PTE_ADDR e))))"
  have f: "?R x = ?R y" if "?f i x = Ok () y" for i x y
    using that by (auto simp: mget_def kwhen_def dest: kfree_frame split: if_splits)
  obtain r u v where 1: "deallocuvm pd KERNBASE 0 s = Ok r u" and 2: "kfor [0..<NPDENTRIES] ?f u = Ok () v" and 3: "kfree pd v = Ok () t"
    using assms by (auto simp: freevm_def elim!: kbindE split: if_splits)
  have "?R u = ?R s" using 1 by (auto simp: deallocuvm_def elim!: kbindE dest: deallocuvm_loop_frame split: if_splits)
  moreover have "?R v = ?R u" using kfor_frame[of ?f ?R, OF f 2] .
  ultimately show ?thesis using kfree_frame[OF 3] by simp
qed

subsection \<open>The family of processes\<close>

definition waits_for_child :: "proc list \<Rightarrow> nat \<Rightarrow> bool" where
  "waits_for_child pt p \<longleftrightarrow> pstate (pt ! p) = SLEEPING \<and> chan (pt ! p) = Some (Ch_proc p)"

definition zombie_of :: "proc list \<Rightarrow> nat \<Rightarrow> nat \<Rightarrow> bool" where
  "zombie_of pt q p \<longleftrightarrow> pstate (pt ! q) = ZOMBIE \<and> parent (pt ! q) = Some p"

text \<open>The first process has no parent and nobody is its own parent.\<close>

definition lineage :: "nat \<Rightarrow> proc list \<Rightarrow> bool" where
  "lineage i pt \<longleftrightarrow> length pt = NPROC \<and> i < NPROC \<and> parent (pt ! i) = None \<and> (\<forall>q<NPROC. parent (pt ! q) \<noteq> Some q)"

definition no_missed_exit :: "proc list \<Rightarrow> bool" where
  "no_missed_exit pt \<longleftrightarrow> (\<forall>p<length pt. \<forall>q<length pt. waits_for_child pt p \<longrightarrow> \<not> zombie_of pt q p)"

text \<open>What \<open>reparent\<close> has done to the table after the slots in \<open>done\<close>.\<close>

definition reparented :: "nat \<Rightarrow> nat \<Rightarrow> proc list \<Rightarrow> nat set \<Rightarrow> proc list \<Rightarrow> bool" where
  "reparented cp i pt done pt' \<longleftrightarrow> length pt' = length pt \<and> (\<forall>q<length pt.
     parent (pt' ! q) = (if q \<in> done \<and> parent (pt ! q) = Some cp then Some i else parent (pt ! q)) \<and>
     (pstate (pt' ! q) = ZOMBIE \<longleftrightarrow> pstate (pt ! q) = ZOMBIE) \<and>
     (waits_for_child pt' q \<longrightarrow> waits_for_child pt q \<and> (q = i \<longrightarrow> (\<forall>d\<in>done. \<not> zombie_of pt d cp))))"

lemma reparented_step:
  assumes "reparented cp i pt done pt'" "x < length pt" "x \<notin> done" "i < length pt"
  shows "parent (pt' ! x) \<noteq> Some cp \<Longrightarrow> reparented cp i pt (insert x done) pt'"
    and "parent (pt' ! x) = Some cp \<Longrightarrow> pstate (pt' ! x) \<noteq> ZOMBIE \<Longrightarrow>
      reparented cp i pt (insert x done) (upd_at x (\<lambda>q. q\<lparr>parent := Some i\<rparr>) pt')"
    and "parent (pt' ! x) = Some cp \<Longrightarrow>
      reparented cp i pt (insert x done) (map (wake (Ch_proc i)) (upd_at x (\<lambda>q. q\<lparr>parent := Some i\<rparr>) pt'))"
  using assms
  by (auto simp: reparented_def waits_for_child_def zombie_of_def wake_def nth_upd_at)

lemma reparent_run:
  assumes "initproc s = Some i" "length (ptable s) = NPROC" "i < NPROC"
  shows "\<exists>t. reparent cp s = Ok () t \<and> reparented cp i (ptable s) {..<NPROC} (ptable t) \<and> held t = held s \<and>
    curproc t = curproc s \<and> initproc t = initproc s"
proof -
  let ?I = "\<lambda>ds t. reparented cp i (ptable s) (set ds) (ptable t) \<and> held t = held s \<and> curproc t = curproc s \<and> initproc t = initproc s"
  have "wp (reparent cp) (\<lambda>_. ?I [0..<NPROC]) s"
    unfolding reparent_def
  proof (rule wp_kfor)
    show "?I [] s" by (simp add: reparented_def)
  next
    fix ds x todo t
    assume x: "[0..<NPROC] = ds @ x # todo" and I: "?I ds t"
    have "x \<in> set [0..<NPROC]" "distinct (ds @ x # todo)" by (simp add: x) (metis x distinct_upt)
    then have "x < length (ptable s)" "x \<notin> set ds" using assms(2) by auto
    note st = reparented_step[OF conjunct1[OF I] this, unfolded assms(2), OF assms(3)]
    show "wp (kbind (kgets id) (\<lambda>s. kwhen (parent (ptable s ! x) = Some cp) (kseq [
       upd_proc x (\<lambda>q. q\<lparr>parent := initproc s\<rparr>),
       kwhen (pstate (ptable s ! x) = ZOMBIE)
         (case initproc s of None \<Rightarrow> kreturn () | Some i \<Rightarrow> wakeup1 (Ch_proc i))]))) (\<lambda>_. ?I (ds @ [x])) t"
      using st I assms(1) by (simp add: upd_proc_def wakeup1_def)
  qed
  then show ?thesis by (auto simp: wp_Ok atLeast0LessThan)
qed

text \<open>The end of \<open>exit\<close> keeps the property: the parent is woken before its child becomes a zombie.\<close>

lemma exit_tail_ok:
  assumes "exit_tail cp s = Sleep ch t" "initproc s = Some i" "lineage i (ptable s)" "no_missed_exit (ptable s)" "cp < NPROC" "cp \<noteq> i"
    "curproc s = Some cp"
  shows "lineage i (ptable t) \<and> no_missed_exit (ptable t) \<and> initproc t = Some i"
proof -
  let ?pt = "ptable s"
  define w where "w = (case parent (?pt ! cp) of None \<Rightarrow> ?pt | Some q \<Rightarrow> map (wake (Ch_proc q)) ?pt)"
  have L: "length ?pt = NPROC" "i < NPROC" "parent (?pt ! i) = None" "\<And>q. q < NPROC \<Longrightarrow> parent (?pt ! q) \<noteq> Some q"
    using assms(3) by (auto simp: lineage_def)
  have w: "length w = NPROC" "\<And>q. q < NPROC \<Longrightarrow> parent (w ! q) = parent (?pt ! q)"
    "\<And>q. q < NPROC \<Longrightarrow> pstate (w ! q) = ZOMBIE \<longleftrightarrow> pstate (?pt ! q) = ZOMBIE"
    "\<And>q. q < NPROC \<Longrightarrow> waits_for_child w q \<Longrightarrow> waits_for_child ?pt q \<and> parent (?pt ! cp) \<noteq> Some q"
    using L(1) by (auto simp: w_def wake_def waits_for_child_def split: option.splits if_splits)
  have nl: "LK_ptable \<notin> set (held s)" using assms(1) by (auto simp: exit_tail_def lk_acquire_def kbind_def kpanic_def split: if_splits)
  let ?s = "s\<lparr>held := LK_ptable # held s, ptable := w\<rparr>"
  obtain u where u: "reparent cp ?s = Ok () u" "reparented cp i w {..<NPROC} (ptable u)" "curproc u = Some cp" "initproc u = Some i"
    using reparent_run[of ?s i cp] assms(2,7) L(2) w(1) by auto
  have "kbind (kgets (\<lambda>s. parent (ptable s ! cp))) (\<lambda>par. case par of None \<Rightarrow> kreturn () | Some q \<Rightarrow> wakeup1 (Ch_proc q))
      (s\<lparr>held := LK_ptable # held s\<rparr>) = Ok () ?s"
    by (simp add: wakeup1_def w_def split: option.splits)
  then have t: "ptable t = upd_at cp (\<lambda>q. q\<lparr>pstate := ZOMBIE\<rparr>) (ptable u)" "initproc t = Some i"
    using assms(1) u nl by (auto simp: exit_tail_def kbind_assoc upd_proc_def sched_def with_proc_def lk_acquire_def split: if_splits)
  have U: "length (ptable u) = NPROC"
    "\<And>q. q < NPROC \<Longrightarrow> parent (ptable u ! q) = (if parent (?pt ! q) = Some cp then Some i else parent (?pt ! q))"
    "\<And>q. q < NPROC \<Longrightarrow> pstate (ptable u ! q) = ZOMBIE \<longleftrightarrow> pstate (?pt ! q) = ZOMBIE"
    "\<And>q. q < NPROC \<Longrightarrow> waits_for_child (ptable u) q \<Longrightarrow> waits_for_child ?pt q \<and> parent (?pt ! cp) \<noteq> Some q"
    "\<And>q. q < NPROC \<Longrightarrow> waits_for_child (ptable u) i \<Longrightarrow> \<not> zombie_of ?pt q cp"
    using u(2) w L(2) by (auto simp: reparented_def zombie_of_def)
  have "\<not> zombie_of (ptable t) q p" if "p < NPROC" "q < NPROC" "waits_for_child (ptable t) p" for p q
  proof
    assume z: "zombie_of (ptable t) q p"
    have p: "waits_for_child (ptable u) p" using that U(1) t by (auto simp: waits_for_child_def nth_upd_at split: if_splits)
    show False
    proof (cases "q = cp")
      case True
      then show False using z t U(1) U(2)[of cp] U(4)[OF that(1) p] L(4)[of cp] assms(5) by (auto simp: zombie_of_def split: if_splits)
    next
      case False
      then have "pstate (?pt ! q) = ZOMBIE" "parent (ptable u ! q) = Some p" using z t U(3)[OF that(2)] by (simp_all add: zombie_of_def)
      then show False using U(2)[OF that(2)] U(4)[OF that(1) p] U(5)[OF that(2)] p assms(4) that L(1)
        by (auto simp: no_missed_exit_def zombie_of_def split: if_splits)
    qed
  qed
  moreover have "lineage i (ptable t)" using t U(1,2) L by (auto simp: lineage_def nth_upd_at)
  ultimately show ?thesis using t U(1) by (simp add: no_missed_exit_def)
qed

text \<open>\<open>wait\<close> frees one zombie child, or returns because there is nothing to wait for, or sleeps when it has children and no zombie among them.\<close>

lemma kmem_more_table:
  fixes s t :: "'z ptab_scheme"
  assumes "kmem.more t = kmem.more s"
  shows "ptable t = ptable s" "curproc t = curproc s" "initproc t = initproc s"
  using assms by (cases s; cases t; simp)+

definition reaped :: "proc \<Rightarrow> proc" where
  "reaped q = q\<lparr>kstack := 0, pid := 0, parent := None, pname := (pname q)[0 := 0], killed := False, pstate := UNUSED\<rparr>"

lemma wait_loop_reaps:
  assumes "find_index (\<lambda>p. parent p = Some cp \<and> pstate p = ZOMBIE) (ptable s) = Some p" "wait_loop cp s = Ok r t"
  shows "ptable t = upd_at p reaped (ptable s) \<and> r = sint (pid (ptable s ! p)) \<and> curproc t = curproc s \<and> initproc t = initproc s"
proof -
  obtain u v where u: "kfree (kstack (ptable s ! p)) s = Ok () u"
    and v: "freevm (pgdir (ptable s ! p)) (u\<lparr>ptable := upd_at p (\<lambda>q. q\<lparr>kstack := 0\<rparr>) (ptable u)\<rparr>) = Ok () v"
    and t: "t = v\<lparr>ptable := ptable t, held := held t\<rparr>" "r = sint (pid (ptable s ! p))"
      "ptable t = upd_at p (\<lambda>q. q\<lparr>pid := 0, parent := None, pname := (pname q)[0 := 0], killed := False, pstate := UNUSED\<rparr>) (ptable v)"
    using assms by (auto simp: wait_loop_def upd_proc_def lk_release_def elim!: kbindE split: if_splits)
  have "ptable u = ptable s" "curproc u = curproc s" "initproc u = initproc s"
    using kmem_more_table[of u s] kfree_frame[OF u] by auto
  moreover have "ptable v = upd_at p (\<lambda>q. q\<lparr>kstack := 0\<rparr>) (ptable u)" "curproc v = curproc u" "initproc v = initproc u"
    using kmem_more_table[of v "u\<lparr>ptable := upd_at p (\<lambda>q. q\<lparr>kstack := 0\<rparr>) (ptable u)\<rparr>"] freevm_frame[OF v] by auto
  moreover have "curproc t = curproc v" "initproc t = initproc v" by (subst t(1), simp)+
  ultimately show ?thesis using t(2,3) by (auto simp: reaped_def[abs_def])
qed

lemma wait_loop_ok:
  assumes "left_state (wait_loop cp s) = Some t" "lineage i (ptable s)" "no_missed_exit (ptable s)" "cp < NPROC"
    "curproc s = Some cp" "held s = [LK_ptable]"
  shows "lineage i (ptable t) \<and> no_missed_exit (ptable t) \<and> initproc t = initproc s"
proof (cases "find_index (\<lambda>p. parent p = Some cp \<and> pstate p = ZOMBIE) (ptable s)")
  case None
  then have z: "\<not> zombie_of (ptable s) q cp" if "q < length (ptable s)" for q
    using that by (auto simp: find_index_None zombie_of_def)
  have L: "length (ptable s) = NPROC" using assms(2) by (simp add: lineage_def)
  show ?thesis
  proof (cases "(\<forall>p\<in>set (ptable s). parent p \<noteq> Some cp) \<or> killed (ptable s ! cp)")
    case True
    then show ?thesis using assms None by (auto simp: wait_loop_def)
  next
    case False
    then have "wait_loop cp s = sleep (Ch_proc cp) LK_ptable s" using None by (auto simp: wait_loop_def split: if_splits)
    then have t: "ptable t = upd_at cp (\<lambda>q. q\<lparr>chan := Some (Ch_proc cp), pstate := SLEEPING\<rparr>) (ptable s)" "initproc t = initproc s"
      using assms(1,4,5,6) L by (auto simp: sleep_run[where p = cp])
    have "lineage i (ptable t)" using assms(2) t by (auto simp: lineage_def nth_upd_at)
    moreover have "no_missed_exit (ptable t)"
      using assms(3,4) t z L by (auto simp: no_missed_exit_def waits_for_child_def zombie_of_def nth_upd_at)
    ultimately show ?thesis using t by simp
  qed
next
  case (Some p)
  have "wait_loop cp s \<noteq> Sleep c t" for c
    using Some unfolding wait_loop_def
    by (simp del: kseq.simps) (rule awakeD, intro awake_intros, simp add: awake_intros awake_freevm)
  then obtain r where "wait_loop cp s = Ok r t" using assms(1) by (cases "wait_loop cp s") auto
  then have t: "ptable t = upd_at p reaped (ptable s)" "initproc t = initproc s" using wait_loop_reaps[OF Some] by auto
  have "lineage i (ptable t)" using assms(2) t by (auto simp: lineage_def nth_upd_at reaped_def)
  moreover have "no_missed_exit (ptable t)"
    using assms(3) t by (auto simp: no_missed_exit_def waits_for_child_def zombie_of_def nth_upd_at reaped_def)
  ultimately show ?thesis using t by simp
qed

subsection \<open>Runs of the system\<close>

text \<open>
  A step is the end of an \<open>exit\<close>, a call of \<open>wait\<close> up to its return or its \<open>sleep\<close>, a pass of \<open>wait\<close> after it has
  been woken, or any other change of the table that makes no zombie, gives no zombie a new parent
  and puts nobody to sleep in \<open>wait\<close> (\<open>fork\<close>, wake-ups, \<open>kill\<close>, scheduling, sleeping elsewhere).
\<close>

definition quiet_change :: "nat \<Rightarrow> proc list \<Rightarrow> proc list \<Rightarrow> bool" where
  "quiet_change i pt pt' \<longleftrightarrow> lineage i pt' \<and>
     (\<forall>q<NPROC. (pstate (pt' ! q) = ZOMBIE \<longrightarrow> pstate (pt ! q) = ZOMBIE \<and> parent (pt' ! q) = parent (pt ! q)) \<and>
       (waits_for_child pt' q \<longrightarrow> waits_for_child pt q))"

definition run_on :: "nat \<Rightarrow> ptab \<Rightarrow> ptab" where
  "run_on c s = s\<lparr>curproc := Some c, held := []\<rparr>"

definition switch_to :: "nat \<Rightarrow> ptab \<Rightarrow> ptab" where
  "switch_to c s = s\<lparr>curproc := Some c, held := [LK_ptable], ptable := upd_at c (\<lambda>q. q\<lparr>pstate := RUNNING\<rparr>) (ptable s)\<rparr>"

inductive family_step :: "nat \<Rightarrow> ptab \<Rightarrow> ptab \<Rightarrow> bool" for i where
  exits: "c < NPROC \<Longrightarrow> c \<noteq> i \<Longrightarrow> (exit_tail c (run_on c s) :: (unit, ptab) outcome) = Sleep ch t \<Longrightarrow> family_step i s t"
| calls_wait: "c < NPROC \<Longrightarrow> left_state (wait (run_on c s)) = Some t \<Longrightarrow> family_step i s t"
| wait_goes_on: "c < NPROC \<Longrightarrow> pstate (ptable s ! c) = RUNNABLE \<Longrightarrow>
    left_state (kbind (sleep_resume LK_ptable) (\<lambda>_. wait_loop c) (switch_to c s)) = Some t \<Longrightarrow> family_step i s t"
| other: "quiet_change i (ptable s) (ptable t) \<Longrightarrow> initproc t = initproc s \<Longrightarrow> family_step i s t"

inductive family_reach :: "nat \<Rightarrow> ptab \<Rightarrow> bool" for i where
  boot: "initproc s = Some i \<Longrightarrow> lineage i (ptable s) \<Longrightarrow> (\<And>q. q < NPROC \<Longrightarrow> pstate (ptable s ! q) \<noteq> ZOMBIE) \<Longrightarrow> family_reach i s"
| step: "family_reach i s \<Longrightarrow> family_step i s t \<Longrightarrow> family_reach i t"

definition family_ok :: "nat \<Rightarrow> ptab \<Rightarrow> bool" where
  "family_ok i s \<longleftrightarrow> initproc s = Some i \<and> lineage i (ptable s) \<and> no_missed_exit (ptable s)"

lemma family_step_ok: "family_step i s t \<Longrightarrow> family_ok i s \<Longrightarrow> family_ok i t"
proof (induction rule: family_step.induct)
  case (exits c s ch t)
  then show ?case
    using exit_tail_ok[OF exits(3), of i] by (auto simp: family_ok_def run_on_def lineage_def)
next
  case (calls_wait c s t)
  have "wait (run_on c s) = wait_loop c (s\<lparr>curproc := Some c, held := [LK_ptable]\<rparr>)" by (simp add: wait_def with_proc_def run_on_def)
  then show ?case
    using calls_wait wait_loop_ok[of c "s\<lparr>curproc := Some c, held := [LK_ptable]\<rparr>" t i] by (auto simp: family_ok_def)
next
  case (wait_goes_on c s t)
  let ?s = "s\<lparr>curproc := Some c, held := [LK_ptable], ptable := upd_at c (\<lambda>q. q\<lparr>pstate := RUNNING, chan := None\<rparr>) (ptable s)\<rparr>"
  have "kbind (sleep_resume LK_ptable) (\<lambda>_. wait_loop c) (switch_to c s) = wait_loop c ?s"
    by (simp add: sleep_resume_run[where p = c] switch_to_def)
  moreover have "lineage i (ptable ?s)" "no_missed_exit (ptable ?s)"
    using wait_goes_on(4) by (auto simp: family_ok_def lineage_def no_missed_exit_def waits_for_child_def zombie_of_def nth_upd_at)
  ultimately show ?case using wait_goes_on wait_loop_ok[of c ?s t i] by (auto simp: family_ok_def)
next
  case (other s t)
  then show ?case by (auto simp: family_ok_def quiet_change_def no_missed_exit_def zombie_of_def lineage_def)
qed

lemma family_reach_ok: "family_reach i s \<Longrightarrow> family_ok i s"
proof (induction rule: family_reach.induct)
  case (boot s)
  then show ?case by (auto simp: family_ok_def no_missed_exit_def zombie_of_def lineage_def)
qed (rule family_step_ok)

text \<open>
  C31. No exit is missed: in every reachable state a process asleep in \<open>wait\<close> has no zombie child. \<open>exit\<close> wakes
  the parent under \<open>ptable.lock\<close> before its child becomes a zombie, and when a process dies its zombie
  children go to the first process together with a wake-up.
\<close>

theorem wait_misses_no_exit:
  assumes "family_reach i s" "p < NPROC" "q < NPROC" "pstate (ptable s ! p) = SLEEPING" "chan (ptable s ! p) = Some (Ch_proc p)"
    "parent (ptable s ! q) = Some p"
  shows "pstate (ptable s ! q) \<noteq> ZOMBIE"
  using family_reach_ok[OF assms(1)] assms(2-)
  by (auto simp: family_ok_def no_missed_exit_def waits_for_child_def zombie_of_def lineage_def)

text \<open>Process 1 has the child 2 and calls \<open>wait\<close>.\<close>

definition demo_family :: ptab where
  "demo_family = demo_ptab\<lparr>initproc := Some 0, ptable := [proc0\<lparr>pstate := SLEEPING\<rparr>, proc0\<lparr>pstate := RUNNING, parent := Some 0\<rparr>,
     proc0\<lparr>pstate := RUNNABLE, parent := Some 1\<rparr>] @ replicate (NPROC - 3) proc0\<rparr>"

lemma demo_family_table:
  "q < NPROC \<Longrightarrow> ptable demo_family ! q = (if q = 0 then proc0\<lparr>pstate := SLEEPING\<rparr> else if q = 1 then proc0\<lparr>pstate := RUNNING, parent := Some 0\<rparr>
     else if q = 2 then proc0\<lparr>pstate := RUNNABLE, parent := Some 1\<rparr> else proc0)"
  "length (ptable demo_family) = NPROC" "initproc demo_family = Some 0"
  by (auto simp: demo_family_def nth_append nth_Cons' NPROC_def)

lemma demo_family_boot: "family_reach 0 demo_family"
  by (rule family_reach.boot) (auto simp: demo_family_table lineage_def proc0_def NPROC_def)

theorem wait_misses_no_exit_witness:
  "\<exists>s. family_reach 0 s \<and> pstate (ptable s ! 1) = SLEEPING \<and> chan (ptable s ! 1) = Some (Ch_proc 1) \<and>
    parent (ptable s ! 2) = Some 1 \<and> pstate (ptable s ! 2) \<noteq> ZOMBIE"
proof -
  let ?s = "demo_family\<lparr>curproc := Some 1, held := [LK_ptable]\<rparr>"
  let ?t = "?s\<lparr>ptable := upd_at 1 (\<lambda>q. q\<lparr>chan := Some (Ch_proc 1), pstate := SLEEPING\<rparr>) (ptable demo_family)\<rparr>"
  have "find_index (\<lambda>p. parent p = Some 1 \<and> pstate p = ZOMBIE) (ptable demo_family) = None"
    unfolding find_index_None by (simp add: demo_family_def proc0_def)
  moreover have "\<not> (\<forall>p\<in>set (ptable demo_family). parent p \<noteq> Some 1)" by (simp add: demo_family_def)
  moreover have "\<not> killed (ptable demo_family ! 1)" by (simp add: demo_family_table NPROC_def proc0_def)
  ultimately have "wait_loop 1 ?s = Sleep (Ch_proc 1) ?t"
    using demo_family_table(2) by (auto simp: wait_loop_def sleep_run[where p = 1] NPROC_def split: if_splits)
  then have "family_step 0 demo_family ?t"
    by (intro family_step.calls_wait[where c = 1]) (simp_all add: wait_def with_proc_def run_on_def NPROC_def)
  then have r: "family_reach 0 ?t" by (rule family_reach.step[OF demo_family_boot])
  have p: "pstate (ptable ?t ! 1) = SLEEPING" "chan (ptable ?t ! 1) = Some (Ch_proc 1)" "parent (ptable ?t ! 2) = Some 1"
    using demo_family_table(1)[of 2] demo_family_table(2) by (simp_all add: NPROC_def)
  have "pstate (ptable ?t ! 2) \<noteq> ZOMBIE"
    by (rule wait_misses_no_exit[OF r _ _ p]) (simp_all add: NPROC_def)
  with r p show ?thesis by (intro exI[of _ ?t] conjI)
qed

end
