(* ===== verification/Exec.thy ===== *)
theory Exec
  imports Lifecycle
begin

text \<open>
  Loading programs: \<open>loaduvm\<close> of \<^verbatim>\<open>src/vm.c\<close> and \<^verbatim>\<open>src/exec.c\<close>. The arguments are the strings the caller
  has fetched, without their NULs. \<open>exec_bad\<close> is the label \<^verbatim>\<open>bad\<close>.
\<close>

fun loaduvm_loop :: "('z fsst_scheme) devsw \<Rightarrow> nat \<Rightarrow> u32 \<Rightarrow> u32 \<Rightarrow> nat \<Rightarrow> u32 \<Rightarrow> u32 \<Rightarrow> u32 \<Rightarrow> ('z fsst_scheme, int) kprog" where
  "loaduvm_loop devsw 0 pd addr ip offset i nby = kdiverge"
| "loaduvm_loop devsw (Suc fuel) pd addr ip offset i nby =
     (if \<not> i < nby then kreturn 0
      else kbind (walkpgdir pd (addr + i) False) (\<lambda>pte.
        if pte = 0 then kpanic ''loaduvm: address should exist''
        else kbind (mget pte) (\<lambda>e.
          let pa = PTE_ADDR e; n = (if nby - i < PGSIZE then nby - i else PGSIZE)
          in kbind (readi devsw ip (offset + i) n) (\<lambda>(r, x).
             kbind (mwrite (P2V pa) x) (\<lambda>_.
             if r \<noteq> sint n then kreturn (- 1)
             else loaduvm_loop devsw fuel pd addr ip offset (i + PGSIZE) nby)))))"

definition loaduvm :: "('z fsst_scheme) devsw \<Rightarrow> u32 \<Rightarrow> u32 \<Rightarrow> nat \<Rightarrow> u32 \<Rightarrow> u32 \<Rightarrow> ('z fsst_scheme, int) kprog" where
  "loaduvm devsw pd addr ip offset nby =
     (if addr mod PGSIZE \<noteq> 0 then kpanic ''loaduvm: addr must be page aligned''
      else loaduvm_loop devsw VMFUEL pd addr ip offset 0 nby)"

subsection \<open>exec\<close>

definition ELF_MAGIC :: u32 where "ELF_MAGIC = 0x464C457F"
definition ELF_PROG_LOAD :: u32 where "ELF_PROG_LOAD = 1"

text \<open>The fields of \<^verbatim>\<open>struct elfhdr\<close> (52 bytes) and \<^verbatim>\<open>struct proghdr\<close> (32 bytes) that are used.\<close>

record elfhdr =
  e_magic :: u32
  e_entry :: u32
  e_phoff :: u32
  e_phnum :: u16

definition elfhdr_of :: "u8 list \<Rightarrow> elfhdr" where
  "elfhdr_of x = \<lparr>e_magic = get32 0 x, e_entry = get32 24 x, e_phoff = get32 28 x, e_phnum = get16 44 x\<rparr>"

record proghdr =
  ph_type :: u32
  ph_off :: u32
  ph_vaddr :: u32
  ph_filesz :: u32
  ph_memsz :: u32

definition proghdr_of :: "u8 list \<Rightarrow> proghdr" where
  "proghdr_of x = \<lparr>ph_type = get32 0 x, ph_off = get32 4 x, ph_vaddr = get32 8 x, ph_filesz = get32 16 x, ph_memsz = get32 20 x\<rparr>"

definition exec_bad :: "u32 \<Rightarrow> nat option \<Rightarrow> ('z filest_scheme, int) kprog" where
  "exec_bad pd ipo =
     kbind (kwhen (pd \<noteq> 0) (freevm pd)) (\<lambda>_.
     kbind (case ipo of None \<Rightarrow> kreturn () | Some ip \<Rightarrow> kseq [iunlockput ip, end_op]) (\<lambda>_.
     kreturn (- 1)))"

text \<open>The program headers: the new size, or \<open>None\<close> for \<^verbatim>\<open>goto bad\<close>.\<close>

fun exec_load :: "('z filest_scheme) devsw \<Rightarrow> u32 \<Rightarrow> nat \<Rightarrow> nat \<Rightarrow> u32 \<Rightarrow> u32 \<Rightarrow> ('z filest_scheme, u32 option) kprog" where
  "exec_load devsw pd ip 0 off psz = kreturn (Some psz)"
| "exec_load devsw pd ip (Suc n) off psz =
     kbind (readi devsw ip off 32) (\<lambda>(r, x).
     if r \<noteq> 32 then kreturn None
     else let ph = proghdr_of x
       in if ph_type ph \<noteq> ELF_PROG_LOAD then exec_load devsw pd ip n (off + 32) psz
       else if ph_memsz ph < ph_filesz ph then kreturn None
       else if ph_vaddr ph + ph_memsz ph < ph_vaddr ph then kreturn None
       else kbind (allocuvm pd psz (ph_vaddr ph + ph_memsz ph)) (\<lambda>psz.
         if psz = 0 then kreturn None
         else if ph_vaddr ph mod PGSIZE \<noteq> 0 then kreturn None
         else kbind (loaduvm devsw pd (ph_vaddr ph) ip (ph_off ph) (ph_filesz ph)) (\<lambda>r.
           if r < 0 then kreturn None
           else exec_load devsw pd ip n (off + 32) psz)))"

text \<open>The argument strings: the stack pointer and the addresses of the copies.\<close>

fun exec_args :: "u32 \<Rightarrow> u32 \<Rightarrow> u8 list list \<Rightarrow> u32 list \<Rightarrow> ('z vm_scheme, (u32 \<times> u32 list) option) kprog" where
  "exec_args pd sp [] ustack = kreturn (Some (sp, ustack))"
| "exec_args pd sp (s # argv) ustack =
     (if length ustack \<ge> MAXARG then kreturn None
      else let sp = (sp - of_nat (length s + 1)) AND NOT 3
        in kbind (copyout pd sp (s @ [0])) (\<lambda>r.
           if r < 0 then kreturn None
           else exec_args pd sp argv (ustack @ [sp])))"

text \<open>The part of a path after its last slash.\<close>

definition last_elem :: "u8 list \<Rightarrow> u8 list" where
  "last_elem path = rev (takeWhile (\<lambda>c. c \<noteq> slash) (rev path))"

definition exec_commit :: "nat \<Rightarrow> u8 list \<Rightarrow> u32 \<Rightarrow> u32 \<Rightarrow> u32 \<Rightarrow> u32 \<Rightarrow> ('z filest_scheme, int) kprog" where
  "exec_commit cp path pd psz entry sp =
     kbind (kgets (\<lambda>s. ptable s ! cp)) (\<lambda>c.
     kbind (kseq [
       upd_proc cp (\<lambda>q. q\<lparr>pname := safestrcpy_list (pname q) (last_elem path)\<rparr>),
       upd_proc cp (\<lambda>q. q\<lparr>pgdir := pd\<rparr>),
       upd_proc cp (\<lambda>q. q\<lparr>sz := psz\<rparr>),
       mput (tf c + TF_eip) entry,
       mput (tf c + TF_esp) sp,
       kbind (kgets (\<lambda>s. ptable s ! cp)) (\<lambda>c'. switchuvm (Some c')),
       freevm (pgdir c)]) (\<lambda>_. kreturn 0))"

definition exec_stack :: "nat \<Rightarrow> u8 list \<Rightarrow> u8 list list \<Rightarrow> u32 \<Rightarrow> u32 \<Rightarrow> u32 \<Rightarrow> ('z filest_scheme, int) kprog" where
  "exec_stack cp path argv pd psz entry =
     kbind (allocuvm pd (PGROUNDUP psz) (PGROUNDUP psz + 2 * PGSIZE)) (\<lambda>psz.
     if psz = 0 then exec_bad pd None
     else kbind (clearpteu pd (psz - 2 * PGSIZE)) (\<lambda>_.
       kbind (exec_args pd psz argv []) (\<lambda>r. case r of
         None \<Rightarrow> exec_bad pd None
       | Some (sp, args) \<Rightarrow>
           let argc = of_nat (length args) :: u32;
               ustack = [0xFFFFFFFF, argc, sp - (argc + 1) * 4] @ args @ [0];
               sp = sp - (3 + argc + 1) * 4
           in kbind (copyout pd sp (concat (map le32 ustack))) (\<lambda>r.
              if r < 0 then exec_bad pd None
              else exec_commit cp path pd psz entry sp))))"

definition exec :: "('z filest_scheme) devsw \<Rightarrow> u8 list \<Rightarrow> u8 list list \<Rightarrow> ('z filest_scheme, int) kprog" where
  "exec devsw path argv = with_proc (\<lambda>cp.
     kbind begin_op (\<lambda>_.
     kbind (namei path) (\<lambda>ipo. case ipo of
       None \<Rightarrow> kbind (kseq [end_op, cprintf ''exec: fail\<newline>'' []]) (\<lambda>_. kreturn (- 1))
     | Some ip \<Rightarrow>
         kbind (ilock (Some ip)) (\<lambda>_.
         kbind (readi devsw ip 0 52) (\<lambda>(r, x).
         if r \<noteq> 52 then exec_bad 0 (Some ip)
         else let elf = elfhdr_of x
           in if e_magic elf \<noteq> ELF_MAGIC then exec_bad 0 (Some ip)
           else kbind setupkvm (\<lambda>pd.
             if pd = 0 then exec_bad 0 (Some ip)
             else kbind (exec_load devsw pd ip (unat (e_phnum elf)) (e_phoff elf) 0) (\<lambda>r. case r of
               None \<Rightarrow> exec_bad pd (Some ip)
             | Some psz \<Rightarrow>
                 kbind (kseq [iunlockput ip, end_op]) (\<lambda>_.
                 exec_stack cp path argv pd psz (e_entry elf)))))))))"

end
