(* ===== verification/Sysfile.thy ===== *)
theory Sysfile
  imports Exec
begin

text \<open>
  The file system calls, \<^verbatim>\<open>src/sysfile.c\<close>. Each returns the value for \<^verbatim>\<open>%eax\<close>. The device switch is passed
  to the calls that read or write inodes.
\<close>

definition O_RDONLY :: i32 where "O_RDONLY = 0"
definition O_WRONLY :: i32 where "O_WRONLY = 1"
definition O_RDWR :: i32 where "O_RDWR = 2"
definition O_CREATE :: i32 where "O_CREATE = 0x200"

subsection \<open>Descriptors\<close>

definition argfd :: "nat \<Rightarrow> ('z filest_scheme, (nat \<times> nat) option) kprog" where
  "argfd n =
     kbind (argint n) (\<lambda>r. case r of None \<Rightarrow> kreturn None | Some fd \<Rightarrow>
     if sint fd < 0 \<or> sint fd \<ge> int NOFILE then kreturn None
     else kbind (myproc_get (\<lambda>p. ofile p ! unat fd)) (\<lambda>fo.
       kreturn (map_option (\<lambda>f. (unat fd, f)) fo)))"

definition fdalloc :: "nat \<Rightarrow> ('z filest_scheme, int) kprog" where
  "fdalloc f = with_proc (\<lambda>cp.
     kbind (kgets (\<lambda>s. find_index (\<lambda>fo. fo = None) (take NOFILE (ofile (ptable s ! cp))))) (\<lambda>r. case r of
       None \<Rightarrow> kreturn (- 1)
     | Some fd \<Rightarrow> kbind (upd_proc cp (\<lambda>q. q\<lparr>ofile := (ofile q)[fd := Some f]\<rparr>)) (\<lambda>_. kreturn (int fd))))"

definition clear_fd :: "nat \<Rightarrow> ('z filest_scheme, unit) kprog" where
  "clear_fd fd = with_proc (\<lambda>cp. upd_proc cp (\<lambda>q. q\<lparr>ofile := (ofile q)[fd := None]\<rparr>))"

definition sys_dup :: "('z filest_scheme, int) kprog" where
  "sys_dup =
     kbind (argfd 0) (\<lambda>r. case r of None \<Rightarrow> kreturn (- 1) | Some (_, f) \<Rightarrow>
     kbind (fdalloc f) (\<lambda>fd.
     if fd < 0 then kreturn (- 1)
     else kbind (filedup f) (\<lambda>_. kreturn fd)))"

text \<open>The arguments of \<^verbatim>\<open>read\<close> and \<^verbatim>\<open>write\<close>: the file, the count and the buffer.\<close>

definition rw_args :: "('z filest_scheme, (nat \<times> i32 \<times> u32) option) kprog" where
  "rw_args =
     kbind (argfd 0) (\<lambda>r. case r of None \<Rightarrow> kreturn None | Some (_, f) \<Rightarrow>
     kbind (argint 2) (\<lambda>r. case r of None \<Rightarrow> kreturn None | Some n \<Rightarrow>
     kbind (argptr 1 n) (\<lambda>r. case r of None \<Rightarrow> kreturn None | Some p \<Rightarrow>
     kreturn (Some (f, n, p)))))"

definition sys_read :: "('z filest_scheme) devsw \<Rightarrow> ('z filest_scheme, int) kprog" where
  "sys_read devsw =
     kbind rw_args (\<lambda>r. case r of None \<Rightarrow> kreturn (- 1) | Some (f, n, p) \<Rightarrow>
     kbind (fileread devsw f n) (\<lambda>(r, x).
     kbind (uput p x) (\<lambda>_.
     kreturn r)))"

text \<open>
  \<open>filewrite\<close> takes the data as bytes. They are fetched on entry, before the test for a writable file and before any
  sleep: the range has been checked by \<open>argptr\<close>, and nothing else writes the memory of a process that sleeps.
\<close>

definition sys_write :: "('z filest_scheme) devsw \<Rightarrow> ('z filest_scheme, int) kprog" where
  "sys_write devsw =
     kbind rw_args (\<lambda>r. case r of None \<Rightarrow> kreturn (- 1) | Some (f, n, p) \<Rightarrow>
     kbind (uget p (unat n)) (\<lambda>x.
     filewrite devsw f x n))"

definition sys_close :: "('z filest_scheme, int) kprog" where
  "sys_close =
     kbind (argfd 0) (\<lambda>r. case r of None \<Rightarrow> kreturn (- 1) | Some (fd, f) \<Rightarrow>
     kbind (kseq [clear_fd fd, fileclose f]) (\<lambda>_. kreturn 0))"

text \<open>\<^verbatim>\<open>struct stat\<close>, 20 bytes: \<^verbatim>\<open>type\<close> at 0, \<^verbatim>\<open>dev\<close> 4, \<^verbatim>\<open>ino\<close> 8, \<^verbatim>\<open>nlink\<close> 12, \<^verbatim>\<open>size\<close> 16; the padding is not written.\<close>

definition sys_fstat :: "('z filest_scheme, int) kprog" where
  "sys_fstat =
     kbind (argfd 0) (\<lambda>r. case r of None \<Rightarrow> kreturn (- 1) | Some (_, f) \<Rightarrow>
     kbind (argptr 1 20) (\<lambda>r. case r of None \<Rightarrow> kreturn (- 1) | Some p \<Rightarrow>
     kbind (filestat f) (\<lambda>r. case r of None \<Rightarrow> kreturn (- 1) | Some st \<Rightarrow>
     kbind (kseq [
       uput p (le16 (st_type st)),
       uput (p + 4) (le32 (st_dev st)),
       uput (p + 8) (le32 (st_ino st)),
       uput (p + 12) (le16 (st_nlink st)),
       uput (p + 16) (le32 (st_size st))]) (\<lambda>_. kreturn 0))))"

subsection \<open>Links\<close>

definition link_bad :: "nat \<Rightarrow> ('z filest_scheme, int) kprog" where
  "link_bad ip =
     kbind (kseq [
       ilock (Some ip),
       upd_inode ip (\<lambda>i. i\<lparr>i_nlink := i_nlink i - 1\<rparr>),
       iupdate ip,
       iunlockput ip,
       end_op]) (\<lambda>_. kreturn (- 1))"

definition sys_link :: "('z filest_scheme, int) kprog" where
  "sys_link =
     kbind (argstr 0) (\<lambda>r. case r of None \<Rightarrow> kreturn (- 1) | Some old \<Rightarrow>
     kbind (argstr 1) (\<lambda>r. case r of None \<Rightarrow> kreturn (- 1) | Some new \<Rightarrow>
     kbind begin_op (\<lambda>_.
     kbind (namei old) (\<lambda>r. case r of None \<Rightarrow> kbind end_op (\<lambda>_. kreturn (- 1)) | Some ip \<Rightarrow>
     kbind (ilock (Some ip)) (\<lambda>_.
     kbind (get_inode ip) (\<lambda>i.
     if i_type i = T_DIR then kbind (kseq [iunlockput ip, end_op]) (\<lambda>_. kreturn (- 1))
     else kbind (kseq [
         upd_inode ip (\<lambda>i. i\<lparr>i_nlink := i_nlink i + 1\<rparr>),
         iupdate ip,
         iunlock (Some ip)]) (\<lambda>_.
       kbind (nameiparent new) (\<lambda>r. case r of None \<Rightarrow> link_bad ip | Some (dp, name) \<Rightarrow>
       kbind (ilock (Some dp)) (\<lambda>_.
       kbind (get_inode dp) (\<lambda>d.
       kbind (get_inode ip) (\<lambda>i.
       kbind (if i_dev d \<noteq> i_dev i then kreturn (- 1) else dirlink dp name (i_inum i)) (\<lambda>r.
       if r < 0 then kbind (iunlockput dp) (\<lambda>_. link_bad ip)
       else kbind (kseq [iunlockput dp, iput ip, end_op]) (\<lambda>_. kreturn 0)))))))))))))"

fun isdirempty_loop :: "nat \<Rightarrow> nat list \<Rightarrow> ('z filest_scheme, bool) kprog" where
  "isdirempty_loop dp [] = kreturn True"
| "isdirempty_loop dp (off # offs) =
     kbind (readi_data dp (of_nat off) 16) (\<lambda>(r, x).
     if r \<noteq> 16 then kpanic ''isdirempty: readi''
     else if de_inum (dirent_of x) \<noteq> 0 then kreturn False
     else isdirempty_loop dp offs)"

definition isdirempty :: "nat \<Rightarrow> ('z filest_scheme, bool) kprog" where
  "isdirempty dp = kbind (get_inode dp) (\<lambda>i. isdirempty_loop dp (drop 2 (dirent_offs (i_size i))))"

definition unlink_bad :: "nat \<Rightarrow> ('z filest_scheme, int) kprog" where
  "unlink_bad dp = kbind (kseq [iunlockput dp, end_op]) (\<lambda>_. kreturn (- 1))"

definition sys_unlink :: "('z filest_scheme, int) kprog" where
  "sys_unlink =
     kbind (argstr 0) (\<lambda>r. case r of None \<Rightarrow> kreturn (- 1) | Some path \<Rightarrow>
     kbind begin_op (\<lambda>_.
     kbind (nameiparent path) (\<lambda>r. case r of None \<Rightarrow> kbind end_op (\<lambda>_. kreturn (- 1)) | Some (dp, name) \<Rightarrow>
     kbind (ilock (Some dp)) (\<lambda>_.
     if namecmp name [46] = 0 \<or> namecmp name [46, 46] = 0 then unlink_bad dp
     else kbind (dirlookup dp name) (\<lambda>r. case r of None \<Rightarrow> unlink_bad dp | Some (ip, off) \<Rightarrow>
       kbind (ilock (Some ip)) (\<lambda>_.
       kbind (get_inode ip) (\<lambda>i.
       if sint (i_nlink i) < 1 then kpanic ''unlink: nlink < 1''
       else kbind (if i_type i = T_DIR then isdirempty ip else kreturn True) (\<lambda>ok.
         if \<not> ok then kbind (iunlockput ip) (\<lambda>_. unlink_bad dp)
         else kbind (writei_data dp (replicate 16 0) off) (\<lambda>r.
           if r \<noteq> 16 then kpanic ''unlink: writei''
           else kbind (kseq [
             kwhen (i_type i = T_DIR) (kseq [
               upd_inode dp (\<lambda>d. d\<lparr>i_nlink := i_nlink d - 1\<rparr>),
               iupdate dp]),
             iunlockput dp,
             upd_inode ip (\<lambda>i. i\<lparr>i_nlink := i_nlink i - 1\<rparr>),
             iupdate ip,
             iunlockput ip,
             end_op]) (\<lambda>_. kreturn 0))))))))))"

subsection \<open>Creating and opening\<close>

definition create :: "u8 list \<Rightarrow> u16 \<Rightarrow> u16 \<Rightarrow> u16 \<Rightarrow> ('z filest_scheme, nat option) kprog" where
  "create path ty major minor =
     kbind (nameiparent path) (\<lambda>r. case r of None \<Rightarrow> kreturn None | Some (dp, name) \<Rightarrow>
     kbind (ilock (Some dp)) (\<lambda>_.
     kbind (dirlookup dp name) (\<lambda>r. case r of
       Some (ip, _) \<Rightarrow>
         kbind (kseq [iunlockput dp, ilock (Some ip)]) (\<lambda>_.
         kbind (get_inode ip) (\<lambda>i.
         if ty = T_FILE \<and> i_type i = T_FILE then kreturn (Some ip)
         else kbind (iunlockput ip) (\<lambda>_. kreturn None)))
     | None \<Rightarrow>
         kbind (get_inode dp) (\<lambda>d.
         kbind (ialloc (i_dev d) ty) (\<lambda>ip.
         kbind (kseq [
           ilock (Some ip),
           upd_inode ip (\<lambda>i. i\<lparr>i_major := major, i_minor := minor, i_nlink := 1\<rparr>),
           iupdate ip]) (\<lambda>_.
         kbind (get_inode ip) (\<lambda>i.
         kbind (kwhen (ty = T_DIR) (kseq [
           upd_inode dp (\<lambda>d. d\<lparr>i_nlink := i_nlink d + 1\<rparr>),
           iupdate dp,
           kbind (dirlink ip [46] (i_inum i)) (\<lambda>r1.
             kbind (if r1 < 0 then kreturn (- 1) else dirlink ip [46, 46] (i_inum d)) (\<lambda>r2.
             if r2 < 0 then kpanic ''create dots'' else kreturn ()))])) (\<lambda>_.
         kbind (dirlink dp name (i_inum i)) (\<lambda>r.
         if r < 0 then kpanic ''create: dirlink''
         else kbind (iunlockput dp) (\<lambda>_. kreturn (Some ip)))))))))))"

text \<open>The inode to open, locked, or \<open>None\<close> after ending the operation.\<close>

definition open_inode :: "u8 list \<Rightarrow> i32 \<Rightarrow> ('z filest_scheme, nat option) kprog" where
  "open_inode path omode =
     (if omode AND O_CREATE \<noteq> 0
      then kbind (create path T_FILE 0 0) (\<lambda>r. case r of
          None \<Rightarrow> kbind end_op (\<lambda>_. kreturn None)
        | Some ip \<Rightarrow> kreturn (Some ip))
      else kbind (namei path) (\<lambda>r. case r of
          None \<Rightarrow> kbind end_op (\<lambda>_. kreturn None)
        | Some ip \<Rightarrow>
            kbind (ilock (Some ip)) (\<lambda>_.
            kbind (get_inode ip) (\<lambda>i.
            if i_type i = T_DIR \<and> omode \<noteq> O_RDONLY
            then kbind (kseq [iunlockput ip, end_op]) (\<lambda>_. kreturn None)
            else kreturn (Some ip)))))"

definition sys_open :: "('z filest_scheme, int) kprog" where
  "sys_open =
     kbind (argstr 0) (\<lambda>r. case r of None \<Rightarrow> kreturn (- 1) | Some path \<Rightarrow>
     kbind (argint 1) (\<lambda>r. case r of None \<Rightarrow> kreturn (- 1) | Some omode \<Rightarrow>
     kbind begin_op (\<lambda>_.
     kbind (open_inode path omode) (\<lambda>r. case r of None \<Rightarrow> kreturn (- 1) | Some ip \<Rightarrow>
     kbind filealloc (\<lambda>fo.
     kbind (case fo of None \<Rightarrow> kreturn (- 1) | Some f \<Rightarrow> fdalloc f) (\<lambda>fd.
     case fo of
       Some f \<Rightarrow>
         if fd < 0 then kbind (kseq [fileclose f, iunlockput ip, end_op]) (\<lambda>_. kreturn (- 1))
         else kbind (kseq [
             iunlock (Some ip),
             end_op,
             upd_file f (\<lambda>x. x\<lparr>f_type := FD_INODE, f_ip := ip, f_off := 0,
               f_readable := (omode AND O_WRONLY = 0),
               f_writable := (omode AND O_WRONLY \<noteq> 0 \<or> omode AND O_RDWR \<noteq> 0)\<rparr>)]) (\<lambda>_. kreturn fd)
     | None \<Rightarrow> kbind (kseq [iunlockput ip, end_op]) (\<lambda>_. kreturn (- 1))))))))"

definition finish_create :: "nat option \<Rightarrow> ('z filest_scheme, int) kprog" where
  "finish_create r = (case r of
       None \<Rightarrow> kbind end_op (\<lambda>_. kreturn (- 1))
     | Some ip \<Rightarrow> kbind (kseq [iunlockput ip, end_op]) (\<lambda>_. kreturn 0))"

definition sys_mkdir :: "('z filest_scheme, int) kprog" where
  "sys_mkdir =
     kbind begin_op (\<lambda>_.
     kbind (argstr 0) (\<lambda>r.
     kbind (case r of None \<Rightarrow> kreturn None | Some path \<Rightarrow> create path T_DIR 0 0) (\<lambda>r.
     finish_create r)))"

definition sys_mknod :: "('z filest_scheme, int) kprog" where
  "sys_mknod =
     kbind begin_op (\<lambda>_.
     kbind (argstr 0) (\<lambda>p.
     kbind (case p of None \<Rightarrow> kreturn None | Some _ \<Rightarrow> argint 1) (\<lambda>major.
     kbind (case major of None \<Rightarrow> kreturn None | Some _ \<Rightarrow> argint 2) (\<lambda>minor.
     kbind (case (p, major, minor) of
         (Some path, Some ma, Some mi) \<Rightarrow> create path T_DEV (ucast ma) (ucast mi)
       | _ \<Rightarrow> kreturn None) (\<lambda>r.
     finish_create r)))))"

definition sys_chdir :: "('z filest_scheme, int) kprog" where
  "sys_chdir = with_proc (\<lambda>cp.
     kbind begin_op (\<lambda>_.
     kbind (argstr 0) (\<lambda>r.
     kbind (case r of None \<Rightarrow> kreturn None | Some path \<Rightarrow> namei path) (\<lambda>r. case r of
       None \<Rightarrow> kbind end_op (\<lambda>_. kreturn (- 1))
     | Some ip \<Rightarrow>
         kbind (ilock (Some ip)) (\<lambda>_.
         kbind (get_inode ip) (\<lambda>i.
         if i_type i \<noteq> T_DIR then kbind (kseq [iunlockput ip, end_op]) (\<lambda>_. kreturn (- 1))
         else kbind (kseq [
             iunlock (Some ip),
             kbind (kgets (\<lambda>s. cwd (ptable s ! cp))) (\<lambda>c. case c of None \<Rightarrow> kpanic ''trap'' | Some old \<Rightarrow> iput old),
             end_op,
             upd_proc cp (\<lambda>q. q\<lparr>cwd := Some ip\<rparr>)]) (\<lambda>_. kreturn 0)))))))"

subsection \<open>exec and pipe\<close>

text \<open>The vector of argument strings: at most \<open>MAXARG\<close> entries with the final null.\<close>

fun exec_argv :: "nat \<Rightarrow> u32 \<Rightarrow> ('z filest_scheme, u8 list list option) kprog" where
  "exec_argv 0 uargv = kreturn None"
| "exec_argv (Suc left) uargv =
     kbind (fetchint uargv) (\<lambda>r. case r of None \<Rightarrow> kreturn None | Some uarg \<Rightarrow>
     if uarg = 0 then kreturn (Some [])
     else kbind (fetchstr uarg) (\<lambda>r. case r of None \<Rightarrow> kreturn None | Some s \<Rightarrow>
       kbind (exec_argv left (uargv + 4)) (\<lambda>r. kreturn (map_option (\<lambda>l. s # l) r))))"

definition sys_exec :: "('z filest_scheme) devsw \<Rightarrow> ('z filest_scheme, int) kprog" where
  "sys_exec devsw =
     kbind (argstr 0) (\<lambda>r. case r of None \<Rightarrow> kreturn (- 1) | Some path \<Rightarrow>
     kbind (argint 1) (\<lambda>r. case r of None \<Rightarrow> kreturn (- 1) | Some uargv \<Rightarrow>
     kbind (exec_argv MAXARG uargv) (\<lambda>r. case r of None \<Rightarrow> kreturn (- 1) | Some argv \<Rightarrow>
     exec devsw path argv)))"

definition sys_pipe :: "('z filest_scheme, int) kprog" where
  "sys_pipe =
     kbind (argptr 0 8) (\<lambda>r. case r of None \<Rightarrow> kreturn (- 1) | Some fdp \<Rightarrow>
     kbind pipealloc (\<lambda>r. case r of None \<Rightarrow> kreturn (- 1) | Some (rdf, wrf) \<Rightarrow>
     kbind (fdalloc rdf) (\<lambda>fd0.
     kbind (if fd0 < 0 then kreturn (- 1) else fdalloc wrf) (\<lambda>fd1.
     if fd0 < 0 \<or> fd1 < 0
     then kbind (kseq [
         kwhen (fd0 \<ge> 0) (clear_fd (nat fd0)),
         fileclose rdf,
         fileclose wrf]) (\<lambda>_. kreturn (- 1))
     else kbind (kseq [uput fdp (le32 (of_int fd0)), uput (fdp + 4) (le32 (of_int fd1))]) (\<lambda>_. kreturn 0)))))"

end
