(* ===== verification/Kbd.thy ===== *)
theory Kbd
  imports Prelude
begin

text \<open>
  The keyboard, \<^verbatim>\<open>src/kbd.c\<close> and the tables of \<^verbatim>\<open>src/kbd.h\<close>. \<open>kbd_step\<close> is \<^verbatim>\<open>kbdgetc\<close> from the point where a
  scan code has been read; the static variable \<^verbatim>\<open>shift\<close> is an argument and a result.
\<close>

definition SHIFT :: u32 where "SHIFT = 1"
definition CTL :: u32 where "CTL = 2"
definition ALT :: u32 where "ALT = 4"
definition CAPSLOCK :: u32 where "CAPSLOCK = 8"
definition NUMLOCK :: u32 where "NUMLOCK = 16"
definition SCROLLLOCK :: u32 where "SCROLLLOCK = 32"
definition E0ESC :: u32 where "E0ESC = 64"

text \<open>An array with an initial row of entries and designated ones; the rest is zero.\<close>

definition keytable :: "u8 list \<Rightarrow> (nat \<times> u8) list \<Rightarrow> u8 \<Rightarrow> u8" where
  "keytable row des k = (case map_of des (unat k) of
     Some v \<Rightarrow> v
   | None \<Rightarrow> if unat k < length row then row ! unat k else 0)"

definition shiftcode :: "u8 \<Rightarrow> u8" where
  "shiftcode = keytable
    []
    [(0x1D, 2), (0x2A, 1), (0x36, 1), (0x38, 4), (0x9D, 2), (0xB8, 4)]"

definition togglecode :: "u8 \<Rightarrow> u8" where
  "togglecode = keytable
    []
    [(0x3A, 8), (0x45, 16), (0x46, 32)]"

definition normalmap :: "u8 \<Rightarrow> u8" where
  "normalmap = keytable
    [0, 27, 49, 50, 51, 52, 53, 54, 55, 56, 57, 48, 45, 61, 8, 9,
     113, 119, 101, 114, 116, 121, 117, 105, 111, 112, 91, 93, 10, 0, 97, 115,
     100, 102, 103, 104, 106, 107, 108, 59, 39, 96, 0, 92, 122, 120, 99, 118,
     98, 110, 109, 44, 46, 47, 0, 42, 0, 32, 0, 0, 0, 0, 0, 0,
     0, 0, 0, 0, 0, 0, 0, 55, 56, 57, 45, 52, 53, 54, 43, 49,
     50, 51, 48, 46, 0, 0, 0, 0]
    [(0x9C, 10), (0xB5, 47), (0xC8, 226), (0xD0, 227), (0xC9, 230), (0xD1, 231), (0xCB, 228), (0xCD, 229), (0x97, 224), (0xCF, 225), (0xD2, 232), (0xD3, 233)]"

definition shiftmap :: "u8 \<Rightarrow> u8" where
  "shiftmap = keytable
    [0, 27, 33, 64, 35, 36, 37, 94, 38, 42, 40, 41, 95, 43, 8, 9,
     81, 87, 69, 82, 84, 89, 85, 73, 79, 80, 123, 125, 10, 0, 65, 83,
     68, 70, 71, 72, 74, 75, 76, 58, 34, 126, 0, 124, 90, 88, 67, 86,
     66, 78, 77, 60, 62, 63, 0, 42, 0, 32, 0, 0, 0, 0, 0, 0,
     0, 0, 0, 0, 0, 0, 0, 55, 56, 57, 45, 52, 53, 54, 43, 49,
     50, 51, 48, 46, 0, 0, 0, 0]
    [(0x9C, 10), (0xB5, 47), (0xC8, 226), (0xD0, 227), (0xC9, 230), (0xD1, 231), (0xCB, 228), (0xCD, 229), (0x97, 224), (0xCF, 225), (0xD2, 232), (0xD3, 233)]"

definition ctlmap :: "u8 \<Rightarrow> u8" where
  "ctlmap = keytable
    [0, 0, 0, 0, 0, 0, 0, 0, 0, 0, 0, 0, 0, 0, 0, 0,
     17, 23, 5, 18, 20, 25, 21, 9, 15, 16, 0, 0, 13, 0, 1, 19,
     4, 6, 7, 8, 10, 11, 12, 0, 0, 0, 0, 28, 26, 24, 3, 22,
     2, 14, 13, 0, 0, 239, 0, 0]
    [(0x9C, 13), (0xB5, 239), (0xC8, 226), (0xD0, 227), (0xC9, 230), (0xD1, 231), (0xCB, 228), (0xCD, 229), (0x97, 224), (0xCF, 225), (0xD2, 232), (0xD3, 233)]"

definition charcode :: "u32 \<Rightarrow> u8 \<Rightarrow> u8" where
  "charcode i = [normalmap, shiftmap, ctlmap, ctlmap] ! unat i"

definition kbd_step :: "u32 \<Rightarrow> u8 \<Rightarrow> u32 \<times> u32" where
  "kbd_step shift dat =
     (if dat = 0xE0 then (0, shift OR E0ESC)
      else if dat AND 0x80 \<noteq> 0 then
        (let dat = (if shift AND E0ESC \<noteq> 0 then dat else dat AND 0x7F)
         in (0, shift AND NOT (ucast (shiftcode dat) OR E0ESC)))
      else
        (let (dat, shift) = (if shift AND E0ESC \<noteq> 0 then (dat OR 0x80, shift AND NOT E0ESC) else (dat, shift));
             shift = shift OR ucast (shiftcode dat);
             shift = xor shift (ucast (togglecode dat));
             c = ucast (charcode (shift AND (CTL OR SHIFT)) dat) :: u32;
             c = (if shift AND CAPSLOCK \<noteq> 0 then
                    (if 97 \<le> c \<and> c \<le> 122 then c + (65 - 97)
                     else if 65 \<le> c \<and> c \<le> 90 then c + (97 - 65)
                     else c)
                  else c)
         in (c, shift)))"

text \<open>The characters delivered for a sequence of scan codes.\<close>

fun kbd_chars :: "u32 \<Rightarrow> u8 list \<Rightarrow> u32 list \<times> u32" where
  "kbd_chars shift [] = ([], shift)"
| "kbd_chars shift (d # ds) = (let (c, shift) = kbd_step shift d; (cs, shift) = kbd_chars shift ds in (c # cs, shift))"

subsection \<open>Letters\<close>

text \<open>The scan codes of the letters \<^verbatim>\<open>a\<close> to \<^verbatim>\<open>z\<close>.\<close>

definition letter_keys :: "u8 list" where
  "letter_keys = [0x1E, 0x30, 0x2E, 0x20, 0x12, 0x21, 0x22, 0x23, 0x17, 0x24, 0x25, 0x26, 0x32, 0x31, 0x18, 0x19, 0x10,
     0x13, 0x1F, 0x14, 0x16, 0x2F, 0x11, 0x2D, 0x15, 0x2C]"

text \<open>What a letter key yields: a control code, or the letter in one of its two cases.\<close>

definition letter_char :: "bool \<Rightarrow> bool \<Rightarrow> bool \<Rightarrow> nat \<Rightarrow> nat" where
  "letter_char ctl sh caps k = (if ctl then k + 1 else if sh = caps then 97 + k else 65 + k)"

lemma letter_keys_plain:
  "list_all (\<lambda>d. d \<noteq> 0xE0 \<and> d AND 0x80 = 0 \<and> shiftcode d = 0 \<and> togglecode d = 0) letter_keys"
  by code_simp

lemma letter_keys_map:
  "list_all (\<lambda>k. (let c = ucast (charcode ((if ctl then 2 else 0) OR (if sh then 1 else 0)) (letter_keys ! k)) :: u32
      in if caps then (if 97 \<le> c \<and> c \<le> 122 then c + (65 - 97) else if 65 \<le> c \<and> c \<le> 90 then c + (97 - 65) else c) else c) =
     of_nat (letter_char ctl sh caps k)) [0..<26]"
  by (cases ctl; cases sh; cases caps) (simp only:, code_simp)+

lemma kbd_step_plain:
  assumes "d \<noteq> 0xE0" "d AND 0x80 = 0" "shiftcode d = 0" "togglecode d = 0" "shift AND E0ESC = 0"
  shows "kbd_step shift d = (let c = ucast (charcode (shift AND (CTL OR SHIFT)) d) :: u32
      in if shift AND CAPSLOCK \<noteq> 0 then (if 97 \<le> c \<and> c \<le> 122 then c + (65 - 97) else if 65 \<le> c \<and> c \<le> 90 then c + (97 - 65) else c) else c,
    shift)"
  using assms by (simp add: kbd_step_def Let_def)

text \<open>The index into \<open>charcode\<close> depends on two bits of the modifier word.\<close>

lemma charcode_index:
  "shift AND (CTL OR SHIFT) = (if shift AND CTL \<noteq> 0 then 2 else 0) OR (if shift AND SHIFT \<noteq> 0 then 1 else 0)" for shift :: u32
proof -
  have b: "shift AND CTL = (if bit shift 1 then 2 else 0)" "shift AND SHIFT = (if bit shift 0 then 1 else 0)"
    by (rule bit_word_eqI, auto simp: CTL_def SHIFT_def bit_simps bit_2_iff bit_1_iff intro: gr0I)+
  have "shift AND (CTL OR SHIFT) = (shift AND CTL) OR (shift AND SHIFT)" by (rule bit.conj_disj_distrib)
  then show ?thesis using b by simp
qed

text \<open>
  C27. What the keyboard driver delivers for a letter key, in every state of the modifiers in which no
  \<^verbatim>\<open>E0\<close> prefix is pending: with control down the control code of the letter, and otherwise the
  letter in upper case exactly when one of shift and caps lock is active. The modifier state, the
  other locks and keys included, stays as it is.
\<close>

theorem kbd_letter_case:
  assumes "k < 26" "shift AND E0ESC = 0"
  shows "kbd_step shift (letter_keys ! k) =
    (of_nat (letter_char (shift AND CTL \<noteq> 0) (shift AND SHIFT \<noteq> 0) (shift AND CAPSLOCK \<noteq> 0) k), shift)"
proof -
  let ?d = "letter_keys ! k"
  have "?d \<in> set letter_keys" using assms(1) by (intro nth_mem) (simp add: letter_keys_def)
  then have d: "?d \<noteq> 0xE0" "?d AND 0x80 = 0" "shiftcode ?d = 0" "togglecode ?d = 0"
    using letter_keys_plain by (auto simp: list_all_iff)
  have "k \<in> set [0..<26]" using assms(1) by simp
  then have "(let c = ucast (charcode (shift AND (CTL OR SHIFT)) ?d) :: u32
      in if shift AND CAPSLOCK \<noteq> 0 then (if 97 \<le> c \<and> c \<le> 122 then c + (65 - 97) else if 65 \<le> c \<and> c \<le> 90 then c + (97 - 65) else c) else c) =
     of_nat (letter_char (shift AND CTL \<noteq> 0) (shift AND SHIFT \<noteq> 0) (shift AND CAPSLOCK \<noteq> 0) k)"
    unfolding charcode_index using letter_keys_map[of "shift AND CTL \<noteq> 0" "shift AND SHIFT \<noteq> 0" "shift AND CAPSLOCK \<noteq> 0"]
    unfolding list_all_iff by blast
  then show ?thesis using kbd_step_plain[OF d assms(2)] by (simp only:)
qed

theorem kbd_letter_case_witness:
  "kbd_step (SHIFT OR NUMLOCK) (letter_keys ! 2) = (67, SHIFT OR NUMLOCK) \<and> kbd_step (CTL OR CAPSLOCK) (letter_keys ! 2) = (3, CTL OR CAPSLOCK)"
proof -
  have "kbd_step (SHIFT OR NUMLOCK) (letter_keys ! 2) = (of_nat (letter_char False True False 2), SHIFT OR NUMLOCK)"
    using kbd_letter_case[of 2 "SHIFT OR NUMLOCK"] by (simp add: SHIFT_def CTL_def CAPSLOCK_def NUMLOCK_def E0ESC_def)
  moreover have "kbd_step (CTL OR CAPSLOCK) (letter_keys ! 2) = (of_nat (letter_char True False True 2), CTL OR CAPSLOCK)"
    using kbd_letter_case[of 2 "CTL OR CAPSLOCK"] by (simp add: SHIFT_def CTL_def CAPSLOCK_def E0ESC_def)
  ultimately show ?thesis by (simp add: letter_char_def)
qed

end
