(* ===== verification/Console.thy ===== *)
theory Console
  imports Lifecycle Kbd
begin

text \<open>
  The console, \<^verbatim>\<open>src/console.c\<close>, with the serial port it prints to (\<^verbatim>\<open>src/uart.c\<close>) and the keyboard. The CGA
  screen is the array \<open>crt\<close> of 2000 cells with the cursor register \<open>crt_pos\<close>; the bytes sent to the serial
  port are collected in \<open>uart_out\<close>. An interrupt handler gets the characters (or scan codes) that the
  device has ready.
\<close>

subsection \<open>State\<close>

definition INPUT_BUF :: nat where "INPUT_BUF = 128"
definition BACKSPACE :: int where "BACKSPACE = 256"
definition CONSOLE :: nat where "CONSOLE = 1"

text \<open>\<^verbatim>\<open>C(x)\<close>: the control character of a letter.\<close>

definition ctrl :: "char \<Rightarrow> int" where "ctrl c = of_char c - 64"

record consst = kst +
  cons_locking :: bool
  panicked :: bool
  uart :: bool
  uart_out :: "u8 list"
  crt :: "u16 list"
  crt_pos :: u16
  in_buf :: "u8 list"
  in_r :: u32
  in_w :: u32
  in_e :: u32
  kbd_shift :: u32

subsection \<open>Output\<close>

definition uartputc :: "int \<Rightarrow> ('z consst_scheme, unit) kprog" where
  "uartputc c = kbind (kgets uart) (\<lambda>u. kwhen u (kmodify (\<lambda>s. s\<lparr>uart_out := uart_out s @ [of_int c]\<rparr>)))"

definition cgaputc :: "int \<Rightarrow> ('z consst_scheme, unit) kprog" where
  "cgaputc c =
     kbind (kgets (\<lambda>s. int (unat (crt_pos s)))) (\<lambda>pos.
     kbind (if c = 10 then kreturn (pos + (80 - pos mod 80))
            else if c = BACKSPACE then kreturn (if pos > 0 then pos - 1 else pos)
            else kbind (kmodify (\<lambda>s. s\<lparr>crt := (crt s)[nat pos := (of_int c AND 0xFF) OR 0x700]\<rparr>)) (\<lambda>_.
              kreturn (pos + 1))) (\<lambda>pos.
     if pos < 0 \<or> pos > 25 * 80 then kpanic ''pos under/overflow''
     else kbind (if pos div 80 \<ge> 24
                 then kbind (kmodify (\<lambda>s. s\<lparr>crt := put_at 0 (sub_bytes 80 (23 * 80) (crt s)) (crt s)\<rparr>)) (\<lambda>_.
                   kbind (kmodify (\<lambda>s. s\<lparr>crt := put_at (nat (pos - 80)) (replicate (24 * 80 - nat (pos - 80)) 0) (crt s)\<rparr>)) (\<lambda>_.
                   kreturn (pos - 80)))
                 else kreturn pos) (\<lambda>pos. kseq [
       kmodify (\<lambda>s. s\<lparr>crt_pos := of_int pos\<rparr>),
       kmodify (\<lambda>s. s\<lparr>crt := (crt s)[nat pos := 32 OR 0x700]\<rparr>)])))"

definition consputc :: "int \<Rightarrow> ('z consst_scheme, unit) kprog" where
  "consputc c =
     kbind (kgets panicked) (\<lambda>p.
     if p then kdiverge
     else kseq [
       if c = BACKSPACE then kseq [uartputc 8, uartputc 32, uartputc 8] else uartputc c,
       cgaputc c])"

text \<open>
  \<^verbatim>\<open>printint\<close>: the digits of \<open>x\<close>, last one first as the loop produces them, and the printed characters.
\<close>

definition digit_char :: "u32 \<Rightarrow> u8" where
  "digit_char d = map (of_nat \<circ> of_char) ''0123456789abcdef'' ! unat d"

function printint_digits :: "u32 \<Rightarrow> u32 \<Rightarrow> u8 list" where
  "printint_digits base x =
     digit_char (x mod base) # (if x div base \<noteq> 0 \<and> base > 1 then printint_digits base (x div base) else [])"
  by pat_completeness auto
termination
proof (relation "measure (\<lambda>(base, x). unat x)")
  fix base x :: u32
  assume a: "x div base \<noteq> 0 \<and> base > 1"
  then have "1 < unat base" by (simp add: word_less_nat_alt)
  moreover have "0 < unat x" using a by (metis div_0 unat_gt_0)
  ultimately have "unat x div unat base < unat x" by simp
  then show "((base, x div base), (base, x)) \<in> measure (\<lambda>(base, x). unat x)" by (simp add: unat_div)
qed simp

declare printint_digits.simps [simp del]

definition printint :: "i32 \<Rightarrow> u32 \<Rightarrow> bool \<Rightarrow> u8 list" where
  "printint xx base sg =
     (let neg = (sg \<and> sint xx < 0); x = (if neg then - xx else xx)
      in (if neg then [45] else []) @ rev (printint_digits base x))"

text \<open>The arguments of \<^verbatim>\<open>cprintf\<close>: words, and pointers to strings, which may be null.\<close>

datatype carg = CInt u32 | CStr "u8 list option"

text \<open>What \<^verbatim>\<open>cprintf\<close> prints; \<open>None\<close> when it would read an argument that was not passed.\<close>

fun cformat :: "u8 list \<Rightarrow> carg list \<Rightarrow> u8 list option" where
  "cformat [] args = Some []"
| "cformat (c # cs) args =
     (if c \<noteq> 37 then map_option (\<lambda>r. c # r) (cformat cs args)
      else case cs of
        [] \<Rightarrow> Some []
      | d # ds \<Rightarrow>
          if d = 100 then (case args of CInt x # args \<Rightarrow> map_option (\<lambda>r. printint x 10 True @ r) (cformat ds args) | _ \<Rightarrow> None)
          else if d = 120 \<or> d = 112 then (case args of CInt x # args \<Rightarrow> map_option (\<lambda>r. printint x 16 False @ r) (cformat ds args) | _ \<Rightarrow> None)
          else if d = 115 then (case args of
              CStr None # args \<Rightarrow> map_option (\<lambda>r. map (of_nat \<circ> of_char) ''(null)'' @ r) (cformat ds args)
            | CStr (Some t) # args \<Rightarrow> map_option (\<lambda>r. cstr t @ r) (cformat ds args)
            | _ \<Rightarrow> None)
          else if d = 37 then map_option (\<lambda>r. 37 # r) (cformat ds args)
          else map_option (\<lambda>r. 37 # d # r) (cformat ds args))"

definition ascii :: "string \<Rightarrow> u8 list" where
  "ascii str = map (of_nat \<circ> of_char) str"

definition cprintf_console :: "u8 list \<Rightarrow> carg list \<Rightarrow> ('z consst_scheme, unit) kprog" where
  "cprintf_console fmt args =
     kbind (kgets cons_locking) (\<lambda>locking.
     kbind (kwhen locking (lk_acquire LK_cons)) (\<lambda>_.
     kbind (case cformat fmt args of None \<Rightarrow> kpanic ''trap'' | Some out \<Rightarrow> kfor out (\<lambda>c. consputc (int (unat c)))) (\<lambda>_.
     kwhen locking (lk_release LK_cons))))"

definition procdump_state :: "procstate \<Rightarrow> string" where
  "procdump_state st = (case st of UNUSED \<Rightarrow> ''unused'' | EMBRYO \<Rightarrow> ''embryo'' | SLEEPING \<Rightarrow> ''sleep ''
     | RUNNABLE \<Rightarrow> ''runble'' | RUNNING \<Rightarrow> ''run   '' | ZOMBIE \<Rightarrow> ''zombie'')"

text \<open>The saved \<^verbatim>\<open>%ebp\<close> is at offset 12 of \<^verbatim>\<open>struct context\<close>.\<close>

definition procdump :: "('z consst_scheme, unit) kprog" where
  "procdump =
     kbind (kgets ptable) (\<lambda>pt.
     kfor pt (\<lambda>p. kwhen (pstate p \<noteq> UNUSED) (kseq [
       cprintf_console (ascii ''%d %s %s'') [CInt (pid p), CStr (Some (ascii (procdump_state (pstate p)))), CStr (Some (pname p))],
       kwhen (pstate p = SLEEPING) (
         kbind (kgets kmemory) (\<lambda>m.
         let pcs = getcallerpcs (load32 m) (load32 m (pcontext p + 12))
         in kfor (takeWhile (\<lambda>pc. pc \<noteq> 0) (take 10 pcs)) (\<lambda>pc. cprintf_console (ascii '' %p'') [CInt pc]))),
       cprintf_console [10] []])))"

subsection \<open>Input\<close>

text \<open>The characters come from \<^verbatim>\<open>getc\<close>, up to the first negative result.\<close>

function kill_line :: "nat \<Rightarrow> ('z consst_scheme, unit) kprog" where
  "kill_line left =
     kbind (kgets id) (\<lambda>s.
     if left \<noteq> 0 \<and> in_e s \<noteq> in_w s \<and> in_buf s ! (unat (in_e s - 1) mod INPUT_BUF) \<noteq> 10
     then kbind (kseq [kmodify (\<lambda>s. s\<lparr>in_e := in_e s - 1\<rparr>), consputc BACKSPACE]) (\<lambda>_. kill_line (left - 1))
     else kreturn ())"
  by pat_completeness auto
termination by (relation "measure id") auto

declare kill_line.simps [simp del]

definition consoleintr_char :: "int \<Rightarrow> ('z consst_scheme, bool) kprog" where
  "consoleintr_char c =
     (if c = ctrl (CHR ''P'') then kreturn True
      else if c = ctrl (CHR ''U'')
      then kbind (kbind (kgets (\<lambda>s. unat (in_e s - in_w s))) kill_line) (\<lambda>_. kreturn False)
      else if c = ctrl (CHR ''H'') \<or> c = 127
      then kbind (kgets id) (\<lambda>s.
        kbind (kwhen (in_e s \<noteq> in_w s) (kseq [
          kmodify (\<lambda>s. s\<lparr>in_e := in_e s - 1\<rparr>),
          consputc BACKSPACE])) (\<lambda>_. kreturn False))
      else kbind (kgets id) (\<lambda>s.
        kbind (kwhen (c \<noteq> 0 \<and> in_e s - in_r s < of_nat INPUT_BUF) (
          let c = (if c = 13 then 10 else c)
          in kseq [
            kmodify (\<lambda>s. s\<lparr>in_buf := (in_buf s)[unat (in_e s) mod INPUT_BUF := of_int c], in_e := in_e s + 1\<rparr>),
            consputc c,
            kbind (kgets id) (\<lambda>s.
              kwhen (c = 10 \<or> c = ctrl (CHR ''D'') \<or> in_e s = in_r s + of_nat INPUT_BUF) (kseq [
                kmodify (\<lambda>s. s\<lparr>in_w := in_e s\<rparr>),
                wakeup Ch_input]))])) (\<lambda>_. kreturn False)))"

fun consoleintr_loop :: "int list \<Rightarrow> bool \<Rightarrow> ('z consst_scheme, bool) kprog" where
  "consoleintr_loop [] dump = kreturn dump"
| "consoleintr_loop (c # cs) dump =
     (if c < 0 then kreturn dump
      else kbind (consoleintr_char c) (\<lambda>d. consoleintr_loop cs (dump \<or> d)))"

definition consoleintr :: "int list \<Rightarrow> ('z consst_scheme, unit) kprog" where
  "consoleintr cs =
     kbind (lk_acquire LK_cons) (\<lambda>_.
     kbind (consoleintr_loop cs False) (\<lambda>dump.
     kbind (lk_release LK_cons) (\<lambda>_.
     kwhen dump procdump)))"

text \<open>
  The loop of \<open>consoleread\<close> with \<open>n\<close> bytes still wanted; it returns how many are left and the bytes.
  A process that has slept continues with what it still wants.
\<close>

fun consoleread_loop :: "nat \<Rightarrow> nat \<Rightarrow> nat \<Rightarrow> ('z consst_scheme, (nat \<times> u8 list) option) kprog" where
  "consoleread_loop ip target 0 = kreturn (Some (0, []))"
| "consoleread_loop ip target (Suc n) =
     kbind (kgets id) (\<lambda>s.
     if in_r s = in_w s
     then kbind (myproc_get killed) (\<lambda>k.
       if k then kreturn None else sleep Ch_input LK_cons)
     else let c = in_buf s ! (unat (in_r s) mod INPUT_BUF)
       in kbind (kmodify (\<lambda>s. s\<lparr>in_r := in_r s + 1\<rparr>)) (\<lambda>_.
          if c = of_int (ctrl (CHR ''D''))
          then kbind (kwhen (Suc n < target) (kmodify (\<lambda>s. s\<lparr>in_r := in_r s - 1\<rparr>))) (\<lambda>_. kreturn (Some (Suc n, [])))
          else if c = 10 then kreturn (Some (n, [c]))
          else kbind (consoleread_loop ip target n) (\<lambda>r. kreturn (map_option (\<lambda>(m, cs). (m, c # cs)) r))))"

definition consoleread :: "nat \<Rightarrow> i32 \<Rightarrow> ('z consst_scheme, int \<times> u8 list) kprog" where
  "consoleread ip n =
     kbind (kseq [iunlock (Some ip), lk_acquire LK_cons]) (\<lambda>_.
     kbind (consoleread_loop ip (unat n) (nat (sint n))) (\<lambda>r.
     kbind (kseq [lk_release LK_cons, ilock (Some ip)]) (\<lambda>_.
     case r of
       None \<Rightarrow> kreturn (- 1, [])
     | Some (left, cs) \<Rightarrow> kreturn (if sint n < 0 then 0 else int (nat (sint n) - left), cs))))"

definition consolewrite :: "nat \<Rightarrow> u8 list \<Rightarrow> ('z consst_scheme, int) kprog" where
  "consolewrite ip buf =
     kbind (kseq [
       iunlock (Some ip),
       lk_acquire LK_cons,
       kfor buf (\<lambda>c. consputc (int (unat c))),
       lk_release LK_cons,
       ilock (Some ip)]) (\<lambda>_. kreturn (int (length buf)))"

text \<open>\<open>consoleinit\<close> fills the device switch; the state keeps the rest of what it does.\<close>

definition console_devsw :: "('z consst_scheme) devsw" where
  "console_devsw = (\<lambda>_. (None, None))(CONSOLE := (Some consoleread, Some consolewrite))"

definition consoleinit :: "('z consst_scheme, unit) kprog" where
  "consoleinit = kseq [lk_init LK_cons, kmodify (\<lambda>s. s\<lparr>cons_locking := True\<rparr>)]"

subsection \<open>The devices\<close>

definition uartintr :: "u8 list \<Rightarrow> ('z consst_scheme, unit) kprog" where
  "uartintr bs = kbind (kgets uart) (\<lambda>u. consoleintr (if u then map (\<lambda>b. int (unat b)) bs else []))"

definition kbdintr :: "u8 list \<Rightarrow> ('z consst_scheme, unit) kprog" where
  "kbdintr codes =
     kbind (kgets kbd_shift) (\<lambda>sh.
     let (cs, sh) = kbd_chars sh codes
     in kbind (kmodify (\<lambda>s. s\<lparr>kbd_shift := sh\<rparr>)) (\<lambda>_. consoleintr (map (\<lambda>c. int (unat c)) cs)))"

end
