(* ===== verification/Syscall.thy ===== *)
theory Syscall
  imports Sysfile Console
begin

text \<open>
  The process system calls, \<^verbatim>\<open>src/sysproc.c\<close>, the dispatch of system calls, the second half of
  \<^verbatim>\<open>src/syscall.c\<close>, and interrupts, \<^verbatim>\<open>src/trap.c\<close>. A call that switches away ends in \<open>Sleep\<close>;
  \<open>yield\<close> is followed by \<open>sys_yield_resume\<close>, and the timer tick by \<open>trap_resume\<close>, when the process runs again.
\<close>

text \<open>A gate of the interrupt descriptor table; \<^verbatim>\<open>STS_IG32\<close> is 14 and \<^verbatim>\<open>STS_TG32\<close> 15.\<close>

record gatedesc =
  g_off_15_0 :: u16
  g_cs :: u16
  g_args :: nat
  g_rsv1 :: nat
  g_type :: nat
  g_s :: nat
  g_dpl :: nat
  g_p :: nat
  g_off_31_16 :: u16

definition SETGATE :: "bool \<Rightarrow> u16 \<Rightarrow> u32 \<Rightarrow> nat \<Rightarrow> gatedesc" where
  "SETGATE istrap sel off d = \<lparr>g_off_15_0 = ucast off, g_cs = sel, g_args = 0, g_rsv1 = 0, g_type = (if istrap then 15 else 14),
     g_s = 0, g_dpl = d, g_p = 1, g_off_31_16 = ucast (drop_bit 16 off)\<rparr>"

record sysst = consst +
  ticks :: u32
  idt :: "gatedesc list"
  lapic :: u32
  lapic_eois :: nat

text \<open>The value of a function that returns \<^verbatim>\<open>int\<close>, stored in \<^verbatim>\<open>%eax\<close>.\<close>

subsection \<open>sysproc.c\<close>

definition sys_fork :: "('z sysst_scheme, int) kprog" where
  "sys_fork = fork"

definition sys_exit :: "('z sysst_scheme, int) kprog" where
  "sys_exit = exit"

definition sys_wait :: "('z sysst_scheme, int) kprog" where
  "sys_wait = wait"

definition sys_kill :: "('z sysst_scheme, int) kprog" where
  "sys_kill = kbind (argint 0) (\<lambda>r. case r of None \<Rightarrow> kreturn (- 1) | Some pd \<Rightarrow> kill pd)"

definition sys_getpid :: "('z sysst_scheme, int) kprog" where
  "sys_getpid = myproc_get (\<lambda>p. sint (pid p))"

definition sys_sbrk :: "('z sysst_scheme, int) kprog" where
  "sys_sbrk =
     kbind (argint 0) (\<lambda>r. case r of None \<Rightarrow> kreturn (- 1) | Some n \<Rightarrow>
     kbind (myproc_get sz) (\<lambda>addr.
     kbind (growproc n) (\<lambda>r.
     kreturn (if r < 0 then - 1 else sint addr))))"

text \<open>The comparison \<^verbatim>\<open>ticks - ticks0 < n\<close> is between unsigned values.\<close>

definition sys_sleep_loop :: "u32 \<Rightarrow> i32 \<Rightarrow> ('z sysst_scheme, int) kprog" where
  "sys_sleep_loop ticks0 n =
     kbind (kgets ticks) (\<lambda>tk.
     if tk - ticks0 < n
     then kbind (myproc_get killed) (\<lambda>k.
       if k then kbind (lk_release LK_ticks) (\<lambda>_. kreturn (- 1))
       else sleep Ch_ticks LK_ticks)
     else kbind (lk_release LK_ticks) (\<lambda>_. kreturn 0))"

definition sys_sleep :: "('z sysst_scheme, int) kprog" where
  "sys_sleep =
     kbind (argint 0) (\<lambda>r. case r of None \<Rightarrow> kreturn (- 1) | Some n \<Rightarrow>
     kbind (lk_acquire LK_ticks) (\<lambda>_.
     kbind (kgets ticks) (\<lambda>ticks0.
     sys_sleep_loop ticks0 n)))"

definition sys_uptime :: "('z sysst_scheme, int) kprog" where
  "sys_uptime =
     kbind (lk_acquire LK_ticks) (\<lambda>_.
     kbind (kgets ticks) (\<lambda>xticks.
     kbind (lk_release LK_ticks) (\<lambda>_.
     kreturn (sint xticks))))"

definition sys_settickets :: "('z sysst_scheme, int) kprog" where
  "sys_settickets =
     kbind (argint 0) (\<lambda>r. case r of None \<Rightarrow> kreturn (- 1) | Some pd \<Rightarrow>
     kbind (argint 1) (\<lambda>r. case r of None \<Rightarrow> kreturn (- 1) | Some n \<Rightarrow>
     settickets pd n))"

definition sys_yield :: "('z sysst_scheme, int) kprog" where
  "sys_yield = kbind yield (\<lambda>_. with_proc (\<lambda>cp s. Sleep (Ch_proc cp) s))"

definition sys_yield_resume :: "('z sysst_scheme, int) kprog" where
  "sys_yield_resume = kbind yield_resume (\<lambda>_. kreturn 0)"

definition sys_getrunticks :: "('z sysst_scheme, int) kprog" where
  "sys_getrunticks = myproc_get (\<lambda>p. sint (runticks p))"

text \<open>The arguments of \<^verbatim>\<open>ksend\<close> and \<^verbatim>\<open>krecv\<close>: channel, length and buffer, in the order they are checked.\<close>

definition mailbox_args :: "('z sysst_scheme, (i32 \<times> i32 \<times> u32) option) kprog" where
  "mailbox_args =
     kbind (argint 0) (\<lambda>r. case r of None \<Rightarrow> kreturn None | Some ch \<Rightarrow>
     kbind (argint 2) (\<lambda>r. case r of None \<Rightarrow> kreturn None | Some len \<Rightarrow>
     kbind (argptr 1 len) (\<lambda>r. case r of None \<Rightarrow> kreturn None | Some buf \<Rightarrow>
     kreturn (Some (ch, len, buf)))))"

text \<open>
  \<open>ksend\<close> takes the message as bytes. They are fetched on entry and not, as in C, after the wait for the
  mailbox: the range has been checked by \<open>argptr\<close>, and nothing else writes the memory of a process that sleeps.
\<close>

definition sys_ksend :: "('z sysst_scheme, int) kprog" where
  "sys_ksend =
     kbind mailbox_args (\<lambda>r. case r of None \<Rightarrow> kreturn (- 1) | Some (ch, len, buf) \<Rightarrow>
     kbind (uget buf (unat len)) (\<lambda>bs.
     ksend ch bs len))"

definition sys_krecv :: "('z sysst_scheme, int) kprog" where
  "sys_krecv =
     kbind mailbox_args (\<lambda>r. case r of None \<Rightarrow> kreturn (- 1) | Some (ch, len, buf) \<Rightarrow>
     kbind (krecv ch len) (\<lambda>(r, bs).
     kbind (uput buf bs) (\<lambda>_.
     kreturn r)))"

subsection \<open>Dispatch\<close>

definition syscalls :: "nat \<Rightarrow> ('z sysst_scheme, int) kprog option" where
  "syscalls num = map_of [
     (1, sys_fork), (2, sys_exit), (3, sys_wait), (4, sys_pipe), (5, sys_read console_devsw), (6, sys_kill),
     (7, sys_exec console_devsw), (8, sys_fstat), (9, sys_chdir), (10, sys_dup), (11, sys_getpid), (12, sys_sbrk),
     (13, sys_sleep), (14, sys_uptime), (15, sys_open), (16, sys_write console_devsw), (17, sys_mknod),
     (18, sys_unlink), (19, sys_link), (20, sys_mkdir), (21, sys_close), (22, sys_settickets), (23, sys_yield),
     (24, sys_ksend), (25, sys_krecv), (26, sys_getrunticks)] num"

definition set_eax :: "int \<Rightarrow> ('z sysst_scheme, unit) kprog" where
  "set_eax r = kbind (myproc_get tf) (\<lambda>t. mput (t + TF_eax) (of_int r))"

definition syscall :: "('z sysst_scheme, unit) kprog" where
  "syscall =
     kbind (myproc_get tf) (\<lambda>t.
     kbind (mget (t + TF_eax)) (\<lambda>num.
     case (if sint num > 0 then syscalls (unat num) else None) of
       Some f \<Rightarrow> kbind f set_eax
     | None \<Rightarrow>
         kbind (myproc_get (\<lambda>p. (pid p, pname p))) (\<lambda>(pd, nm).
         kbind (cprintf_console (ascii ''%d %s: unknown sys call %d'' @ [10]) [CInt pd, CStr (Some nm), CInt num]) (\<lambda>_.
         set_eax (- 1)))))"

subsection \<open>Traps\<close>

definition T_SYSCALL :: u32 where "T_SYSCALL = 64"
definition T_IRQ0 :: u32 where "T_IRQ0 = 32"
definition IRQ_TIMER :: u32 where "IRQ_TIMER = 0"
definition IRQ_KBD :: u32 where "IRQ_KBD = 1"
definition IRQ_COM1 :: u32 where "IRQ_COM1 = 4"
definition IRQ_IDE :: u32 where "IRQ_IDE = 14"
definition IRQ_SPURIOUS :: u32 where "IRQ_SPURIOUS = 31"

text \<open>The entry points \<^verbatim>\<open>vectors\<close> come from a generated file and are an argument.\<close>

definition tvinit :: "(nat \<Rightarrow> u32) \<Rightarrow> ('z sysst_scheme, unit) kprog" where
  "tvinit vectors = kseq [
     kfor [0..<256] (\<lambda>i. kmodify (\<lambda>s. s\<lparr>idt := (idt s)[i := SETGATE False (push_bit 3 (of_nat SEG_KCODE)) (vectors i) 0]\<rparr>)),
     kmodify (\<lambda>s. s\<lparr>idt := (idt s)[unat T_SYSCALL := SETGATE True (push_bit 3 (of_nat SEG_KCODE)) (vectors (unat T_SYSCALL)) (unat DPL_USER)]\<rparr>),
     lk_init LK_ticks]"

text \<open>\<open>lapic\<close> is the address of the local interrupt controller, 0 if there is none; \<open>lapic_eois\<close> counts its acknowledgements.\<close>

definition lapiceoi :: "('z sysst_scheme, unit) kprog" where
  "lapiceoi = kbind (kgets lapic) (\<lambda>l. kwhen (l \<noteq> 0) (kmodify (\<lambda>s. s\<lparr>lapic_eois := Suc (lapic_eois s)\<rparr>)))"

definition timer_tick :: "('z sysst_scheme, unit) kprog" where
  "timer_tick = kseq [
     lk_acquire LK_ticks,
     kmodify (\<lambda>s. s\<lparr>ticks := ticks s + 1\<rparr>),
     wakeup Ch_ticks,
     lk_release LK_ticks]"

text \<open>What an interrupt finds: the CPU it arrives on and what the devices have ready.
  \<^verbatim>\<open>ideintr\<close> is the empty handler of \<^verbatim>\<open>memide.c\<close>, whose disk completes every request at once.\<close>

record irq_env =
  cpu_no :: nat
  kbd_codes :: "u8 list"
  uart_bytes :: "u8 list"
  fault_addr :: u32

definition exit_if_killed :: "u32 \<Rightarrow> ('z sysst_scheme, unit) kprog" where
  "exit_if_killed cs =
     kbind (kgets id) (\<lambda>s. case curproc s of
       None \<Rightarrow> kreturn ()
     | Some p \<Rightarrow> if killed (ptable s ! p) \<and> cs AND 3 = DPL_USER then exit else kreturn ())"

definition trap_dispatch :: "irq_env \<Rightarrow> u32 \<Rightarrow> u32 \<Rightarrow> u32 \<Rightarrow> u32 \<Rightarrow> ('z sysst_scheme, unit) kprog" where
  "trap_dispatch env no cs eip err =
     (if no = T_IRQ0 + IRQ_TIMER then kseq [kwhen (cpu_no env = 0) timer_tick, lapiceoi]
      else if no = T_IRQ0 + IRQ_IDE then lapiceoi
      else if no = T_IRQ0 + IRQ_IDE + 1 then kreturn ()
      else if no = T_IRQ0 + IRQ_KBD then kseq [kbdintr (kbd_codes env), lapiceoi]
      else if no = T_IRQ0 + IRQ_COM1 then kseq [uartintr (uart_bytes env), lapiceoi]
      else if no = T_IRQ0 + 7 \<or> no = T_IRQ0 + IRQ_SPURIOUS
      then kseq [
        cprintf_console (ascii ''cpu%d: spurious interrupt at %x:%x'' @ [10]) [CInt (of_nat (cpu_no env)), CInt cs, CInt eip],
        lapiceoi]
      else kbind (kgets curproc) (\<lambda>po.
        if po = None \<or> cs AND 3 = 0
        then kbind (cprintf_console (ascii ''unexpected trap %d from cpu %d eip %x (cr2=0x%x)'' @ [10])
               [CInt no, CInt (of_nat (cpu_no env)), CInt eip, CInt (fault_addr env)]) (\<lambda>_. kpanic ''trap'')
        else with_proc (\<lambda>p.
          kbind (kgets (\<lambda>s. ptable s ! p)) (\<lambda>q. kseq [
            cprintf_console (ascii ''pid %d %s: trap %d err %d on cpu %d eip 0x%x addr 0x%x--kill proc'' @ [10])
              [CInt (pid q), CStr (Some (pname q)), CInt no, CInt err, CInt (of_nat (cpu_no env)), CInt eip, CInt (fault_addr env)],
            upd_proc p (\<lambda>q. q\<lparr>killed := True\<rparr>)]))))"

text \<open>The end of \<^verbatim>\<open>trap\<close> from the timer's \<^verbatim>\<open>yield\<close> on, when the process runs again.\<close>

definition trap_resume :: "u32 \<Rightarrow> ('z sysst_scheme, unit) kprog" where
  "trap_resume cs = kseq [yield_resume, exit_if_killed cs]"

definition preempt :: "u32 \<Rightarrow> ('z sysst_scheme, unit) kprog" where
  "preempt no =
     kbind (kgets id) (\<lambda>s. case curproc s of
       None \<Rightarrow> kreturn ()
     | Some p \<Rightarrow>
         if pstate (ptable s ! p) = RUNNING \<and> no = T_IRQ0 + IRQ_TIMER
         then kbind (kseq [
             upd_proc p (\<lambda>q. q\<lparr>runticks := runticks q + 1\<rparr>),
             upd_proc p (\<lambda>q. q\<lparr>preempted := True\<rparr>),
             yield]) (\<lambda>_ s. Sleep (Ch_proc p) s)
         else kreturn ())"

definition trap :: "irq_env \<Rightarrow> u32 \<Rightarrow> ('z sysst_scheme, unit) kprog" where
  "trap env t =
     kbind (mget (t + TF_trapno)) (\<lambda>no.
     if no = T_SYSCALL
     then kbind (myproc_get killed) (\<lambda>k.
       kbind (if k then exit else kreturn ()) (\<lambda>_.
       kbind (with_proc (\<lambda>p. upd_proc p (\<lambda>q. q\<lparr>tf := t\<rparr>))) (\<lambda>_.
       kbind syscall (\<lambda>_.
       kbind (myproc_get killed) (\<lambda>k.
       if k then exit else kreturn ())))))
     else kbind (kgets kmemory) (\<lambda>m.
       let cs = ucast (get16 0 [m (t + TF_cs), m (t + TF_cs + 1)])
       in kseq [
         trap_dispatch env no cs (load32 m (t + TF_eip)) (load32 m (t + TF_eip - 4)),
         exit_if_killed cs,
         preempt no,
         exit_if_killed cs]))"

end
