(* ===== verification/Userlib.thy ===== *)
theory Userlib
  imports Cstring
begin

text \<open>
  The user library, \<^verbatim>\<open>src/ulib.c\<close> and \<^verbatim>\<open>src/printf.c\<close>. The string functions work on the memory of the
  process as those of the kernel do; the loops without a bound are \<open>option\<close>-valued, \<open>None\<close> standing for a
  loop that never meets its end. \<open>printf\<close> is the list of bytes it writes one at a time.
\<close>

subsection \<open>\<^verbatim>\<open>ulib.c\<close>\<close>

partial_function (option) ulib_strcpy :: "mem \<Rightarrow> u32 \<Rightarrow> u32 \<Rightarrow> mem option" where
  "ulib_strcpy m s t =
     (let m' = m(s := m t) in if m t \<noteq> 0 then ulib_strcpy m' (s + 1) (t + 1) else Some m')"

partial_function (option) ulib_strcmp :: "mem \<Rightarrow> u32 \<Rightarrow> u32 \<Rightarrow> int option" where
  "ulib_strcmp m p q =
     (if m p \<noteq> 0 \<and> m p = m q then ulib_strcmp m (p + 1) (q + 1) else Some (uint (m p) - uint (m q)))"

partial_function (option) ulib_strlen_loop :: "mem \<Rightarrow> u32 \<Rightarrow> i32 \<Rightarrow> i32 option" where
  "ulib_strlen_loop m s n = (if m (s + n) \<noteq> 0 then ulib_strlen_loop m s (n + 1) else Some n)"

definition ulib_strlen :: "mem \<Rightarrow> u32 \<Rightarrow> u32 option" where
  "ulib_strlen m s = ulib_strlen_loop m s 0"

definition ulib_memset :: "mem \<Rightarrow> u32 \<Rightarrow> u32 \<Rightarrow> u32 \<Rightarrow> mem" where
  "ulib_memset m dst c n = stosb m dst (ucast c) (unat n)"

text \<open>\<open>strchr\<close> returns a pointer, 0 when the character does not occur.\<close>

partial_function (option) ulib_strchr :: "mem \<Rightarrow> u32 \<Rightarrow> u8 \<Rightarrow> u32 option" where
  "ulib_strchr m s c = (if m s = 0 then Some 0 else if m s = c then Some s else ulib_strchr m (s + 1) c)"

text \<open>
  \<open>gets\<close> on the bytes \<open>inp\<close> that successive calls of \<^verbatim>\<open>read(0, &c, 1)\<close> deliver; when none is left \<^verbatim>\<open>read\<close>
  returns less than 1. The result is the new memory and the input that remains.
\<close>

fun gets_loop :: "mem \<Rightarrow> u32 \<Rightarrow> int \<Rightarrow> nat \<Rightarrow> u8 list \<Rightarrow> mem \<times> u8 list" where
  "gets_loop m buf mx i inp =
     (if int i + 1 < mx then
        (case inp of
           [] \<Rightarrow> (m(buf + of_nat i := 0), [])
         | c # inp \<Rightarrow>
             (let m = m(buf + of_nat i := c)
              in if c = 10 \<or> c = 13 then (m(buf + of_nat (Suc i) := 0), inp) else gets_loop m buf mx (Suc i) inp))
      else (m(buf + of_nat i := 0), inp))"

declare gets_loop.simps [simp del]

definition ulib_gets :: "mem \<Rightarrow> u32 \<Rightarrow> i32 \<Rightarrow> u8 list \<Rightarrow> mem \<times> u8 list" where
  "ulib_gets m buf mx inp = gets_loop m buf (sint mx) 0 inp"

partial_function (option) atoi_loop :: "mem \<Rightarrow> u32 \<Rightarrow> i32 \<Rightarrow> i32 option" where
  "atoi_loop m s n = (if 48 \<le> m s \<and> m s \<le> 57 then atoi_loop m (s + 1) (n * 10 + ucast (m s) - 48) else Some n)"

definition ulib_atoi :: "mem \<Rightarrow> u32 \<Rightarrow> i32 option" where
  "ulib_atoi m s = atoi_loop m s 0"

text \<open>Unlike the kernel's, this \<open>memmove\<close> always copies upwards, and takes a signed count.\<close>

definition ulib_memmove :: "mem \<Rightarrow> u32 \<Rightarrow> u32 \<Rightarrow> i32 \<Rightarrow> mem" where
  "ulib_memmove m vdst vsrc n = copy_up m vdst vsrc (nat (sint n))"

subsection \<open>\<^verbatim>\<open>printf.c\<close>\<close>

definition lit :: "string \<Rightarrow> u8 list" where "lit str = map (of_nat \<circ> of_char) str"

definition udigits :: "u8 list" where "udigits = lit ''0123456789ABCDEF''"

text \<open>The loop of \<open>printint\<close> fills \<^verbatim>\<open>buf\<close> from the last digit on.\<close>

function uprint_digits :: "u32 \<Rightarrow> u32 \<Rightarrow> u8 list" where
  "uprint_digits base x =
     udigits ! unat (x mod base) # (if x div base \<noteq> 0 \<and> base > 1 then uprint_digits base (x div base) else [])"
  by pat_completeness auto
termination
proof (relation "measure (\<lambda>(base, x). unat x)")
  fix base x :: u32
  assume a: "x div base \<noteq> 0 \<and> base > 1"
  then have "1 < unat base" by (simp add: word_less_nat_alt)
  moreover have "0 < unat x" using a by (metis div_0 unat_gt_0)
  ultimately have "unat x div unat base < unat x" by simp
  then show "((base, x div base), (base, x)) \<in> measure (\<lambda>(base, x). unat x)" by (simp add: unat_div)
qed simp

declare uprint_digits.simps [simp del]

text \<open>The contents of \<^verbatim>\<open>buf\<close> when the loop has ended, and the bytes printed.\<close>

definition uprint_buf :: "i32 \<Rightarrow> u32 \<Rightarrow> bool \<Rightarrow> u8 list" where
  "uprint_buf xx base sg =
     (let neg = (sg \<and> sint xx < 0); x = (if neg then - xx else xx)
      in uprint_digits base x @ (if neg then [45] else []))"

definition uprintint :: "i32 \<Rightarrow> u32 \<Rightarrow> bool \<Rightarrow> u8 list" where
  "uprintint xx base sg = rev (uprint_buf xx base sg)"

text \<open>The arguments after the format: words, and pointers to strings, which may be null.\<close>

datatype uarg = AInt u32 | AStr "u8 list option"

text \<open>
  One pass over the format: \<open>state\<close> says that the last character was an unread \<^verbatim>\<open>%\<close>. \<open>None\<close> is a format that
  asks for an argument that was not passed or has the other kind.
\<close>

fun uformat :: "bool \<Rightarrow> u8 list \<Rightarrow> uarg list \<Rightarrow> u8 list option" where
  "uformat state [] args = Some []"
| "uformat False (c # cs) args =
     (if c = 37 then uformat True cs args else map_option (\<lambda>r. c # r) (uformat False cs args))"
| "uformat True (c # cs) args =
     (if c = 100 then (case args of AInt x # as \<Rightarrow> map_option (\<lambda>r. uprintint x 10 True @ r) (uformat False cs as) | _ \<Rightarrow> None)
      else if c = 120 \<or> c = 112 then (case args of AInt x # as \<Rightarrow> map_option (\<lambda>r. uprintint x 16 False @ r) (uformat False cs as) | _ \<Rightarrow> None)
      else if c = 115 then (case args of AStr t # as \<Rightarrow>
          map_option (\<lambda>r. (case t of None \<Rightarrow> lit ''(null)'' | Some t \<Rightarrow> cstr t) @ r) (uformat False cs as) | _ \<Rightarrow> None)
      else if c = 99 then (case args of AInt x # as \<Rightarrow> map_option (\<lambda>r. ucast x # r) (uformat False cs as) | _ \<Rightarrow> None)
      else if c = 37 then map_option (\<lambda>r. c # r) (uformat False cs args)
      else map_option (\<lambda>r. 37 # c # r) (uformat False cs args))"

subsection \<open>Strings in memory\<close>

text \<open>A NUL-terminated string at an address.\<close>

fun str_at :: "mem \<Rightarrow> u32 \<Rightarrow> u8 list \<Rightarrow> bool" where
  "str_at m s [] \<longleftrightarrow> m s = 0"
| "str_at m s (c # cs) \<longleftrightarrow> c \<noteq> 0 \<and> m s = c \<and> str_at m (s + 1) cs"

lemma str_at_end: "str_at m s xs \<Longrightarrow> m (s + of_nat (length xs)) = 0"
  by (induction xs arbitrary: s) (auto simp: add.assoc[symmetric])

lemma str_at_nth: "str_at m s xs \<Longrightarrow> i < length xs \<Longrightarrow> m (s + of_nat i) = xs ! i \<and> xs ! i \<noteq> 0"
proof (induction xs arbitrary: s i)
  case (Cons c cs)
  then show ?case by (cases i) (auto simp: add.assoc[symmetric])
qed simp

lemma ulib_strlen_ok:
  assumes "str_at m s xs"
  shows "ulib_strlen m s = Some (of_nat (length xs))"
proof -
  have "n \<le> length xs \<Longrightarrow> ulib_strlen_loop m s (of_nat n) = Some (of_nat (length xs))" for n
  proof (induction "length xs - n" arbitrary: n)
    case 0
    then show ?case using str_at_end[OF assms] by (simp add: ulib_strlen_loop.simps)
  next
    case (Suc k)
    then have "m (s + of_nat n) \<noteq> 0" using str_at_nth[OF assms, of n] by simp
    moreover have "ulib_strlen_loop m s (of_nat (Suc n)) = Some (of_nat (length xs))" using Suc by (intro Suc.hyps) simp_all
    ultimately show ?case by (subst ulib_strlen_loop.simps) (simp add: ac_simps)
  qed
  from this[of 0] show ?thesis by (simp add: ulib_strlen_def)
qed

lemma ulib_strcmp_ok: "str_at m p xs \<Longrightarrow> str_at m q ys \<Longrightarrow> \<exists>r. ulib_strcmp m p q = Some r \<and> (r = 0 \<longleftrightarrow> xs = ys)"
proof (induction xs arbitrary: p q ys)
  case Nil
  then show ?case by (cases ys) (auto simp: ulib_strcmp.simps[of m p q] uint_u8_eq[of _ 0, simplified])
next
  case (Cons x xs)
  show ?case
  proof (cases "\<exists>zs. ys = x # zs")
    case True
    then show ?thesis using Cons by (auto simp: ulib_strcmp.simps[of m p q])
  next
    case False
    then have "m p \<noteq> m q" using Cons.prems by (cases ys) auto
    then show ?thesis using False Cons.prems by (auto simp: ulib_strcmp.simps[of m p q] uint_u8_eq)
  qed
qed

lemma ulib_strchr_ok:
  "str_at m s xs \<Longrightarrow> c \<noteq> 0 \<Longrightarrow>
   ulib_strchr m s c = Some (case find_index (\<lambda>x. x = c) xs of None \<Rightarrow> 0 | Some i \<Rightarrow> s + of_nat i)"
proof (induction xs arbitrary: s)
  case (Cons x xs)
  show ?case
  proof (cases "x = c")
    case False
    then show ?thesis using Cons by (auto simp: ulib_strchr.simps[of m s c] algebra_simps split: option.splits)
  qed (use Cons.prems in \<open>auto simp: ulib_strchr.simps[of m s c]\<close>)
qed (simp add: ulib_strchr.simps)

subsection \<open>Numbers\<close>

fun text_at :: "mem \<Rightarrow> u32 \<Rightarrow> u8 list \<Rightarrow> bool" where
  "text_at m s [] \<longleftrightarrow> True"
| "text_at m s (c # cs) \<longleftrightarrow> m s = c \<and> text_at m (s + 1) cs"

definition is_digit :: "u8 \<Rightarrow> bool" where "is_digit c \<longleftrightarrow> 48 \<le> c \<and> c \<le> 57"

lemma atoi_loop_text:
  "text_at m s ds \<Longrightarrow> list_all is_digit ds \<Longrightarrow> \<not> is_digit (m (s + of_nat (length ds))) \<Longrightarrow>
   atoi_loop m s n = Some (foldl (\<lambda>n c. n * 10 + ucast c - 48) n ds)"
proof (induction ds arbitrary: s n)
  case Nil
  then show ?case by (subst atoi_loop.simps) (auto simp: is_digit_def)
next
  case (Cons d ds)
  then have "atoi_loop m s n = atoi_loop m (s + 1) (n * 10 + ucast d - 48)"
    by (subst atoi_loop.simps) (simp add: is_digit_def)
  then show ?case using Cons by (simp add: add.assoc[symmetric])
qed

lemma udigits_nth:
  assumes "k < 10"
  shows "is_digit (udigits ! k)" "ucast (udigits ! k) = (of_nat k + 48 :: u32)"
proof -
  have "list_all (\<lambda>k. is_digit (udigits ! k) \<and> ucast (udigits ! k) = (of_nat k + 48 :: u32)) [0..<10]" by code_simp
  then show "is_digit (udigits ! k)" "ucast (udigits ! k) = (of_nat k + 48 :: u32)"
    using assms by (auto simp: list_all_iff)
qed

lemma uprint_digits_10:
  "list_all is_digit (uprint_digits 10 x)" "foldl (\<lambda>n c. n * 10 + ucast c - 48) 0 (rev (uprint_digits 10 x)) = x"
proof -
  have "list_all is_digit (uprint_digits b x) \<and> foldl (\<lambda>n c. n * 10 + ucast c - 48) 0 (rev (uprint_digits b x)) = x" if "b = 10" for b
    using that
  proof (induction b x rule: uprint_digits.induct)
    case (1 base x)
    have k: "unat (x mod 10) < 10" by (simp add: unat_mod)
    have e: "x div 10 * 10 + (x mod 10 + 48) - 48 = x" using div_mult_mod_eq[of x 10] by simp
    note d = uprint_digits.simps[of 10 x] udigits_nth[OF k]
    show ?case
    proof (cases "x div 10 = 0")
      case True
      then have "x mod 10 = x" using div_mult_mod_eq[of x 10] by simp
      then show ?thesis using True d "1.prems" by simp
    next
      case False
      then show ?thesis using "1.IH" "1.prems" d e by simp
    qed
  qed
  then show "list_all is_digit (uprint_digits 10 x)" "foldl (\<lambda>n c. n * 10 + ucast c - 48) 0 (rev (uprint_digits 10 x)) = x" by auto
qed

lemma uprint_digits_length: "1 < base \<Longrightarrow> 0 < n \<Longrightarrow> unat x < unat base ^ n \<Longrightarrow> length (uprint_digits base x) \<le> n"
proof (induction n arbitrary: x)
  case (Suc n)
  show ?case
  proof (cases "x div base = 0")
    case False
    have b: "0 < unat base" using Suc.prems(1) by (simp add: word_less_nat_alt)
    have lt: "unat (x div base) < unat base ^ n"
      using Suc.prems(3) b by (simp add: unat_div less_mult_imp_div_less mult.commute)
    have "0 < n" using lt False by (cases n) (auto simp: unat_eq_zero)
    then show ?thesis using Suc.IH[OF Suc.prems(1) _ lt] by (subst uprint_digits.simps) simp
  qed (subst uprint_digits.simps, simp)
qed simp

text \<open>
  C39. \<open>atoi\<close> inverts \<open>printint\<close>: where memory holds the printed form of a non-negative number, followed by something
  that is no digit, \<open>atoi\<close> returns that number.
\<close>

theorem atoi_printint:
  assumes "0 \<le> sint x" "text_at m s (uprintint x 10 True)" "\<not> is_digit (m (s + of_nat (length (uprintint x 10 True))))"
  shows "ulib_atoi m s = Some x"
proof -
  have e: "uprintint x 10 True = rev (uprint_digits 10 x)" using assms(1) by (simp add: uprintint_def uprint_buf_def Let_def)
  show ?thesis
    using atoi_loop_text[OF assms(2) _ assms(3), of 0] uprint_digits_10[of x] by (simp add: e ulib_atoi_def)
qed

theorem atoi_printint_witness:
  "0 \<le> sint (407 :: i32) \<and> ulib_atoi (\<lambda>a. if a = 0 then 52 else if a = 1 then 48 else if a = 2 then 55 else 0) 0 = Some 407"
proof -
  have p: "uprintint 407 10 True = [52, 48, 55]" by code_simp
  show ?thesis by (intro conjI atoi_printint) (simp_all add: p is_digit_def)
qed

text \<open>
  \<open>printint\<close> stays inside its buffer of 16 characters in the two bases that \<open>printf\<close> uses, the sign
  included.
\<close>

lemma printint_fits:
  "length (uprint_buf xx 10 sg) \<le> 11 \<and> length (uprint_buf xx 16 sg) \<le> 9"
proof -
  have "unat x < unat (10 :: u32) ^ 10" "unat x < unat (16 :: u32) ^ 8" for x :: u32
    using unat_u32_bound[of x] by simp_all
  then have d: "length (uprint_digits 10 x) \<le> 10" "length (uprint_digits 16 x) \<le> 8" for x
    using uprint_digits_length[of 10 10 x] uprint_digits_length[of 16 8 x] by simp_all
  show ?thesis using d[of xx] d[of "- xx"] by (auto simp: uprint_buf_def Let_def)
qed

end
