(* ===== verification/Shell.thy ===== *)
theory Shell
  imports Userlib
begin

text \<open>
  The parser of the shell, \<^verbatim>\<open>src/sh.c\<close>: the tokens, the recursive descent and \<open>nulterminate\<close>.
  The line is a byte list \<open>buf\<close> without its terminating NUL, so that \<^verbatim>\<open>es\<close> is its length; a \<^verbatim>\<open>char *\<close> into it
  is a position. A call of \<^verbatim>\<open>panic\<close>, which prints the message and ends the child
  process, is the result \<open>Syntax\<close>. \<^verbatim>\<open>malloc\<close> is taken to succeed.

  The four mutually recursive functions carry a fuel; \<open>parse_good\<close> shows that four times the
  remaining length plus four suffices, and \<open>parsecmd\<close> supplies that.
\<close>

subsection \<open>Data\<close>

definition MAXARGS :: nat where "MAXARGS = 10"

type_synonym span = "nat \<times> nat"

datatype cmd =
    EXEC "span list"
  | REDIR cmd span u32 nat
  | PIPE cmd cmd
  | LIST cmd cmd
  | BACK cmd

text \<open>A parse result; \<open>Syntax\<close> carries what is printed before the process exits.\<close>

datatype 'a parse = Parsed 'a nat | Syntax "u8 list" | Nofuel

fun pbind :: "'a parse \<Rightarrow> ('a \<Rightarrow> nat \<Rightarrow> 'b parse) \<Rightarrow> 'b parse" where
  "pbind (Parsed a i) f = f a i"
| "pbind (Syntax e) f = Syntax e"
| "pbind Nofuel f = Nofuel"

lemma pbind_cong [fundef_cong]:
  "m = m' \<Longrightarrow> (\<And>a i. m' = Parsed a i \<Longrightarrow> f a i = f' a i) \<Longrightarrow> pbind m f = pbind m' f'"
  by (cases m') auto

subsection \<open>Tokens\<close>

text \<open>\<^verbatim>\<open>" \t\r\n\v"\<close> and \<^verbatim>\<open>"<|>&;()"\<close>.\<close>

definition whitespace :: "u8 list" where "whitespace = [32, 9, 13, 10, 11]"
definition symbols :: "u8 list" where "symbols = [60, 124, 62, 38, 59, 40, 41]"

definition char_at :: "u8 list \<Rightarrow> nat \<Rightarrow> u8" where
  "char_at buf i = (if i < length buf then buf ! i else 0)"

text \<open>The loops that move a pointer over blanks and over the characters of a word.\<close>

definition skip_blanks :: "u8 list \<Rightarrow> nat \<Rightarrow> nat" where
  "skip_blanks buf i = i + length (takeWhile (\<lambda>c. c \<in> set whitespace) (drop i buf))"

definition word_end :: "u8 list \<Rightarrow> nat \<Rightarrow> nat" where
  "word_end buf i = i + length (takeWhile (\<lambda>c. c \<notin> set whitespace \<and> c \<notin> set symbols) (drop i buf))"

text \<open>\<open>gettoken\<close> returns the token, the span \<^verbatim>\<open>q\<close> to \<^verbatim>\<open>eq\<close>, and the new position.\<close>

definition gettoken :: "u8 list \<Rightarrow> nat \<Rightarrow> u8 \<times> span \<times> nat" where
  "gettoken buf i =
     (let s = skip_blanks buf i; c = char_at buf s
      in if c = 0 then (0, (s, s), skip_blanks buf s)
         else if c \<in> {124, 40, 41, 59, 38, 60} then (c, (s, s + 1), skip_blanks buf (s + 1))
         else if c = 62 then
           (if char_at buf (s + 1) = 62 then (43, (s, s + 2), skip_blanks buf (s + 2))
            else (62, (s, s + 1), skip_blanks buf (s + 1)))
         else (97, (s, word_end buf s), skip_blanks buf (word_end buf s)))"

definition peek :: "u8 list \<Rightarrow> nat \<Rightarrow> u8 list \<Rightarrow> bool \<times> nat" where
  "peek buf i toks = (let s = skip_blanks buf i in (char_at buf s \<noteq> 0 \<and> char_at buf s \<in> set toks, s))"

subsection \<open>How far the tokens move\<close>

lemma skip_blanks_le: "i \<le> skip_blanks buf i" "i \<le> length buf \<Longrightarrow> skip_blanks buf i \<le> length buf"
  using length_takeWhile_le[of "\<lambda>c. c \<in> set whitespace" "drop i buf"] by (auto simp: skip_blanks_def)

lemma word_end_le: "i \<le> word_end buf i" "i \<le> length buf \<Longrightarrow> word_end buf i \<le> length buf"
  using length_takeWhile_le[of "\<lambda>c. c \<notin> set whitespace \<and> c \<notin> set symbols" "drop i buf"] by (auto simp: word_end_def)

lemma char_at_skip:
  assumes "i \<le> length buf"
  shows "char_at buf (skip_blanks buf i) \<notin> set whitespace"
proof (cases "skip_blanks buf i < length buf")
  case True
  let ?P = "\<lambda>c. c \<in> set whitespace"
  have "length (takeWhile ?P (drop i buf)) < length (drop i buf)" using True assms by (simp add: skip_blanks_def)
  from nth_length_takeWhile[OF this] show ?thesis using True assms by (simp add: skip_blanks_def char_at_def)
qed (simp add: char_at_def whitespace_def)

lemma takeWhile_dropWhile_Nil: "takeWhile P (dropWhile P xs) = []"
  by (induction xs) auto

lemma skip_blanks_skip [simp]: "skip_blanks buf (skip_blanks buf i) = skip_blanks buf i"
proof -
  let ?P = "\<lambda>c. c \<in> set whitespace"
  have "drop (length (takeWhile ?P (drop i buf))) (drop i buf) = dropWhile ?P (drop i buf)" by (simp add: dropWhile_eq_drop)
  then have "takeWhile ?P (drop (skip_blanks buf i) buf) = []"
    by (metis skip_blanks_def drop_drop add.commute takeWhile_dropWhile_Nil)
  then show ?thesis unfolding skip_blanks_def[of buf "skip_blanks buf i"] by simp
qed

lemma word_end_moves:
  assumes "i < length buf" "buf ! i \<notin> set whitespace" "buf ! i \<notin> set symbols"
  shows "i < word_end buf i"
  using assms by (simp add: word_end_def Cons_nth_drop_Suc[symmetric])

text \<open>A token other than the end of the line has at least one character.\<close>

lemma gettoken_moves:
  assumes "gettoken buf i = (t, (q, e), j)" "i \<le> length buf"
  shows "i \<le> q" "q \<le> e" "e \<le> j" "j \<le> length buf" "t \<noteq> 0 \<Longrightarrow> q < e"
proof -
  let ?s = "skip_blanks buf i"
  have s: "i \<le> ?s" "?s \<le> length buf" "char_at buf ?s \<notin> set whitespace" using skip_blanks_le assms(2) char_at_skip by auto
  have in1: "?s < length buf" if "char_at buf ?s \<noteq> 0" using that by (simp add: char_at_def split: if_splits)
  have in2: "?s + 1 < length buf" if "char_at buf (?s + 1) = 62" using that by (simp add: char_at_def split: if_splits)
  have w: "?s < word_end buf ?s" if "char_at buf ?s \<noteq> 0" "char_at buf ?s \<notin> set symbols"
    using that s(3) in1[OF that(1)] by (intro word_end_moves) (auto simp: char_at_def)
  have sym: "char_at buf ?s \<notin> set symbols" if "char_at buf ?s \<notin> {124, 40, 41, 59, 38, 60}" "char_at buf ?s \<noteq> 62"
    using that by (auto simp: symbols_def)
  note le = skip_blanks_le[of _ buf] word_end_le[of ?s buf]
  show "i \<le> q" "q \<le> e" "e \<le> j" "j \<le> length buf" "t \<noteq> 0 \<Longrightarrow> q < e"
    using assms(1) s in1 in2 w sym le by (auto simp: gettoken_def Let_def split: if_splits)
qed

subsection \<open>The parser\<close>

text \<open>The constants of \<^verbatim>\<open>src/fcntl.h\<close> the parser uses.\<close>

abbreviation rdonly :: u32 where "rdonly \<equiv> 0"
abbreviation wronly_create :: u32 where "wronly_create \<equiv> 0x001 OR 0x200"

text \<open>
  \<open>parseredirs\<close> returns the redirections in the order in which it wraps them around the command. A
  redirection read in the middle of a simple command wraps the \<^verbatim>\<open>struct execcmd\<close> that later arguments
  are still added to; \<open>wrap\<close> applies the collected redirections once the arguments are known.
\<close>

type_synonym redir = "span \<times> u32 \<times> nat"

definition wrap :: "cmd \<Rightarrow> redir list \<Rightarrow> cmd" where
  "wrap c rs = foldl (\<lambda>c (f, mode, fd). REDIR c f mode fd) c rs"

lemma peek_moves: "peek buf i toks = (b, j) \<Longrightarrow> i \<le> length buf \<Longrightarrow> i \<le> j \<and> j \<le> length buf"
  using skip_blanks_le[of i buf] by (auto simp: peek_def Let_def)

lemma peek_token:
  assumes "peek buf i toks = (True, j)" "i \<le> length buf" "gettoken buf j = (t, w, k)"
  shows "j < k \<and> k \<le> length buf \<and> t \<noteq> 0"
proof -
  have j: "j \<le> length buf" "skip_blanks buf j = j" "char_at buf j \<noteq> 0"
    using assms(1,2) skip_blanks_le(2)[of i buf] by (auto simp: peek_def Let_def)
  then have "t \<noteq> 0" using assms(3) by (auto simp: gettoken_def Let_def split: if_splits)
  then show ?thesis using gettoken_moves[of buf j t "fst w" "snd w" k] assms(3) j(1) by auto
qed

lemma redir_moves:
  assumes "i \<le> length buf" "peek buf i toks = (b, i')" "gettoken buf i' = (tok, s, j)" "gettoken buf j = (97, f, k)"
  shows "i < k \<and> k \<le> length buf"
proof -
  have i: "i \<le> i'" "i' \<le> length buf" using peek_moves[OF assms(2,1)] by auto
  have j: "i' \<le> j" "j \<le> length buf" using gettoken_moves[of buf i' tok "fst s" "snd s" j] assms(3) i(2) by auto
  have "j < k" "k \<le> length buf" using gettoken_moves[of buf j 97 "fst f" "snd f" k] assms(4) j(2) by auto
  then show ?thesis using i j by simp
qed

lemma wrap_simps [simp]: "wrap c [] = c" "wrap c ((f, mode, fd) # rs) = wrap (REDIR c f mode fd) rs"
  by (simp_all add: wrap_def)

function parseredirs :: "u8 list \<Rightarrow> nat \<Rightarrow> redir list parse" where
  "parseredirs buf i =
     (if length buf < i then Nofuel
      else case peek buf i [60, 62] of (b, i1) \<Rightarrow>
        if \<not> b then Parsed [] i1
        else case gettoken buf i1 of (tok, _, i2) \<Rightarrow>
          case gettoken buf i2 of (t, f, i3) \<Rightarrow>
            if t \<noteq> 97 then Syntax (lit ''missing file for redirection'')
            else pbind (parseredirs buf i3) (\<lambda>rs j.
              Parsed ((if tok = 60 then (f, rdonly, 0) else (f, wronly_create, 1)) # rs) j))"
  by pat_completeness auto
termination
  by (relation "measure (\<lambda>(buf, i). length buf - i)") (use redir_moves[OF _ sym sym sym] in \<open>fastforce simp: not_less\<close>)+

declare parseredirs.simps [simp del]

text \<open>The loop of \<open>parseexec\<close> over the arguments, with those collected so far.\<close>

lemma pbind_Parsed: "pbind m f = Parsed a j \<longleftrightarrow> (\<exists>b k. m = Parsed b k \<and> f b k = Parsed a j)"
  by (cases m) auto

lemma parseredirs_moves: "parseredirs buf i = Parsed rs j \<Longrightarrow> i \<le> j \<and> j \<le> length buf"
proof (induction buf i arbitrary: rs j rule: parseredirs.induct)
  case (1 buf i)
  obtain b i1 where p: "peek buf i [60, 62] = (b, i1)" by (cases "peek buf i [60, 62]")
  obtain tok s i2 where g: "gettoken buf i1 = (tok, s, i2)" by (cases "gettoken buf i1")
  obtain t f i3 where h: "gettoken buf i2 = (t, f, i3)" by (cases "gettoken buf i2")
  have i: "i \<le> length buf" using "1.prems" by (subst (asm) parseredirs.simps) (simp split: if_splits)
  note pm = peek_moves[OF p i]
  show ?case
  proof (cases b)
    case False
    then show ?thesis using "1.prems" pm p i by (subst (asm) parseredirs.simps) simp
  next
    case True
    then obtain rs' where r: "t = 97" "parseredirs buf i3 = Parsed rs' j"
      using "1.prems" p g h i by (subst (asm) parseredirs.simps) (auto simp: pbind_Parsed split: if_splits)
    have "i3 \<le> j \<and> j \<le> length buf"
      by (rule "1.IH"[OF _ p[symmetric] _ g[symmetric] refl h[symmetric] refl]) (use i True r in auto)
    then show ?thesis using redir_moves[OF i p g] h r(1) by auto
  qed
qed

function parseargs :: "u8 list \<Rightarrow> span list \<Rightarrow> redir list \<Rightarrow> nat \<Rightarrow> (span list \<times> redir list) parse" where
  "parseargs buf args rs i =
     (if length buf < i then Nofuel
      else case peek buf i [124, 41, 38, 59] of (b, i1) \<Rightarrow>
        if b then Parsed (args, rs) i1
        else case gettoken buf i1 of (tok, w, i2) \<Rightarrow>
          if tok = 0 then Parsed (args, rs) i2
          else if tok \<noteq> 97 then Syntax (lit ''syntax'')
          else if length args + 1 \<ge> MAXARGS then Syntax (lit ''too many args'')
          else pbind (parseredirs buf i2) (\<lambda>rs' i3. parseargs buf (args @ [w]) (rs @ rs') i3))"
  by pat_completeness auto
termination
proof (relation "measure (\<lambda>(buf, args, rs, i). length buf - i)", goal_cases)
  case (2 buf args rs i b i1 tok y w i2 rs' i3)
  have i1: "i \<le> i1" "i1 \<le> length buf" using peek_moves[OF 2(2)[symmetric]] 2(1) by auto
  have "i1 < i2" "i2 \<le> length buf"
    using gettoken_moves[of buf i1 tok "fst w" "snd w" i2] 2(4,5,6) i1 by auto
  then show ?case using parseredirs_moves[OF 2(9)] i1 by auto
qed auto

declare parseargs.simps [simp del]

text \<open>The loop \<^verbatim>\<open>while(peek(ps, es, "&"))\<close> of \<open>parseline\<close>.\<close>

function parsebacks :: "u8 list \<Rightarrow> cmd \<Rightarrow> nat \<Rightarrow> cmd parse" where
  "parsebacks buf c i =
     (if length buf < i then Nofuel
      else case peek buf i [38] of (b, i1) \<Rightarrow>
        if \<not> b then Parsed c i1
        else case gettoken buf i1 of (tok, w, i2) \<Rightarrow> parsebacks buf (BACK c) i2)"
  by pat_completeness auto
termination
proof (relation "measure (\<lambda>(buf, c, i). length buf - i)", goal_cases)
  case (2 buf c i b i1 tok y w i2)
  have i1: "i \<le> i1" "i1 \<le> length buf" using peek_moves[OF 2(2)[symmetric]] 2(1) by auto
  have "i1 < i2" "i2 \<le> length buf" using peek_token[of buf i "[38]" i1 tok w i2] 2 by auto
  then show ?case using i1 by auto
qed auto

declare parsebacks.simps [simp del]

fun parseline :: "nat \<Rightarrow> u8 list \<Rightarrow> nat \<Rightarrow> cmd parse"
  and parsepipe :: "nat \<Rightarrow> u8 list \<Rightarrow> nat \<Rightarrow> cmd parse"
  and parseexec :: "nat \<Rightarrow> u8 list \<Rightarrow> nat \<Rightarrow> cmd parse"
  and parseblock :: "nat \<Rightarrow> u8 list \<Rightarrow> nat \<Rightarrow> cmd parse" where
  "parseline 0 buf i = Nofuel"
| "parseline (Suc n) buf i =
     pbind (parsepipe n buf i) (\<lambda>c i.
     pbind (parsebacks buf c i) (\<lambda>c i.
     case peek buf i [59] of (b, i) \<Rightarrow>
       if b then case gettoken buf i of (_, _, i) \<Rightarrow> pbind (parseline n buf i) (\<lambda>r i. Parsed (LIST c r) i)
       else Parsed c i))"
| "parsepipe 0 buf i = Nofuel"
| "parsepipe (Suc n) buf i =
     pbind (parseexec n buf i) (\<lambda>c i.
     case peek buf i [124] of (b, i) \<Rightarrow>
       if b then case gettoken buf i of (_, _, i) \<Rightarrow> pbind (parsepipe n buf i) (\<lambda>r i. Parsed (PIPE c r) i)
       else Parsed c i)"
| "parseexec 0 buf i = Nofuel"
| "parseexec (Suc n) buf i =
     (case peek buf i [40] of (b, i) \<Rightarrow>
       if b then parseblock n buf i
       else pbind (parseredirs buf i) (\<lambda>rs i.
         pbind (parseargs buf [] rs i) (\<lambda>(args, rs) i. Parsed (wrap (EXEC args) rs) i)))"
| "parseblock 0 buf i = Nofuel"
| "parseblock (Suc n) buf i =
     (case peek buf i [40] of (b, i) \<Rightarrow>
       if \<not> b then Syntax (lit ''parseblock'')
       else case gettoken buf i of (_, _, i) \<Rightarrow>
         pbind (parseline n buf i) (\<lambda>c i.
         case peek buf i [41] of (b, i) \<Rightarrow>
           if \<not> b then Syntax (lit ''syntax - missing )'')
           else case gettoken buf i of (_, _, i) \<Rightarrow>
             pbind (parseredirs buf i) (\<lambda>rs i. Parsed (wrap c rs) i)))"

subsection \<open>\<open>nulterminate\<close>\<close>

text \<open>On the line with its terminating NUL: the byte after each word becomes a NUL.\<close>

fun nulterminate :: "cmd \<Rightarrow> u8 list \<Rightarrow> u8 list" where
  "nulterminate (EXEC args) m = fold (\<lambda>(q, e) m. m[e := 0]) args m"
| "nulterminate (REDIR c (q, e) mode fd) m = (nulterminate c m)[e := 0]"
| "nulterminate (PIPE l r) m = nulterminate r (nulterminate l m)"
| "nulterminate (LIST l r) m = nulterminate r (nulterminate l m)"
| "nulterminate (BACK c) m = nulterminate c m"

text \<open>\<open>parsecmd\<close> returns the command and the line that its spans point into.\<close>

definition parsecmd :: "u8 list \<Rightarrow> (cmd \<times> u8 list) parse" where
  "parsecmd buf =
     pbind (parseline (4 * length buf + 4) buf 0) (\<lambda>c i.
     case peek buf i [] of (_, i) \<Rightarrow>
       if i \<noteq> length buf then Syntax (lit ''leftovers: '' @ cstr (drop i buf @ [0]) @ [10] @ lit ''syntax'')
       else Parsed (c, nulterminate c (buf @ [0])) i)"

subsection \<open>The parser moves forward and has enough fuel\<close>

lemma parsebacks_moves: "i \<le> length buf \<Longrightarrow> \<exists>c' j. parsebacks buf c i = Parsed c' j \<and> i \<le> j \<and> j \<le> length buf"
proof (induction buf c i rule: parsebacks.induct)
  case (1 buf c i)
  obtain b i1 where p: "peek buf i [38] = (b, i1)" by (cases "peek buf i [38]")
  obtain tok s i2 where g: "gettoken buf i1 = (tok, s, i2)" by (cases "gettoken buf i1")
  note pm = peek_moves[OF p "1.prems"]
  show ?case
  proof (cases b)
    case True
    then have m: "i1 < i2 \<and> i2 \<le> length buf" using peek_token[OF _ "1.prems" g] p by simp
    have "\<exists>c' j. parsebacks buf (BACK c) i2 = Parsed c' j \<and> i2 \<le> j \<and> j \<le> length buf"
      by (rule "1.IH"[OF _ p[symmetric] _ g[symmetric] refl]) (use "1.prems" True m in auto)
    then show ?thesis using p g True pm m "1.prems" by (subst parsebacks.simps) auto
  qed (use p pm "1.prems" in \<open>subst parsebacks.simps, simp\<close>)
qed

lemma parseargs_moves: "parseargs buf args rs i = Parsed x j \<Longrightarrow> i \<le> j \<and> j \<le> length buf"
proof (induction buf args rs i arbitrary: x j rule: parseargs.induct)
  case (1 buf args rs i)
  obtain b i1 where p: "peek buf i [124, 41, 38, 59] = (b, i1)" by (cases "peek buf i [124, 41, 38, 59]")
  obtain tok w i2 where g: "gettoken buf i1 = (tok, w, i2)" by (cases "gettoken buf i1")
  have i: "i \<le> length buf" using "1.prems" by (subst (asm) parseargs.simps) (simp split: if_splits)
  note pm = peek_moves[OF p i]
  have gm: "i1 \<le> i2" "i2 \<le> length buf" using gettoken_moves[of buf i1 tok "fst w" "snd w" i2] g pm by auto
  show ?case
  proof (cases "b \<or> tok = 0")
    case True
    then show ?thesis using "1.prems" pm gm p g i by (subst (asm) parseargs.simps) (auto split: if_splits)
  next
    case False
    then obtain rs' i3 where r: "tok = 97" "length args + 1 < MAXARGS" "parseredirs buf i2 = Parsed rs' i3"
        "parseargs buf (args @ [w]) (rs @ rs') i3 = Parsed x j"
      using "1.prems" p g i by (subst (asm) parseargs.simps) (auto simp: pbind_Parsed split: if_splits)
    have "i3 \<le> j \<and> j \<le> length buf"
      by (rule "1.IH"[OF _ p[symmetric] _ g[symmetric] refl _ _ _ r(3,4)]) (use i False r in auto)
    then show ?thesis using parseredirs_moves[OF r(3)] pm gm by auto
  qed
qed

lemma parseredirs_fuel: "i \<le> length buf \<Longrightarrow> parseredirs buf i \<noteq> Nofuel"
proof (induction buf i rule: parseredirs.induct)
  case (1 buf i)
  obtain b i1 where p: "peek buf i [60, 62] = (b, i1)" by (cases "peek buf i [60, 62]")
  obtain tok s i2 where g: "gettoken buf i1 = (tok, s, i2)" by (cases "gettoken buf i1")
  obtain t f i3 where h: "gettoken buf i2 = (t, f, i3)" by (cases "gettoken buf i2")
  have "parseredirs buf i3 \<noteq> Nofuel" if "b" "t = 97"
    by (rule "1.IH"[OF _ p[symmetric] _ g[symmetric] refl h[symmetric] refl])
      (use "1.prems" that redir_moves[OF "1.prems" p g] h in auto)
  then show ?case using p g h "1.prems" by (subst parseredirs.simps) (auto elim!: pbind.elims)
qed

lemma parseargs_fuel: "i \<le> length buf \<Longrightarrow> parseargs buf args rs i \<noteq> Nofuel"
proof (induction buf args rs i rule: parseargs.induct)
  case (1 buf args rs i)
  obtain b i1 where p: "peek buf i [124, 41, 38, 59] = (b, i1)" by (cases "peek buf i [124, 41, 38, 59]")
  obtain tok w i2 where g: "gettoken buf i1 = (tok, w, i2)" by (cases "gettoken buf i1")
  note pm = peek_moves[OF p "1.prems"]
  have gm: "i1 \<le> i2" "i2 \<le> length buf" using gettoken_moves[of buf i1 tok "fst w" "snd w" i2] g pm by auto
  have "parseargs buf (args @ [w]) (rs @ rs') i3 \<noteq> Nofuel"
    if "\<not> b" "tok \<noteq> 0" "\<not> tok \<noteq> 97" "\<not> length args + 1 \<ge> MAXARGS" "parseredirs buf i2 = Parsed rs' i3" for rs' i3
    by (rule "1.IH"[OF _ p[symmetric] that(1) g[symmetric] refl that(2,3,4,5)])
      (use "1.prems" parseredirs_moves[OF that(5)] in auto)
  then show ?case using p g "1.prems" parseredirs_fuel[OF gm(2)]
    by (subst parseargs.simps) (auto elim!: pbind.elims)
qed

subsection \<open>What a parsed command looks like\<close>

text \<open>A span is a whole word: its characters are neither blank nor symbol, and it cannot be extended on either side.\<close>

definition word_char :: "u8 \<Rightarrow> bool" where
  "word_char c \<longleftrightarrow> c \<notin> set whitespace \<and> c \<notin> set symbols"

definition is_word :: "u8 list \<Rightarrow> span \<Rightarrow> bool" where
  "is_word buf = (\<lambda>(q, e). q < e \<and> e \<le> length buf \<and> (\<forall>k. q \<le> k \<and> k < e \<longrightarrow> word_char (buf ! k)) \<and>
     (e < length buf \<longrightarrow> \<not> word_char (buf ! e)) \<and> (0 < q \<longrightarrow> \<not> word_char (buf ! (q - 1))))"

text \<open>A position at which no word is cut in two. The parser only stops at such positions.\<close>

definition edge :: "u8 list \<Rightarrow> nat \<Rightarrow> bool" where
  "edge buf i \<longleftrightarrow> i \<le> length buf \<and> (0 < i \<and> i < length buf \<and> word_char (buf ! i) \<longrightarrow> \<not> word_char (buf ! (i - 1)))"

lemma edge_le: "edge buf i \<Longrightarrow> i \<le> length buf"
  by (simp add: edge_def)

lemma edge_0 [simp]: "edge buf 0"
  by (simp add: edge_def)

lemma skip_blanks_last:
  assumes "i \<le> length buf" "i < skip_blanks buf i"
  shows "buf ! (skip_blanks buf i - 1) \<in> set whitespace"
proof -
  let ?P = "\<lambda>c. c \<in> set whitespace" and ?xs = "drop i buf"
  let ?n = "length (takeWhile ?P ?xs)"
  have n: "0 < ?n" "?n \<le> length ?xs" using assms(2) length_takeWhile_le[of ?P ?xs] by (simp_all add: skip_blanks_def)
  then have "takeWhile ?P ?xs ! (?n - 1) = ?xs ! (?n - 1)" by (intro takeWhile_nth) simp
  moreover have "takeWhile ?P ?xs ! (?n - 1) \<in> set whitespace" using n(1) set_takeWhileD[OF nth_mem, of "?n - 1" ?P ?xs] by simp
  ultimately show ?thesis using n assms(1) by (simp add: skip_blanks_def)
qed

lemma skip_blanks_edge:
  assumes "edge buf i"
  shows "edge buf (skip_blanks buf i)"
proof (cases "i < skip_blanks buf i")
  case True
  then show ?thesis
    using skip_blanks_last[OF edge_le[OF assms]] skip_blanks_le(2)[OF edge_le[OF assms]] by (auto simp: edge_def word_char_def)
next
  case False
  then show ?thesis using skip_blanks_le(1)[of i buf] assms by simp
qed

lemma peek_edge: "peek buf i toks = (b, j) \<Longrightarrow> edge buf i \<Longrightarrow> edge buf j"
  using skip_blanks_edge[of buf i] by (auto simp: peek_def Let_def)

definition redir_ok :: "u8 list \<Rightarrow> redir \<Rightarrow> bool" where
  "redir_ok buf = (\<lambda>(f, mode, fd). is_word buf f \<and> (mode = rdonly \<and> fd = 0 \<or> mode = wronly_create \<and> fd = 1))"

fun cmd_ok :: "u8 list \<Rightarrow> cmd \<Rightarrow> bool" where
  "cmd_ok buf (EXEC args) \<longleftrightarrow> length args < MAXARGS \<and> list_all (is_word buf) args"
| "cmd_ok buf (REDIR c f mode fd) \<longleftrightarrow> cmd_ok buf c \<and> redir_ok buf (f, mode, fd)"
| "cmd_ok buf (PIPE l r) \<longleftrightarrow> cmd_ok buf l \<and> cmd_ok buf r"
| "cmd_ok buf (LIST l r) \<longleftrightarrow> cmd_ok buf l \<and> cmd_ok buf r"
| "cmd_ok buf (BACK c) \<longleftrightarrow> cmd_ok buf c"

lemma cmd_ok_wrap [simp]: "cmd_ok buf (wrap c rs) \<longleftrightarrow> cmd_ok buf c \<and> list_all (redir_ok buf) rs"
proof (induction rs arbitrary: c)
  case (Cons r rs)
  then show ?case by (cases r) (simp add: conj_assoc)
qed simp

lemma word_end_word:
  assumes "q < length buf" "word_char (buf ! q)" "edge buf q"
  shows "is_word buf (q, word_end buf q)" "edge buf (word_end buf q)"
proof -
  let ?xs = "drop q buf" and ?n = "length (takeWhile word_char (drop q buf))"
  have e: "word_end buf q = q + ?n" by (simp add: word_end_def word_char_def[abs_def])
  have n: "?n \<le> length ?xs" by (rule length_takeWhile_le)
  have m: "q < word_end buf q" using word_end_moves[of q buf] assms by (simp add: word_char_def)
  have w: "word_char (buf ! k)" if "q \<le> k" "k < q + ?n" for k
  proof -
    have "buf ! k = takeWhile word_char ?xs ! (k - q)"
      using that n assms(1) takeWhile_nth[of "k - q" word_char ?xs] by simp
    then show ?thesis using that set_takeWhileD[of "buf ! k" word_char ?xs] by (metis nth_mem add_diff_inverse_nat nat_add_left_cancel_less not_less)
  qed
  have x: "\<not> word_char (buf ! (q + ?n))" if "q + ?n < length buf"
  proof -
    have "?n < length ?xs" using that by simp
    from nth_length_takeWhile[OF this] show ?thesis using that assms(1) by simp
  qed
  show "is_word buf (q, word_end buf q)" using e n m w x assms by (auto simp: is_word_def edge_def)
  show "edge buf (word_end buf q)" using e n x assms(1) by (auto simp: edge_def)
qed

lemma gettoken_word:
  assumes "gettoken buf i = (97, w, j)" "edge buf i"
  shows "is_word buf w"
proof -
  let ?s = "skip_blanks buf i"
  have c: "char_at buf ?s \<noteq> 0" "char_at buf ?s \<notin> {124, 40, 41, 59, 38, 60}" "char_at buf ?s \<noteq> 62" and w: "w = (?s, word_end buf ?s)"
    using assms(1) by (auto simp: gettoken_def Let_def split: if_splits)
  then have "?s < length buf" by (simp add: char_at_def split: if_splits)
  moreover have "word_char (char_at buf ?s)" using c(2,3) char_at_skip[OF edge_le[OF assms(2)]] by (auto simp: word_char_def symbols_def)
  ultimately show ?thesis using word_end_word(1)[of ?s buf] skip_blanks_edge[OF assms(2)] w by (simp add: char_at_def)
qed

lemma edge_symbol: "s < length buf \<Longrightarrow> buf ! s \<in> set symbols \<Longrightarrow> edge buf (s + 1)"
  by (simp add: edge_def word_char_def)

lemma gettoken_edge:
  assumes "gettoken buf i = (t, w, j)" "edge buf i"
  shows "edge buf j"
proof -
  let ?s = "skip_blanks buf i"
  have s: "edge buf ?s" "char_at buf ?s \<notin> set whitespace" using skip_blanks_edge[OF assms(2)] char_at_skip[OF edge_le[OF assms(2)]] by auto
  have in1: "?s < length buf \<and> buf ! ?s = char_at buf ?s" if "char_at buf ?s \<noteq> 0" using that by (simp add: char_at_def split: if_splits)
  have in2: "?s + 1 < length buf \<and> buf ! (?s + 1) = 62" if "char_at buf (?s + 1) = 62" using that by (simp add: char_at_def split: if_splits)
  show ?thesis
  proof (cases "char_at buf ?s = 0")
    case True
    then have "j = ?s" using assms(1) by (simp add: gettoken_def Let_def)
    then show ?thesis using s(1) by simp
  next
    case nz: False
    show ?thesis
    proof (cases "char_at buf ?s \<in> set symbols")
      case True
      have e: "edge buf (?s + 1)" by (rule edge_symbol) (use in1[OF nz] True in simp_all)
      have "edge buf (?s + 2)" if "char_at buf (?s + 1) = 62"
        using edge_symbol[of "?s + 1" buf] in2[OF that] by (simp add: symbols_def)
      moreover have "j = skip_blanks buf (?s + 1) \<or> char_at buf (?s + 1) = 62 \<and> j = skip_blanks buf (?s + 2)"
        using assms(1) nz True by (simp add: gettoken_def Let_def symbols_def split: if_splits)
      ultimately show ?thesis using skip_blanks_edge[OF e] skip_blanks_edge[of buf "?s + 2"] by blast
    next
      case False
      have "edge buf (word_end buf ?s)" by (rule word_end_word(2)) (use in1[OF nz] False s in \<open>simp_all add: word_char_def\<close>)
      moreover have "j = skip_blanks buf (word_end buf ?s)" using assms(1) nz False by (simp add: gettoken_def Let_def symbols_def)
      ultimately show ?thesis using skip_blanks_edge by simp
    qed
  qed
qed

lemma parseredirs_ok:
  "parseredirs buf i = Parsed rs j \<Longrightarrow> edge buf i \<Longrightarrow> list_all (redir_ok buf) rs \<and> edge buf j"
proof (induction buf i arbitrary: rs j rule: parseredirs.induct)
  case (1 buf i)
  obtain b i1 where p: "peek buf i [60, 62] = (b, i1)" by (cases "peek buf i [60, 62]")
  obtain tok s i2 where g: "gettoken buf i1 = (tok, s, i2)" by (cases "gettoken buf i1")
  obtain t f i3 where h: "gettoken buf i2 = (t, f, i3)" by (cases "gettoken buf i2")
  note i = edge_le[OF "1.prems"(2)] and e1 = peek_edge[OF p "1.prems"(2)]
  note e2 = gettoken_edge[OF g e1] and e3 = gettoken_edge[OF h gettoken_edge[OF g e1]]
  show ?case
  proof (cases b)
    case False
    then show ?thesis using "1.prems" p i e1 by (subst (asm) parseredirs.simps) simp
  next
    case True
    then obtain rs' where r: "t = 97" "parseredirs buf i3 = Parsed rs' j"
        "rs = (if tok = 60 then (f, rdonly, 0) else (f, wronly_create, 1)) # rs'"
      using "1.prems"(1) p g h i by (subst (asm) parseredirs.simps) (auto simp: pbind_Parsed split: if_splits)
    have "list_all (redir_ok buf) rs' \<and> edge buf j"
      by (rule "1.IH"[OF _ p[symmetric] _ g[symmetric] refl h[symmetric] refl]) (use i True r e3 in auto)
    then show ?thesis using r gettoken_word[OF _ e2] h by (auto simp: redir_ok_def)
  qed
qed

lemma parseargs_ok:
  "parseargs buf args rs i = Parsed (args', rs') j \<Longrightarrow> edge buf i \<Longrightarrow> cmd_ok buf (wrap (EXEC args) rs) \<Longrightarrow>
   cmd_ok buf (wrap (EXEC args') rs') \<and> edge buf j"
proof (induction buf args rs i arbitrary: j rule: parseargs.induct)
  case (1 buf args rs i)
  obtain b i1 where p: "peek buf i [124, 41, 38, 59] = (b, i1)" by (cases "peek buf i [124, 41, 38, 59]")
  obtain tok w i2 where g: "gettoken buf i1 = (tok, w, i2)" by (cases "gettoken buf i1")
  note i = edge_le[OF "1.prems"(2)] and e1 = peek_edge[OF p "1.prems"(2)]
  note e2 = gettoken_edge[OF g e1]
  show ?case
  proof (cases "b \<or> tok = 0")
    case True
    then show ?thesis using "1.prems" p g i e1 e2 by (subst (asm) parseargs.simps) (auto split: if_splits)
  next
    case False
    then obtain rs2 i3 where r: "tok = 97" "length args + 1 < MAXARGS" "parseredirs buf i2 = Parsed rs2 i3"
        "parseargs buf (args @ [w]) (rs @ rs2) i3 = Parsed (args', rs') j"
      using "1.prems"(1) p g i by (subst (asm) parseargs.simps) (auto simp: pbind_Parsed split: if_splits)
    note ro = parseredirs_ok[OF r(3) e2]
    have "is_word buf w" using gettoken_word[of buf i1 w i2] g r(1) e1 by simp
    then have "cmd_ok buf (wrap (EXEC (args @ [w])) (rs @ rs2))" using "1.prems"(3) r(2) ro by simp
    then show ?thesis
      by (intro "1.IH"[OF _ p[symmetric] _ g[symmetric] refl _ _ _ r(3,4)]) (use i False r ro in auto)
  qed
qed

end
