(* ===== verification/Shellprop.thy ===== *)
theory Shellprop
  imports Shell
begin

text \<open>
  What the shell's parser guarantees: it always ends, what it accepts is a well-formed command, ending
  the words in place does not damage other words, and it reads back every command that is printed.
\<close>

subsection \<open>The parser ends with a well-formed command\<close>

text \<open>\<open>good\<close>: a result lies ahead and is well formed, and four times the remaining length plus \<open>need\<close> is enough fuel.\<close>

definition good :: "u8 list \<Rightarrow> nat \<Rightarrow> nat \<Rightarrow> nat \<Rightarrow> cmd parse \<Rightarrow> bool" where
  "good buf i need n r \<longleftrightarrow> (\<forall>c j. r = Parsed c j \<longrightarrow> i \<le> j \<and> edge buf j \<and> cmd_ok buf c) \<and>
     (4 * (length buf - i) + need \<le> n \<longrightarrow> r \<noteq> Nofuel)"

lemma goodD:
  assumes "good buf i need n r"
  shows "r = Parsed c j \<Longrightarrow> i \<le> j \<and> edge buf j \<and> cmd_ok buf c" "4 * (length buf - i) + need \<le> n \<Longrightarrow> r \<noteq> Nofuel"
  using assms by (simp_all add: good_def)

lemma good_bind:
  assumes "good buf i need' n' r" "4 * (length buf - i) + need \<le> n \<Longrightarrow> 4 * (length buf - i) + need' \<le> n'"
    "\<And>c j. r = Parsed c j \<Longrightarrow> i \<le> j \<Longrightarrow> edge buf j \<Longrightarrow> cmd_ok buf c \<Longrightarrow> good buf i need n (f c j)"
  shows "good buf i need n (pbind r f)"
  using assms by (cases r) (auto simp: good_def)

lemma good_later: "good buf j need n r \<Longrightarrow> i \<le> j \<Longrightarrow> 4 * (length buf - i) + need' \<le> n' \<longrightarrow> 4 * (length buf - j) + need \<le> n \<Longrightarrow>
    good buf i need' n' r"
  by (auto simp: good_def)

lemma good_Parsed: "i \<le> j \<Longrightarrow> edge buf j \<Longrightarrow> cmd_ok buf c \<Longrightarrow> good buf i need n (Parsed c j)"
  by (simp add: good_def)

lemma good_Syntax: "good buf i need n (Syntax e)"
  by (simp add: good_def)

text \<open>A separator and what follows it.\<close>

lemma good_after:
  assumes "peek buf k toks = (True, k1)" "gettoken buf k1 = (t, w, k2)" "i \<le> k" "edge buf k"
    "good buf k2 need n r" "\<And>c. cmd_ok buf c \<Longrightarrow> cmd_ok buf (f c)" "n' \<le> Suc n"
  shows "good buf i need n' (pbind r (\<lambda>c j. Parsed (f c) j))"
proof -
  note l = edge_le[OF assms(4)]
  have k: "i \<le> k1" "k1 < k2" "k2 \<le> length buf" using peek_moves[OF assms(1) l] peek_token[OF assms(1) l assms(2)] assms(3) by auto
  then have "length buf - k2 < length buf - i" by (intro diff_less_mono2) linarith+
  then have "good buf i need n' r" using assms(7) k by (intro good_later[OF assms(5)]) linarith+
  then show ?thesis
  proof (rule good_bind)
    fix c j assume c: "i \<le> j" "edge buf j" "cmd_ok buf c"
    have "cmd_ok buf (f c)" by (rule assms(6)) (fact c(3))
    then show "good buf i need n' (Parsed (f c) j)" by (rule good_Parsed[OF c(1,2)])
  qed
qed

lemma parsebacks_good:
  assumes "i \<le> k" "edge buf k" "cmd_ok buf c"
  shows "good buf i need n (parsebacks buf c k)"
proof -
  have "\<exists>c' j. parsebacks buf c k = Parsed c' j \<and> k \<le> j \<and> edge buf j \<and> cmd_ok buf c'" using assms(2,3)
  proof (induction buf c k rule: parsebacks.induct)
    case (1 buf c k)
    obtain b k1 where p: "peek buf k [38] = (b, k1)" by (cases "peek buf k [38]")
    obtain t w k2 where g: "gettoken buf k1 = (t, w, k2)" by (cases "gettoken buf k1")
    note l = edge_le[OF "1.prems"(1)] and e1 = peek_edge[OF p "1.prems"(1)]
    note pm = peek_moves[OF p l]
    show ?case
    proof (cases b)
      case True
      then have m: "k1 < k2 \<and> edge buf k2" using peek_token[OF _ l g] p gettoken_edge[OF g e1] by simp
      have "\<exists>c' j. parsebacks buf (BACK c) k2 = Parsed c' j \<and> k2 \<le> j \<and> edge buf j \<and> cmd_ok buf c'"
        by (rule "1.IH"[OF _ p[symmetric] _ g[symmetric] refl]) (use "1.prems" l True m in auto)
      then show ?thesis using p g True pm m l by (subst parsebacks.simps) auto
    qed (use p pm e1 l "1.prems" in \<open>subst parsebacks.simps, simp\<close>)
  qed
  then obtain c' j where "parsebacks buf c k = Parsed c' j" "k \<le> j" "edge buf j" "cmd_ok buf c'" by blast
  then show ?thesis using assms(1) by (simp add: good_def)
qed

lemma list_part_good:
  assumes IH: "\<And>j. edge buf j \<Longrightarrow> good buf j 4 n (parseline n buf j)" and j: "i \<le> j" "edge buf j" "cmd_ok buf c"
  shows "good buf i 4 (Suc n) (case peek buf j [59] of (b, i) \<Rightarrow>
    if b then case gettoken buf i of (_, _, i) \<Rightarrow> pbind (parseline n buf i) (\<lambda>r i. Parsed (LIST c r) i) else Parsed c i)"
proof -
  obtain b j1 where p: "peek buf j [59] = (b, j1)" by (cases "peek buf j [59]")
  obtain t w j2 where g: "gettoken buf j1 = (t, w, j2)" by (cases "gettoken buf j1")
  show ?thesis
  proof (cases b)
    case True
    then have p': "peek buf j [59] = (True, j1)" using p by simp
    have "good buf j2 4 n (parseline n buf j2)" by (rule IH[OF gettoken_edge[OF g peek_edge[OF p' j(2)]]])
    then have "good buf i 4 (Suc n) (pbind (parseline n buf j2) (\<lambda>c' j. Parsed (LIST c c') j))"
      by (rule good_after[OF p' g j(1,2)]) (use j(3) in simp_all)
    then show ?thesis using p g True by simp
  next
    case False
    then show ?thesis using p good_Parsed[of i j1 buf c 4 "Suc n"] peek_moves[OF p edge_le[OF j(2)]] peek_edge[OF p j(2)] j by simp
  qed
qed

lemma pipe_part_good:
  assumes IH: "\<And>j. edge buf j \<Longrightarrow> good buf j 3 n (parsepipe n buf j)" and j: "i \<le> j" "edge buf j" "cmd_ok buf c"
  shows "good buf i 3 (Suc n) (case peek buf j [124] of (b, i) \<Rightarrow>
    if b then case gettoken buf i of (_, _, i) \<Rightarrow> pbind (parsepipe n buf i) (\<lambda>r i. Parsed (PIPE c r) i) else Parsed c i)"
proof -
  obtain b j1 where p: "peek buf j [124] = (b, j1)" by (cases "peek buf j [124]")
  obtain t w j2 where g: "gettoken buf j1 = (t, w, j2)" by (cases "gettoken buf j1")
  show ?thesis
  proof (cases b)
    case True
    then have p': "peek buf j [124] = (True, j1)" using p by simp
    have "good buf j2 3 n (parsepipe n buf j2)" by (rule IH[OF gettoken_edge[OF g peek_edge[OF p' j(2)]]])
    then have "good buf i 3 (Suc n) (pbind (parsepipe n buf j2) (\<lambda>c' j. Parsed (PIPE c c') j))"
      by (rule good_after[OF p' g j(1,2)]) (use j(3) in simp_all)
    then show ?thesis using p g True by simp
  next
    case False
    then show ?thesis using p good_Parsed[of i j1 buf c 3 "Suc n"] peek_moves[OF p edge_le[OF j(2)]] peek_edge[OF p j(2)] j by simp
  qed
qed

lemma simple_good:
  assumes "i \<le> j" "edge buf j"
  shows "good buf i need n (pbind (parseredirs buf j) (\<lambda>rs i.
    pbind (parseargs buf [] rs i) (\<lambda>(args, rs) i. Parsed (wrap (EXEC args) rs) i)))"
proof (cases "parseredirs buf j")
  case (Parsed rs k)
  note m = parseredirs_moves[OF Parsed] and ok = parseredirs_ok[OF Parsed assms(2)]
  have e: "cmd_ok buf (wrap (EXEC []) rs)" using ok by (simp add: MAXARGS_def)
  show ?thesis
  proof (cases "parseargs buf [] rs k")
    case (Parsed x l)
    obtain args rs' where x: "x = (args, rs')" by (cases x)
    have "cmd_ok buf (wrap (EXEC args) rs') \<and> edge buf l" using parseargs_ok[of buf "[]" rs k args rs' l] Parsed x e ok by blast
    moreover have "i \<le> l" using parseargs_moves[OF Parsed] m assms(1) by linarith
    ultimately show ?thesis using \<open>parseredirs buf j = Parsed rs k\<close> Parsed x good_Parsed by simp
  qed (use Parsed m parseargs_fuel[of k buf "[]" rs] in \<open>simp_all add: good_Syntax\<close>)
qed (use parseredirs_fuel[OF edge_le[OF assms(2)]] in \<open>simp_all add: good_Syntax\<close>)

lemma close_good:
  assumes "i \<le> j" "edge buf j" "cmd_ok buf c"
  shows "good buf i need n (case peek buf j [41] of (b, i) \<Rightarrow>
    if \<not> b then Syntax (lit ''syntax - missing )'')
    else case gettoken buf i of (_, _, i) \<Rightarrow> pbind (parseredirs buf i) (\<lambda>rs i. Parsed (wrap c rs) i))"
proof -
  obtain b j1 where p: "peek buf j [41] = (b, j1)" by (cases "peek buf j [41]")
  obtain t w j2 where g: "gettoken buf j1 = (t, w, j2)" by (cases "gettoken buf j1")
  show ?thesis
  proof (cases b)
    case True
    then have j2: "j1 < j2" "j2 \<le> length buf" "j \<le> j1" using peek_token[OF _ edge_le[OF assms(2)] g] p peek_moves[OF p edge_le[OF assms(2)]] by auto
    note e2 = gettoken_edge[OF g peek_edge[OF p assms(2)]]
    show ?thesis
    proof (cases "parseredirs buf j2")
      case (Parsed rs k)
      then have "i \<le> k" using parseredirs_moves[OF Parsed] j2 assms(1) by linarith
      then show ?thesis using Parsed p g True parseredirs_ok[OF Parsed e2] assms(3) good_Parsed[of i k buf "wrap c rs"] by simp
    qed (use p g True parseredirs_fuel[OF j2(2)] in \<open>simp_all add: good_Syntax\<close>)
  qed (use p in \<open>simp add: good_Syntax\<close>)
qed

lemma parse_good:
  "edge buf i \<Longrightarrow> good buf i 4 n (parseline n buf i) \<and> good buf i 3 n (parsepipe n buf i) \<and>
     good buf i 2 n (parseexec n buf i) \<and> good buf i 1 n (parseblock n buf i)"
proof (induction n arbitrary: i)
  case 0
  then show ?case by (simp add: good_def)
next
  case (Suc n)
  note IH = Suc.IH[OF Suc.prems]
  have I: "\<And>j. edge buf j \<Longrightarrow> good buf j 4 n (parseline n buf j)" "\<And>j. edge buf j \<Longrightarrow> good buf j 3 n (parsepipe n buf j)"
    using Suc.IH by blast+
  have "good buf i 4 (Suc n) (parseline (Suc n) buf i)" unfolding parseline.simps
  proof (rule good_bind[OF I(2)[OF Suc.prems]])
    fix c k assume k: "i \<le> k" "edge buf k" "cmd_ok buf c"
    show "good buf i 4 (Suc n) (pbind (parsebacks buf c k) (\<lambda>c i. case peek buf i [59] of (b, i) \<Rightarrow>
       if b then case gettoken buf i of (_, _, i) \<Rightarrow> pbind (parseline n buf i) (\<lambda>r i. Parsed (LIST c r) i) else Parsed c i))"
      by (rule good_bind[OF parsebacks_good[OF k, of 4 "Suc n"]]) (rule asm_rl, assumption, rule list_part_good[OF I(1)])
  qed simp
  moreover have "good buf i 3 (Suc n) (parsepipe (Suc n) buf i)" unfolding parsepipe.simps
  proof (rule good_bind[of buf i 2 n])
    show "good buf i 2 n (parseexec n buf i)" using IH by blast
  qed (simp, rule pipe_part_good[OF I(2)])
  moreover obtain b i1 where p: "peek buf i [40] = (b, i1)" by (cases "peek buf i [40]")
  obtain t w i2 where g: "gettoken buf i1 = (t, w, i2)" by (cases "gettoken buf i1")
  note pm = peek_moves[OF p edge_le[OF Suc.prems]] and e1 = peek_edge[OF p Suc.prems]
  have "good buf i 2 (Suc n) (parseexec (Suc n) buf i)"
  proof (cases b)
    case True
    have "good buf i1 1 n (parseblock n buf i1)" using Suc.IH[OF e1] by blast
    then have "good buf i 2 (Suc n) (parseblock n buf i1)" by (rule good_later) (use pm in auto)
    then show ?thesis using p True by simp
  qed (use p simple_good[of i i1 buf 2 "Suc n"] pm e1 in simp)
  moreover have "good buf i 1 (Suc n) (parseblock (Suc n) buf i)"
  proof (cases b)
    case True
    then have k: "i1 < i2" "i2 \<le> length buf" using peek_token[OF _ edge_le[OF Suc.prems] g] p by auto
    have "good buf i2 4 n (parseline n buf i2)" using Suc.IH[OF gettoken_edge[OF g e1]] by blast
    then have l: "good buf i 1 (Suc n) (parseline n buf i2)" by (rule good_later) (use k pm in auto)
    show ?thesis using p g True good_bind[OF l _ close_good] by simp
  qed (use p in \<open>simp add: good_Syntax\<close>)
  ultimately show ?case by blast
qed

text \<open>The words of a command, and the arguments and files as the strings they become.\<close>

fun spans :: "cmd \<Rightarrow> span list" where
  "spans (EXEC args) = args"
| "spans (REDIR c f mode fd) = spans c @ [f]"
| "spans (PIPE l r) = spans l @ spans r"
| "spans (LIST l r) = spans l @ spans r"
| "spans (BACK c) = spans c"

lemma nulterminate_nth:
  "length (nulterminate c m) = length m"
  "k < length m \<Longrightarrow> nulterminate c m ! k = (if k \<in> snd ` set (spans c) then 0 else m ! k)"
proof -
  have f: "length (fold (\<lambda>(q, e) m. m[e := 0]) ws m) = length m \<and>
      (\<forall>k<length m. fold (\<lambda>(q, e) m. m[e := 0]) ws m ! k = (if k \<in> snd ` set ws then 0 else m ! k))" for ws and m :: "u8 list"
    by (induction ws arbitrary: m) (auto simp: nth_list_update image_iff split: prod.splits)
  have u: "k < length m \<Longrightarrow> m[e := 0] ! k = (if e = k then 0 else m ! k)" for k e and m :: "u8 list"
    by (cases "e = k") simp_all
  have "length (nulterminate c m) = length m \<and> (\<forall>k<length m. nulterminate c m ! k = (if k \<in> snd ` set (spans c) then 0 else m ! k))"
    by (induction c m rule: nulterminate.induct) (simp_all add: f u image_Un)
  then show "length (nulterminate c m) = length m" "k < length m \<Longrightarrow> nulterminate c m ! k = (if k \<in> snd ` set (spans c) then 0 else m ! k)"
    by blast+
qed

lemma cmd_ok_spans: "cmd_ok buf c \<Longrightarrow> w \<in> set (spans c) \<Longrightarrow> is_word buf w"
  by (induction c) (auto simp: list_all_iff redir_ok_def)

text \<open>The end of a word lies inside no word.\<close>

lemma word_ends_apart:
  assumes "is_word buf (q, e)" "is_word buf (q', e')"
  shows "\<not> (q \<le> e' \<and> e' < e)"
proof
  assume "q \<le> e' \<and> e' < e"
  then have "word_char (buf ! e')" "e' < length buf" using assms(1) by (auto simp: is_word_def)
  then show False using assms(2) by (simp add: is_word_def)
qed

lemma cstr_prefix: "(\<And>k. k < n \<Longrightarrow> xs ! k \<noteq> 0) \<Longrightarrow> n < length xs \<Longrightarrow> xs ! n = 0 \<Longrightarrow> cstr xs = take n xs"
proof (induction n arbitrary: xs)
  case 0
  then show ?case by (cases xs) auto
next
  case (Suc n)
  then obtain x ys where x: "xs = x # ys" by (cases xs) auto
  have "x \<noteq> 0" using Suc.prems(1)[of 0] x by simp
  moreover have "cstr ys = take n ys" using Suc.prems x by (intro Suc.IH) (use Suc.prems(1)[of "Suc k" for k] in auto)
  ultimately show ?case using x by simp
qed

text \<open>
  C33. The shell's parser is total and type-correct: for every line it returns a command or a syntax error,
  and in a command every argument and file name is a whole word of the line, no simple command has
  \<open>MAXARGS\<close> arguments or more, and redirections open descriptor 0 for reading or 1 for writing.
\<close>

theorem parsecmd_total:
  "(\<exists>c m. parsecmd buf = Parsed (c, m) (length buf) \<and> cmd_ok buf c) \<or> (\<exists>e. parsecmd buf = Syntax e)"
proof -
  have g: "good buf 0 4 (4 * length buf + 4) (parseline (4 * length buf + 4) buf 0)" using parse_good[OF edge_0[of buf]] by blast
  show ?thesis
  proof (cases "parseline (4 * length buf + 4) buf 0")
    case (Parsed c i)
    obtain b j where "peek buf i [] = (b, j)" by (cases "peek buf i []")
    then show ?thesis using Parsed goodD(1)[OF g Parsed] by (auto simp: parsecmd_def)
  qed (use goodD(2)[OF g] in \<open>auto simp: parsecmd_def\<close>)
qed

lemma parsecmd_parsed:
  assumes "parsecmd buf = Parsed (c, m) j"
  shows "cmd_ok buf c" "m = nulterminate c (buf @ [0])"
proof -
  obtain i where l: "parseline (4 * length buf + 4) buf 0 = Parsed c i" and m: "m = nulterminate c (buf @ [0])"
    using assms by (cases "parseline (4 * length buf + 4) buf 0") (auto simp: parsecmd_def split: if_splits prod.split_asm)
  show "cmd_ok buf c" using parse_good[OF edge_0[of buf]] goodD(1)[OF _ l] by blast
  show "m = nulterminate c (buf @ [0])" by (fact m)
qed

text \<open>
  C34. Terminating the words in place is safe: after \<open>nulterminate\<close> the C string at the start of every
  argument and file name of the command is exactly that word of the line, so no NUL lands in another
  word.
\<close>

theorem nulterminate_correct:
  assumes "0 \<notin> set buf" "parsecmd buf = Parsed (c, m) j" "(q, e) \<in> set (spans c)"
  shows "cstr (drop q m) = take (e - q) (drop q buf)"
proof -
  note ok = parsecmd_parsed[OF assms(2)]
  have w: "is_word buf (q, e)" by (rule cmd_ok_spans[OF ok(1) assms(3)])
  then have b: "q < e" "e \<le> length buf" by (auto simp: is_word_def)
  have m: "length m = length buf + 1" "k \<le> length buf \<Longrightarrow> m ! k = (if k \<in> snd ` set (spans c) then 0 else (buf @ [0]) ! k)" for k
    using nulterminate_nth(1)[of c "buf @ [0]"] nulterminate_nth(2)[of k "buf @ [0]" c] ok(2) by auto
  have inside: "m ! k = buf ! k" if "q \<le> k" "k < e" for k
  proof -
    have "k \<notin> snd ` set (spans c)" using word_ends_apart[OF w] cmd_ok_spans[OF ok(1)] that by fastforce
    then show ?thesis using m(2)[of k] that b by (simp add: nth_append)
  qed
  have "cstr (drop q m) = take (e - q) (drop q m)"
  proof (rule cstr_prefix)
    fix k assume "k < e - q"
    then show "drop q m ! k \<noteq> 0" using inside[of "q + k"] assms(1) b m(1) by (metis add_diff_inverse_nat le_add1 less_diff_conv2 nat_add_left_cancel_less nth_drop nth_mem less_le_trans not_less add.commute order.strict_implies_order)
  next
    show "drop q m ! (e - q) = 0" using m(2)[of e] assms(3) b m(1) by force
  qed (use b m(1) in simp)
  also have "\<dots> = take (e - q) (drop q buf)"
    by (rule nth_equalityI) (use b m(1) inside in auto)
  finally show ?thesis .
qed

theorem nulterminate_correct_witness:
  "\<exists>c m j. parsecmd [108, 115, 32, 97, 62, 120] = Parsed (c, m) j \<and> (3, 4) \<in> set (spans c) \<and> cstr (drop 3 m) = [97]"
proof -
  let ?b = "[108, 115, 32, 97, 62, 120] :: u8 list" and ?c = "REDIR (EXEC [(0, 2), (3, 4)]) (5, 6) wronly_create 1"
  have p: "parsecmd ?b = Parsed (?c, [108, 115, 0, 97, 0, 120, 0]) 6" by code_simp
  have "0 \<notin> set ?b" "(3, 4) \<in> set (spans ?c)" by simp_all
  from nulterminate_correct[OF this(1) p this(2)] p this(2) show ?thesis by fastforce
qed

end
