(* ===== verification/Shellround.thy ===== *)
theory Shellround
  imports Shellprop
begin

text \<open>
  The shell's parser as an inverse of printing: a command over strings is printed with every
  subcommand in parentheses and every word followed by a blank, and \<open>parsecmd\<close> on that line returns a
  command whose words are those strings.
\<close>

datatype ast = Exec "u8 list list" | Redir ast "u8 list" u32 nat | Pipe ast ast | Seq ast ast | Back ast

abbreviation word_at :: "u8 list \<Rightarrow> span \<Rightarrow> u8 list" where
  "word_at buf w \<equiv> take (snd w - fst w) (drop (fst w) buf)"

fun strings :: "u8 list \<Rightarrow> cmd \<Rightarrow> ast" where
  "strings buf (EXEC args) = Exec (map (word_at buf) args)"
| "strings buf (REDIR c f mode fd) = Redir (strings buf c) (word_at buf f) mode fd"
| "strings buf (PIPE l r) = Pipe (strings buf l) (strings buf r)"
| "strings buf (LIST l r) = Seq (strings buf l) (strings buf r)"
| "strings buf (BACK c) = Back (strings buf c)"

definition paren :: "u8 list \<Rightarrow> u8 list" where "paren xs = 40 # xs @ [41]"

fun unparse :: "ast \<Rightarrow> u8 list" where
  "unparse (Exec ws) = concat (map (\<lambda>w. w @ [32]) ws)"
| "unparse (Redir a f mode fd) = paren (unparse a) @ (if fd = 0 then 60 else 62) # f @ [32]"
| "unparse (Pipe l r) = paren (unparse l) @ 124 # paren (unparse r)"
| "unparse (Seq l r) = paren (unparse l) @ 59 # paren (unparse r)"
| "unparse (Back a) = paren (unparse a) @ [38]"

definition word_ok :: "u8 list \<Rightarrow> bool" where
  "word_ok w \<longleftrightarrow> w \<noteq> [] \<and> 0 \<notin> set w \<and> list_all word_char w"

fun printable :: "ast \<Rightarrow> bool" where
  "printable (Exec ws) \<longleftrightarrow> length ws < MAXARGS \<and> list_all word_ok ws"
| "printable (Redir a f mode fd) \<longleftrightarrow> printable a \<and> word_ok f \<and> ((mode, fd) = (rdonly, 0) \<or> (mode, fd) = (wronly_create, 1))"
| "printable (Pipe l r) \<longleftrightarrow> printable l \<and> printable r"
| "printable (Seq l r) \<longleftrightarrow> printable l \<and> printable r"
| "printable (Back a) \<longleftrightarrow> printable a"

text \<open>The fuel a printed command takes, and that \<open>parsecmd\<close> provides it.\<close>

fun depth :: "ast \<Rightarrow> nat" where
  "depth (Exec ws) = 3"
| "depth (Redir a f mode fd) = 5 + depth a"
| "depth (Pipe l r) = 5 + max (depth l) (depth r)"
| "depth (Seq l r) = 5 + max (depth l) (depth r)"
| "depth (Back a) = 5 + depth a"

lemma depth_le: "depth a \<le> 4 * length (unparse a) + 4"
  by (induction a) (auto simp: paren_def)

subsection \<open>Tokens of a printed line\<close>

text \<open>A text that starts with no blank and no NUL.\<close>

definition calm :: "u8 list \<Rightarrow> bool" where
  "calm xs \<longleftrightarrow> (\<forall>c ys. xs = c # ys \<longrightarrow> c \<notin> set whitespace \<and> c \<noteq> 0)"

lemma calm_simps [simp]: "calm []" "calm (c # ys) \<longleftrightarrow> c \<notin> set whitespace \<and> c \<noteq> 0"
  by (auto simp: calm_def)

lemma drop_later: "drop i buf = xs @ post \<Longrightarrow> drop (i + length xs) buf = post"
  by (metis append_eq_conv_conj drop_drop add.commute)

lemma char_at_drop: "char_at buf i = (case drop i buf of [] \<Rightarrow> 0 | c # _ \<Rightarrow> c)"
proof (cases "i < length buf")
  case True
  then show ?thesis by (simp add: char_at_def Cons_nth_drop_Suc[symmetric])
qed (simp add: char_at_def)

lemma skip_blanks_calm: "drop i buf = xs \<Longrightarrow> calm xs \<Longrightarrow> skip_blanks buf i = i"
  by (cases xs) (auto simp: skip_blanks_def)

lemma peek_calm: "drop i buf = xs \<Longrightarrow> calm xs \<Longrightarrow> peek buf i toks = ((case xs of [] \<Rightarrow> False | c # _ \<Rightarrow> c \<in> set toks), i)"
  by (cases xs) (auto simp: peek_def Let_def skip_blanks_calm char_at_drop)

lemma gettoken_symbol:
  assumes "drop i buf = c # post" "c \<in> {124, 40, 41, 59, 38, 60}" "calm post"
  shows "gettoken buf i = (c, (i, i + 1), i + 1)"
proof -
  have "calm (c # post)" using assms(2) by (auto simp: whitespace_def)
  moreover have "drop (i + 1) buf = post" using drop_later[of i buf "[c]" post] assms(1) by simp
  ultimately show ?thesis
    using assms skip_blanks_calm[of i buf] skip_blanks_calm[of "i + 1" buf] by (auto simp: gettoken_def Let_def char_at_drop)
qed

lemma gettoken_gt:
  assumes "drop i buf = 62 # post" "calm post" "\<forall>c ys. post = c # ys \<longrightarrow> c \<noteq> 62"
  shows "gettoken buf i = (62, (i, i + 1), i + 1)"
proof -
  have "calm (62 # post)" by (auto simp: whitespace_def)
  moreover have "drop (i + 1) buf = post" using drop_later[of i buf "[62]" post] assms(1) by simp
  ultimately show ?thesis
    using assms skip_blanks_calm[of i buf] skip_blanks_calm[of "i + 1" buf]
    by (auto simp: gettoken_def Let_def char_at_drop split: list.splits)
qed

lemma word_calm: "word_ok w \<Longrightarrow> calm (w @ xs)"
  by (cases w) (auto simp: word_ok_def word_char_def)

lemma gettoken_word_at:
  assumes d: "drop i buf = w @ 32 # post" and w: "word_ok w" and p: "calm post"
  shows "gettoken buf i = (97, (i, i + length w), i + length w + 1)"
proof -
  obtain c u where c: "w = c # u" "c \<noteq> 0" "word_char c" using w by (cases w) (auto simp: word_ok_def)
  then have sym: "c \<notin> {124, 40, 41, 59, 38, 60}" "c \<noteq> 62" by (auto simp: word_char_def symbols_def)
  have s: "skip_blanks buf i = i" by (rule skip_blanks_calm[OF d word_calm[OF w]])
  have "takeWhile word_char (w @ 32 # post) = w"
    using w by (subst takeWhile_append2) (auto simp: word_ok_def list_all_iff word_char_def whitespace_def)
  then have e: "word_end buf i = i + length w" using d by (simp add: word_end_def word_char_def[abs_def])
  have "skip_blanks buf (i + length w) = i + length w + 1"
  proof -
    have "takeWhile (\<lambda>c. c \<in> set whitespace) (32 # post) = [32]" using p by (cases post) (auto simp: whitespace_def)
    then show ?thesis using drop_later[OF d] by (simp add: skip_blanks_def)
  qed
  moreover have "char_at buf i = c" using d c(1) by (simp add: char_at_drop)
  ultimately show ?thesis using s e c(2) sym by (simp add: gettoken_def Let_def)
qed

lemma word_at_word: "drop i buf = w @ xs \<Longrightarrow> word_at buf (i, i + length w) = w"
  by simp

subsection \<open>Redirections and arguments\<close>

text \<open>What follows a printed command: the end of the line or a closing parenthesis.\<close>

definition stop :: "u8 list \<Rightarrow> bool" where "stop xs \<longleftrightarrow> (\<forall>c ys. xs = c # ys \<longrightarrow> c = 41)"

lemma stop_cases: "stop xs \<Longrightarrow> xs = [] \<or> (\<exists>ys. xs = 41 # ys)"
  by (cases xs) (auto simp: stop_def)

lemma stop_simps [simp]: "stop (41 # xs)" "stop []"
  by (auto simp: stop_def)

lemma stop_plain: "stop xs \<Longrightarrow> \<forall>c ys. xs = c # ys \<longrightarrow> c \<noteq> 60 \<and> c \<noteq> 62"
  by (auto simp: stop_def)

lemma stop_calm: "stop xs \<Longrightarrow> calm xs"
  by (auto simp: stop_def calm_def whitespace_def)

lemma parseredirs_none:
  assumes "drop i buf = xs" "i \<le> length buf" "calm xs" "\<forall>c ys. xs = c # ys \<longrightarrow> c \<noteq> 60 \<and> c \<noteq> 62"
  shows "parseredirs buf i = Parsed [] i"
  using assms peek_calm[OF assms(1,3), of "[60, 62]"] by (subst parseredirs.simps) (auto split: list.splits)

definition redir_of :: "bool \<Rightarrow> span \<Rightarrow> redir" where
  "redir_of input f = (if input then (f, rdonly, 0) else (f, wronly_create, 1))"

lemma parseredirs_one:
  assumes d: "drop i buf = (if b then 60 else 62) # f @ 32 # post" and f: "word_ok f" and p: "stop post"
  shows "parseredirs buf i = Parsed [redir_of b (i + 1, i + 1 + length f)] (i + length f + 2)"
proof -
  have i: "i < length buf" using d by (metis drop_all list.distinct(1) not_less)
  have d1: "drop (i + 1) buf = f @ 32 # post" using drop_later[of i buf "[if b then 60 else 62]"] d by simp
  have d2: "drop (i + length f + 2) buf = post" using drop_later[of "i + 1" buf "f @ [32]"] d1 by (simp add: ac_simps)
  have i2: "i + length f + 2 \<le> length buf" using arg_cong[OF d, of length] i by simp
  have c: "calm (f @ 32 # post)" by (rule word_calm[OF f])
  have pk: "peek buf i [60, 62] = (True, i)" using peek_calm[OF d, of "[60, 62]"] by (auto simp: whitespace_def)
  have nogt: "\<forall>c ys. f @ 32 # post = c # ys \<longrightarrow> c \<noteq> 62"
    using f by (cases f) (auto simp: word_ok_def word_char_def symbols_def)
  have g: "gettoken buf i = ((if b then 60 else 62), (i, i + 1), i + 1)"
    using gettoken_symbol[OF _ _ c] gettoken_gt[OF _ c nogt] d by (cases b) auto
  have h: "gettoken buf (i + 1) = (97, (i + 1, i + 1 + length f), i + length f + 2)"
    using gettoken_word_at[OF d1 f stop_calm[OF p]] by simp
  have "parseredirs buf (i + length f + 2) = Parsed [] (i + length f + 2)"
    using stop_cases[OF p] by (intro parseredirs_none[OF d2 i2 stop_calm[OF p]]) auto
  then show ?thesis using pk g h i by (subst parseredirs.simps) (auto simp: redir_of_def)
qed

lemma parseargs_print:
  assumes "drop i buf = concat (map (\<lambda>w. w @ [32]) ws) @ post" "i \<le> length buf" "stop post" "list_all word_ok ws"
    "length args + length ws < MAXARGS"
  shows "\<exists>as. parseargs buf args rs i = Parsed (args @ as, rs) (i + length (concat (map (\<lambda>w. w @ [32]) ws))) \<and> map (word_at buf) as = ws"
  using assms
proof (induction ws arbitrary: i args)
  case Nil
  then show ?case
    using stop_cases[OF Nil.prems(3)] peek_calm[of i buf post "[124, 41, 38, 59]"] skip_blanks_calm[of i buf "[]"]
    by (subst parseargs.simps) (auto simp: gettoken_def char_at_drop whitespace_def)
next
  case (Cons w ws)
  let ?rest = "concat (map (\<lambda>w. w @ [32]) ws) @ post" and ?k = "i + length w + 1"
  have w: "word_ok w" using Cons.prems(4) by simp
  have d: "drop i buf = w @ 32 # ?rest" using Cons.prems(1) by simp
  have d2: "drop ?k buf = ?rest" using drop_later[of i buf "w @ [32]"] d by simp
  have k: "?k \<le> length buf" using arg_cong[OF d, of length] Cons.prems(2) by simp
  have r: "calm ?rest \<and> (\<forall>c ys. ?rest = c # ys \<longrightarrow> c \<noteq> 60 \<and> c \<noteq> 62)"
  proof (cases ws)
    case Nil
    then show ?thesis using stop_calm[OF Cons.prems(3)] stop_cases[OF Cons.prems(3)] by auto
  next
    case (Cons v vs)
    then show ?thesis using Cons.prems(4) by (cases v) (auto simp: word_ok_def word_char_def symbols_def)
  qed
  have pk: "peek buf i [124, 41, 38, 59] = (False, i)"
    using peek_calm[OF d word_calm[OF w], of "[124, 41, 38, 59]"] w by (cases w) (auto simp: word_ok_def word_char_def symbols_def)
  note g = gettoken_word_at[OF d w] parseredirs_none[OF d2 k]
  obtain as where "parseargs buf (args @ [(i, i + length w)]) rs ?k = Parsed ((args @ [(i, i + length w)]) @ as, rs) (?k + length (concat (map (\<lambda>w. w @ [32]) ws)))"
      "map (word_at buf) as = ws"
    using Cons.IH[OF d2 k Cons.prems(3), of "args @ [(i, i + length w)]"] Cons.prems(4,5) by auto
  moreover have "(97 :: u8) \<noteq> 0" by simp
  ultimately show ?case
    using pk g r Cons.prems(2,5) d
    by (intro exI[of _ "(i, i + length w) # as"], subst parseargs.simps) (simp add: ac_simps)
qed

subsection \<open>Printed commands\<close>

lemma unparse_calm: "printable a \<Longrightarrow> calm xs \<Longrightarrow> calm (unparse a @ xs)"
proof (cases a)
  case (Exec ws)
  assume "printable a" "calm xs"
  then show ?thesis using Exec by (cases ws) (auto simp: word_calm)
qed (auto simp: paren_def whitespace_def)

definition prints :: "ast \<Rightarrow> bool" where
  "prints a \<longleftrightarrow> (\<forall>buf i post n. drop i buf = unparse a @ post \<longrightarrow> i \<le> length buf \<longrightarrow> stop post \<longrightarrow> depth a \<le> n \<longrightarrow>
     (\<exists>c. parseline n buf i = Parsed c (i + length (unparse a)) \<and> strings buf c = a))"

lemma printsD:
  "prints a \<Longrightarrow> drop i buf = unparse a @ post \<Longrightarrow> i \<le> length buf \<Longrightarrow> stop post \<Longrightarrow> depth a \<le> n \<Longrightarrow>
   \<exists>c. parseline n buf i = Parsed c (i + length (unparse a)) \<and> strings buf c = a"
  by (simp add: prints_def)

lemma drop_paren:
  assumes "drop i buf = paren xs @ post"
  shows "drop (i + 1) buf = xs @ 41 # post" "drop (i + 1 + length xs) buf = 41 # post" "drop (i + length xs + 2) buf = post" "i + length xs + 2 \<le> length buf"
proof -
  show a: "drop (i + 1) buf = xs @ 41 # post" using drop_later[of i buf "[40]"] assms by (simp add: paren_def)
  show b: "drop (i + 1 + length xs) buf = 41 # post" by (rule drop_later[OF a])
  show "drop (i + length xs + 2) buf = post" using drop_later[of "i + 1 + length xs" buf "[41]" post] b by (simp add: ac_simps)
  show "i + length xs + 2 \<le> length buf" using arg_cong[OF b, of length] by simp
qed

lemma parseexec_paren:
  assumes a: "prints a" "printable a" and d: "drop i buf = paren (unparse a) @ post" and p: "calm post" and n: "depth a \<le> n"
  obtains c where "strings buf c = a"
    "parseexec (Suc (Suc n)) buf i = pbind (parseredirs buf (i + length (unparse a) + 2)) (\<lambda>rs j. Parsed (wrap c rs) j)"
proof -
  note dp = drop_paren[OF d]
  have c41: "calm (unparse a @ 41 # post)" by (rule unparse_calm[OF a(2)]) (simp add: whitespace_def)
  have d0: "drop i buf = 40 # unparse a @ 41 # post" using d by (simp add: paren_def)
  obtain c where c: "parseline n buf (i + 1) = Parsed c (i + 1 + length (unparse a))" "strings buf c = a"
    using printsD[OF a(1) dp(1) _ _ n] dp(4) by auto
  have "peek buf i [40] = (True, i)" using peek_calm[OF d0, of "[40]"] by (simp add: whitespace_def)
  moreover have "gettoken buf i = (40, (i, i + 1), i + 1)" by (rule gettoken_symbol[OF d0 _ c41]) simp
  moreover have "peek buf (i + 1 + length (unparse a)) [41] = (True, i + 1 + length (unparse a))"
    using peek_calm[OF dp(2), of "[41]"] by (simp add: whitespace_def)
  moreover have "gettoken buf (i + 1 + length (unparse a)) = (41, (i + 1 + length (unparse a), i + length (unparse a) + 2), i + length (unparse a) + 2)"
    using gettoken_symbol[OF dp(2) _ p] by simp
  ultimately show thesis using c by (intro that[of c]) simp_all
qed

lemma parseexec_paren_plain:
  assumes a: "prints a" "printable a" and d: "drop i buf = paren (unparse a) @ post" and p: "calm post"
    and r: "\<forall>c ys. post = c # ys \<longrightarrow> c \<noteq> 60 \<and> c \<noteq> 62" and n: "depth a + 2 \<le> n"
  obtains c where "strings buf c = a" "parseexec n buf i = Parsed c (i + length (unparse a) + 2)"
proof -
  obtain m where m: "n = Suc (Suc m)" "depth a \<le> m" using n by (metis add_2_eq_Suc' le_add2 le_Suc_ex Suc_le_D Suc_le_mono)
  obtain c where "strings buf c = a" "parseexec n buf i = pbind (parseredirs buf (i + length (unparse a) + 2)) (\<lambda>rs j. Parsed (wrap c rs) j)"
    using parseexec_paren[OF a d p m(2)] m(1) by metis
  then show thesis using that parseredirs_none[OF drop_paren(3,4)[OF d] p r] by simp
qed

lemma parsepipe_stop:
  assumes "parseexec n buf i = Parsed c j" "drop j buf = post" "calm post" "\<forall>c ys. post = c # ys \<longrightarrow> c \<noteq> 124"
  shows "parsepipe (Suc n) buf i = Parsed c j"
  using assms peek_calm[OF assms(2,3), of "[124]"] by (auto split: list.splits)

lemma parsebacks_none:
  assumes "drop j buf = post" "j \<le> length buf" "calm post" "\<forall>c ys. post = c # ys \<longrightarrow> c \<noteq> 38"
  shows "parsebacks buf c j = Parsed c j"
  using assms peek_calm[OF assms(1,3), of "[38]"] by (subst parsebacks.simps) (auto split: list.splits)

lemma parseline_stop:
  assumes "parsepipe n buf i = Parsed c j" "drop j buf = post" "j \<le> length buf" "stop post"
  shows "parseline (Suc n) buf i = Parsed c j"
  using assms parsebacks_none[OF assms(2,3) stop_calm[OF assms(4)]] peek_calm[OF assms(2) stop_calm[OF assms(4)], of "[59]"]
    stop_cases[OF assms(4)] by auto

lemma fuel3: "3 \<le> (n :: nat) \<Longrightarrow> (\<And>m. n = Suc (Suc (Suc m)) \<Longrightarrow> thesis) \<Longrightarrow> thesis"
  by (metis add_Suc le_Suc_ex numeral_3_eq_3 plus_nat.add_0)

lemma prints_Exec: "printable (Exec ws) \<Longrightarrow> prints (Exec ws)"
  unfolding prints_def
proof (intro allI impI)
  fix buf i post n
  assume w: "printable (Exec ws)" and d: "drop i buf = unparse (Exec ws) @ post" and i: "i \<le> length buf" and p: "stop post" and "depth (Exec ws) \<le> n"
  then obtain m where m: "n = Suc (Suc (Suc m))" using fuel3[of n thesis] by simp
  let ?j = "i + length (unparse (Exec ws))"
  have cs: "calm (unparse (Exec ws) @ post)" by (rule unparse_calm[OF w stop_calm[OF p]])
  have hd: "\<forall>c ys. unparse (Exec ws) @ post = c # ys \<longrightarrow> c \<noteq> 40 \<and> c \<noteq> 60 \<and> c \<noteq> 62"
  proof (cases ws)
    case Nil
    then show ?thesis using stop_cases[OF p] by auto
  next
    case (Cons v vs)
    then show ?thesis using w by (cases v) (auto simp: word_ok_def word_char_def symbols_def)
  qed
  have pk: "peek buf i [40] = (False, i)" using peek_calm[OF d cs, of "[40]"] hd by (auto split: list.splits)
  obtain as where as: "parseargs buf [] [] i = Parsed (as, []) ?j" "map (word_at buf) as = ws"
    using parseargs_print[of i buf ws post "[]" "[]"] d i p w by auto
  have e: "parseexec (Suc m) buf i = Parsed (EXEC as) ?j"
    using pk as(1) parseredirs_none[OF d i cs] hd by simp
  have dj: "drop ?j buf = post" by (rule drop_later[OF d])
  have j: "?j \<le> length buf" using arg_cong[OF d, of length] i by simp
  have "parsepipe (Suc (Suc m)) buf i = Parsed (EXEC as) ?j"
    by (rule parsepipe_stop[OF e dj stop_calm[OF p]]) (use stop_cases[OF p] in auto)
  from parseline_stop[OF this dj j p] m as(2)
  show "\<exists>c. parseline n buf i = Parsed c ?j \<and> strings buf c = Exec ws" by (intro exI[of _ "EXEC as"]) simp
qed

lemma prints_Redir:
  assumes a: "prints a" and w: "printable (Redir a f mode fd)"
  shows "prints (Redir a f mode fd)"
  unfolding prints_def
proof (intro allI impI)
  fix buf i post n
  assume d: "drop i buf = unparse (Redir a f mode fd) @ post" and p: "stop post" and n: "depth (Redir a f mode fd) \<le> n"
  obtain m where m: "n = Suc (Suc (Suc (Suc m)))" "depth a \<le> m" using n that[of "n - 4"] by simp
  let ?k = "i + length (unparse a) + 2" and ?j = "i + length (unparse (Redir a f mode fd))"
  have d0: "drop i buf = paren (unparse a) @ ((if fd = 0 then 60 else 62) # f @ 32 # post)" using d by simp
  obtain c where c: "strings buf c = a"
      "parseexec (Suc (Suc m)) buf i = pbind (parseredirs buf ?k) (\<lambda>rs j. Parsed (wrap c rs) j)"
    by (rule parseexec_paren[OF a _ d0 _ m(2)]) (use w in \<open>auto simp: whitespace_def\<close>)
  have dk: "drop ?k buf = (if fd = 0 then 60 else 62) # f @ 32 # post" by (rule drop_paren(3)[OF d0])
  have r: "parseredirs buf ?k = Parsed [redir_of (fd = 0) (?k + 1, ?k + 1 + length f)] ?j"
    using parseredirs_one[OF dk _ p] w by (simp add: paren_def ac_simps)
  define c' where "c' = REDIR c (?k + 1, ?k + 1 + length f) mode fd"
  have e: "parseexec (Suc (Suc m)) buf i = Parsed c' ?j" using c(2) r w by (auto simp: redir_of_def c'_def)
  have dj: "drop ?j buf = post" by (rule drop_later[OF d])
  have j: "?j \<le> length buf" using arg_cong[OF dk, of length] drop_paren(4)[OF d0] by (simp add: paren_def)
  have "parsepipe (Suc (Suc (Suc m))) buf i = Parsed c' ?j"
    by (rule parsepipe_stop[OF e dj stop_calm[OF p]]) (use stop_cases[OF p] in auto)
  from parseline_stop[OF this dj j p] m(1)
  have "parseline n buf i = Parsed c' ?j" by simp
  moreover have "strings buf c' = Redir a f mode fd"
    using c(1) word_at_word[of "?k + 1" buf f "32 # post"] drop_later[of ?k buf "[if fd = 0 then 60 else 62]"] dk by (simp add: c'_def)
  ultimately show "\<exists>c. parseline n buf i = Parsed c ?j \<and> strings buf c = Redir a f mode fd" by blast
qed

lemma prints_Pipe:
  assumes a: "prints l" "prints r" and w: "printable (Pipe l r)"
  shows "prints (Pipe l r)"
  unfolding prints_def
proof (intro allI impI)
  fix buf i post n
  assume d: "drop i buf = unparse (Pipe l r) @ post" and p: "stop post" and n: "depth (Pipe l r) \<le> n"
  obtain m where m: "n = Suc (Suc (Suc m))" "depth l \<le> m - 1" "depth r \<le> m - 2" "2 \<le> m" using n fuel3[of n thesis] by fastforce
  let ?k = "i + length (unparse l) + 2" and ?j = "i + length (unparse (Pipe l r))"
  have d0: "drop i buf = paren (unparse l) @ (124 # paren (unparse r) @ post)" using d by simp
  obtain c where c: "strings buf c = l" "parseexec (Suc m) buf i = Parsed c ?k"
    by (rule parseexec_paren_plain[OF a(1) _ d0, of "Suc m"]) (use w m in \<open>auto simp: whitespace_def\<close>)
  have dk: "drop ?k buf = 124 # paren (unparse r) @ post" by (rule drop_paren(3)[OF d0])
  have d1: "drop (?k + 1) buf = paren (unparse r) @ post" using drop_later[of ?k buf "[124]"] dk by simp
  obtain c' where c': "strings buf c' = r" "parseexec m buf (?k + 1) = Parsed c' ?j"
    by (rule parseexec_paren_plain[OF a(2) _ d1 stop_calm[OF p] stop_plain[OF p], of m]) (use w m in \<open>auto simp: paren_def ac_simps\<close>)
  have dj: "drop ?j buf = post" by (rule drop_later[OF d])
  have j: "?j \<le> length buf" using drop_paren(4)[OF d1] by (simp add: paren_def)
  have "parsepipe (Suc m) buf (?k + 1) = Parsed c' ?j"
    by (rule parsepipe_stop[OF c'(2) dj stop_calm[OF p]]) (use stop_cases[OF p] in auto)
  moreover have "peek buf ?k [124] = (True, ?k)" using peek_calm[OF dk, of "[124]"] by (simp add: whitespace_def)
  moreover have "gettoken buf ?k = (124, (?k, ?k + 1), ?k + 1)"
    by (rule gettoken_symbol[OF dk]) (auto simp: paren_def whitespace_def)
  ultimately have "parsepipe (Suc (Suc m)) buf i = Parsed (PIPE c c') ?j" using c(2) by simp
  from parseline_stop[OF this dj j p] m(1) c(1) c'(1)
  show "\<exists>c. parseline n buf i = Parsed c ?j \<and> strings buf c = Pipe l r" by (intro exI[of _ "PIPE c c'"]) simp
qed

lemma prints_Back:
  assumes a: "prints a" and w: "printable (Back a)"
  shows "prints (Back a)"
  unfolding prints_def
proof (intro allI impI)
  fix buf i post n
  assume d: "drop i buf = unparse (Back a) @ post" and p: "stop post" and n: "depth (Back a) \<le> n"
  obtain m where m: "n = Suc (Suc (Suc m))" "depth a \<le> m - 1" "2 \<le> m" using n fuel3[of n thesis] by fastforce
  let ?k = "i + length (unparse a) + 2" and ?j = "i + length (unparse (Back a))"
  have d0: "drop i buf = paren (unparse a) @ (38 # post)" using d by simp
  obtain c where c: "strings buf c = a" "parseexec (Suc m) buf i = Parsed c ?k"
    by (rule parseexec_paren_plain[OF a _ d0, of "Suc m"]) (use w m in \<open>auto simp: whitespace_def\<close>)
  have dk: "drop ?k buf = 38 # post" by (rule drop_paren(3)[OF d0])
  have k: "?j = ?k + 1" by (simp add: paren_def)
  have dj: "drop ?j buf = post" by (rule drop_later[OF d])
  have j: "?j \<le> length buf" using arg_cong[OF dk, of length] drop_paren(4)[OF d0] k by simp
  have pp: "parsepipe (Suc (Suc m)) buf i = Parsed c ?k"
    by (rule parsepipe_stop[OF c(2) dk]) (auto simp: whitespace_def)
  have "peek buf ?k [38] = (True, ?k)" using peek_calm[OF dk, of "[38]"] by (simp add: whitespace_def)
  moreover have "gettoken buf ?k = (38, (?k, ?k + 1), ?k + 1)" by (rule gettoken_symbol[OF dk _ stop_calm[OF p]]) simp
  moreover have "parsebacks buf (BACK c) (?k + 1) = Parsed (BACK c) (?k + 1)"
    using parsebacks_none[OF dj j stop_calm[OF p], of "BACK c"] stop_cases[OF p] k by auto
  ultimately have b: "parsebacks buf c ?k = Parsed (BACK c) ?j" using k j by (subst parsebacks.simps) simp
  have "parseline n buf i = Parsed (BACK c) ?j"
    using pp b m(1) peek_calm[OF dj stop_calm[OF p], of "[59]"] stop_cases[OF p] by auto
  then show "\<exists>c. parseline n buf i = Parsed c ?j \<and> strings buf c = Back a" using c(1) by (intro exI[of _ "BACK c"]) simp
qed

lemma prints_Seq:
  assumes a: "prints l" "prints r" and w: "printable (Seq l r)"
  shows "prints (Seq l r)"
  unfolding prints_def
proof (intro allI impI)
  fix buf i post n
  assume d: "drop i buf = unparse (Seq l r) @ post" and p: "stop post" and n: "depth (Seq l r) \<le> n"
  obtain m where m: "n = Suc (Suc (Suc m))" "depth l \<le> m - 1" "depth r \<le> m - 2" "2 \<le> m" using n fuel3[of n thesis] by fastforce
  let ?k = "i + length (unparse l) + 2" and ?j = "i + length (unparse (Seq l r))"
  have d0: "drop i buf = paren (unparse l) @ (59 # paren (unparse r) @ post)" using d by simp
  obtain c where c: "strings buf c = l" "parseexec (Suc m) buf i = Parsed c ?k"
    by (rule parseexec_paren_plain[OF a(1) _ d0, of "Suc m"]) (use w m in \<open>auto simp: whitespace_def\<close>)
  have dk: "drop ?k buf = 59 # paren (unparse r) @ post" and kl: "?k \<le> length buf" by (rule drop_paren(3,4)[OF d0])+
  have d1: "drop (?k + 1) buf = paren (unparse r) @ post" using drop_later[of ?k buf "[59]"] dk by simp
  obtain c' where c': "strings buf c' = r" "parseexec m buf (?k + 1) = Parsed c' ?j"
    by (rule parseexec_paren_plain[OF a(2) _ d1 stop_calm[OF p] stop_plain[OF p], of m]) (use w m in \<open>auto simp: paren_def ac_simps\<close>)
  have dj: "drop ?j buf = post" by (rule drop_later[OF d])
  have j: "?j \<le> length buf" using drop_paren(4)[OF d1] by (simp add: paren_def)
  have "parsepipe (Suc m) buf (?k + 1) = Parsed c' ?j"
    by (rule parsepipe_stop[OF c'(2) dj stop_calm[OF p]]) (use stop_cases[OF p] in auto)
  from parseline_stop[OF this dj j p] have r: "parseline (Suc (Suc m)) buf (?k + 1) = Parsed c' ?j" .
  have pp: "parsepipe (Suc (Suc m)) buf i = Parsed c ?k"
    by (rule parsepipe_stop[OF c(2) dk]) (auto simp: whitespace_def)
  have b: "parsebacks buf c ?k = Parsed c ?k" by (rule parsebacks_none[OF dk kl]) (auto simp: whitespace_def)
  have "peek buf ?k [59] = (True, ?k)" using peek_calm[OF dk, of "[59]"] by (simp add: whitespace_def)
  moreover have "gettoken buf ?k = (59, (?k, ?k + 1), ?k + 1)"
    by (rule gettoken_symbol[OF dk]) (auto simp: paren_def whitespace_def)
  ultimately have "parseline n buf i = Parsed (LIST c c') ?j"
    unfolding m(1) by (subst parseline.simps(2)) (simp only: pp b pbind.simps prod.case r if_True)
  then show "\<exists>c. parseline n buf i = Parsed c ?j \<and> strings buf c = Seq l r" using c(1) c'(1) by (intro exI[of _ "LIST c c'"]) simp
qed

lemma parse_print: "printable a \<Longrightarrow> prints a"
  by (induction a) (auto intro: prints_Exec prints_Redir prints_Pipe prints_Seq prints_Back)

text \<open>
  C35. The parser inverts printing: for every command whose words are non-empty strings of word
  characters, with fewer than \<open>MAXARGS\<close> arguments per simple command, \<open>parsecmd\<close> on its fully
  parenthesised text reads the whole line and returns a command with the same structure and words.
\<close>

theorem parsecmd_unparse:
  assumes "printable a"
  shows "\<exists>c m. parsecmd (unparse a) = Parsed (c, m) (length (unparse a)) \<and> strings (unparse a) c = a"
proof -
  obtain c where c: "parseline (4 * length (unparse a) + 4) (unparse a) 0 = Parsed c (length (unparse a))" "strings (unparse a) c = a"
    using printsD[OF parse_print[OF assms], of 0 "unparse a" "[]"] depth_le[of a] by auto
  have "peek (unparse a) (length (unparse a)) [] = (False, length (unparse a))"
    using peek_calm[of "length (unparse a)" "unparse a" "[]" "[]"] by simp
  then show ?thesis using c by (simp add: parsecmd_def)
qed

theorem parsecmd_unparse_witness:
  "\<exists>a c m. printable a \<and> a = Seq (Redir (Pipe (Exec [[108, 115]]) (Exec [[119, 99], [45, 108]])) [120] wronly_create 1) (Back (Exec [[97]]))
     \<and> parsecmd (unparse a) = Parsed (c, m) (length (unparse a)) \<and> strings (unparse a) c = a"
proof -
  let ?a = "Seq (Redir (Pipe (Exec [[108, 115]]) (Exec [[119, 99], [45, 108]])) [120] wronly_create 1) (Back (Exec [[97]]))"
  have "printable ?a" by (simp add: word_ok_def word_char_def whitespace_def symbols_def MAXARGS_def)
  then show ?thesis using parsecmd_unparse[of ?a] by blast
qed

end
