(* ===== verification/Uprog.thy ===== *)
theory Uprog
  imports Userlib
begin

text \<open>
  User programs as trees of system calls. A node is a call of \<^verbatim>\<open>src/user.h\<close> with its arguments; its
  branches are what the program does next, for every value the kernel may return. A program that
  loops on what it reads carries a fuel and ends in \<open>URunning\<close> when that is used up. Pointers passed to the
  kernel are the bytes they point at.
\<close>

text \<open>What \<open>fstat\<close> returns of \<^verbatim>\<open>struct stat\<close>: \<^verbatim>\<open>type\<close>, \<^verbatim>\<open>ino\<close> and \<^verbatim>\<open>size\<close>.\<close>

type_synonym ustat = "u32 \<times> u32 \<times> u32"

datatype uprog =
    UExit
  | URunning
  | UFault
  | UFork "int \<Rightarrow> uprog"
  | UWait "int \<Rightarrow> uprog"
  | UPipe "(int \<times> int) option \<Rightarrow> uprog"
  | URead int nat "u8 list option \<Rightarrow> uprog"
  | UWrite int "u8 list" "int \<Rightarrow> uprog"
  | UClose int "int \<Rightarrow> uprog"
  | UKill i32 "int \<Rightarrow> uprog"
  | UExec "u8 list" "u8 list list" "int \<Rightarrow> uprog"
  | UOpen "u8 list" u32 "int \<Rightarrow> uprog"
  | UMknod "u8 list" int int "int \<Rightarrow> uprog"
  | UUnlink "u8 list" "int \<Rightarrow> uprog"
  | UFstat int "ustat option \<Rightarrow> uprog"
  | ULink "u8 list" "u8 list" "int \<Rightarrow> uprog"
  | UMkdir "u8 list" "int \<Rightarrow> uprog"
  | UChdir "u8 list" "int \<Rightarrow> uprog"
  | UDup int "int \<Rightarrow> uprog"
  | USleep int "int \<Rightarrow> uprog"

text \<open>\<open>printf\<close>: \<open>putc\<close> writes one byte at a time and ignores the result.\<close>

definition uputs :: "int \<Rightarrow> u8 list \<Rightarrow> uprog \<Rightarrow> uprog" where
  "uputs fd bs k = foldr (\<lambda>c p. UWrite fd [c] (\<lambda>_. p)) bs k"

definition uprintf :: "int \<Rightarrow> string \<Rightarrow> uarg list \<Rightarrow> uprog \<Rightarrow> uprog" where
  "uprintf fd fmt args k = (case uformat False (lit fmt) args of None \<Rightarrow> UFault | Some bs \<Rightarrow> uputs fd bs k)"

text \<open>\<^verbatim>\<open>ulib.c\<close>: \<open>stat\<close>.\<close>

definition ulib_stat :: "u8 list \<Rightarrow> (ustat option \<Rightarrow> uprog) \<Rightarrow> uprog" where
  "ulib_stat n k = UOpen n 0 (\<lambda>fd. if fd < 0 then k None else UFstat fd (\<lambda>r. UClose fd (\<lambda>_. k r)))"

subsection \<open>Running a program on an input\<close>

text \<open>
  The environment of a filter: the blocks that reads of descriptor \<open>ufd\<close> return in turn, a block longer than
  the count being split, and the bytes written to descriptor 1. \<open>open\<close> returns that descriptor, and the
  calls a filter does not make have no result.
\<close>

record uenv =
  ufd :: int
  uinput :: "u8 list list"
  uoutput :: "u8 list"

fun next_block :: "nat \<Rightarrow> u8 list list \<Rightarrow> u8 list \<times> u8 list list" where
  "next_block n [] = ([], [])"
| "next_block n (b # bs) = (take n b, if drop n b = [] then bs else drop n b # bs)"

primrec urun :: "uprog \<Rightarrow> uenv \<Rightarrow> uenv option" where
  "urun UExit e = Some e"
| "urun URunning e = None"
| "urun UFault e = None"
| "urun (UFork k) e = None"
| "urun (UWait k) e = None"
| "urun (UPipe k) e = None"
| "urun (URead fd n k) e =
     (if fd = ufd e then case next_block n (uinput e) of (b, bs) \<Rightarrow> urun (k (Some b)) (e\<lparr>uinput := bs\<rparr>)
      else urun (k None) e)"
| "urun (UWrite fd bs k) e = urun (k (int (length bs))) (if fd = 1 then e\<lparr>uoutput := uoutput e @ bs\<rparr> else e)"
| "urun (UClose fd k) e = urun (k 0) e"
| "urun (UKill p k) e = None"
| "urun (UExec f a k) e = None"
| "urun (UOpen f mode k) e = urun (k (ufd e)) e"
| "urun (UMknod f a b k) e = None"
| "urun (UUnlink f k) e = None"
| "urun (UFstat fd k) e = None"
| "urun (ULink a b k) e = None"
| "urun (UMkdir f k) e = None"
| "urun (UChdir f k) e = None"
| "urun (UDup fd k) e = None"
| "urun (USleep n k) e = None"

lemma urun_uputs: "urun (uputs fd bs k) e = urun k (if fd = 1 then e\<lparr>uoutput := uoutput e @ bs\<rparr> else e)"
  unfolding uputs_def by (induction bs arbitrary: e) auto

end
