(* ===== verification/Shellrun.thy ===== *)
theory Shellrun
  imports Uprog Shell
begin

text \<open>
  What the shell asks of the kernel, \<^verbatim>\<open>src/sh.c\<close>: \<open>runcmd\<close>, \<open>getcmd\<close> and \<open>main\<close> as trees of system calls. The
  strings of a command are those that \<open>nulterminate\<close> left in the line.
\<close>

definition sh_panic :: "u8 list \<Rightarrow> uprog" where
  "sh_panic s = uprintf 2 ''%s\<newline>'' [AStr (Some s)] UExit"

definition fork1 :: "(int \<Rightarrow> uprog) \<Rightarrow> uprog" where
  "fork1 k = UFork (\<lambda>p. if p = - 1 then sh_panic (lit ''fork'') else k p)"

definition span_str :: "u8 list \<Rightarrow> span \<Rightarrow> u8 list" where
  "span_str m w = cstr (drop (fst w) m)"

fun runcmd :: "u8 list \<Rightarrow> cmd \<Rightarrow> uprog" where
  "runcmd m (EXEC args) =
     (case args of
        [] \<Rightarrow> UExit
      | a # _ \<Rightarrow> UExec (span_str m a) (map (span_str m) args) (\<lambda>_.
          uprintf 2 ''exec %s failed\<newline>'' [AStr (Some (span_str m a))] UExit))"
| "runcmd m (REDIR c f mode fd) =
     UClose (int fd) (\<lambda>_.
     UOpen (span_str m f) mode (\<lambda>r.
     if r < 0 then uprintf 2 ''open %s failed\<newline>'' [AStr (Some (span_str m f))] UExit
     else runcmd m c))"
| "runcmd m (LIST l r) = fork1 (\<lambda>p. if p = 0 then runcmd m l else UWait (\<lambda>_. runcmd m r))"
| "runcmd m (PIPE l r) =
     UPipe (\<lambda>ps. case ps of None \<Rightarrow> sh_panic (lit ''pipe'') | Some (p0, p1) \<Rightarrow>
     fork1 (\<lambda>p.
     if p = 0 then
       UClose 1 (\<lambda>_. UDup p1 (\<lambda>_. UClose p0 (\<lambda>_. UClose p1 (\<lambda>_. runcmd m l))))
     else fork1 (\<lambda>p.
       if p = 0 then
         UClose 0 (\<lambda>_. UDup p0 (\<lambda>_. UClose p0 (\<lambda>_. UClose p1 (\<lambda>_. runcmd m r))))
       else UClose p0 (\<lambda>_. UClose p1 (\<lambda>_. UWait (\<lambda>_. UWait (\<lambda>_. UExit)))))))"
| "runcmd m (BACK c) = fork1 (\<lambda>p. if p = 0 then runcmd m c else UExit)"

text \<open>
  \<open>gets\<close> as calls of \<open>read\<close>: \<open>n\<close> is how many more bytes fit before the NUL. \<open>getcmd\<close> zeroes the buffer first, so
  that the line is what precedes the first NUL; \<open>None\<close> is the return value -1.
\<close>

fun ugets :: "nat \<Rightarrow> u8 list \<Rightarrow> (u8 list \<Rightarrow> uprog) \<Rightarrow> uprog" where
  "ugets 0 buf k = k buf"
| "ugets (Suc n) buf k =
     URead 0 1 (\<lambda>r. case r of
       Some (c # _) \<Rightarrow> if c = 10 \<or> c = 13 then k (buf @ [c]) else ugets n (buf @ [c]) k
     | _ \<Rightarrow> k buf)"

definition getcmd :: "nat \<Rightarrow> (u8 list option \<Rightarrow> uprog) \<Rightarrow> uprog" where
  "getcmd nbuf k =
     uprintf 2 ''$ '' [] (ugets (nbuf - 1) [] (\<lambda>buf. if cstr buf = [] then k None else k (Some (cstr buf))))"

text \<open>The child: parse the line and run the command, or report the error.\<close>

definition sh_child :: "u8 list \<Rightarrow> uprog" where
  "sh_child line = (case parsecmd line of
       Parsed (c, m) _ \<Rightarrow> runcmd m c
     | Syntax e \<Rightarrow> sh_panic e
     | Nofuel \<Rightarrow> URunning)"

text \<open>The two loops of \<open>main\<close>, with the number of rounds as fuel.\<close>

fun open_console :: "nat \<Rightarrow> uprog \<Rightarrow> uprog" where
  "open_console 0 k = URunning"
| "open_console (Suc n) k =
     UOpen (lit ''console'') 0x002 (\<lambda>fd.
       if fd < 0 then k else if fd \<ge> 3 then UClose fd (\<lambda>_. k) else open_console n k)"

fun sh_loop :: "nat \<Rightarrow> uprog" where
  "sh_loop 0 = URunning"
| "sh_loop (Suc n) =
     getcmd 100 (\<lambda>r. case r of
       None \<Rightarrow> UExit
     | Some line \<Rightarrow>
         if take 3 line = lit ''cd '' then
           (let dir = drop 3 (butlast line)
            in UChdir dir (\<lambda>r. if r < 0 then uprintf 2 ''cannot cd %s\<newline>'' [AStr (Some dir)] (sh_loop n) else sh_loop n))
         else fork1 (\<lambda>p. if p = 0 then sh_child line else UWait (\<lambda>_. sh_loop n)))"

definition sh_main :: "nat \<Rightarrow> uprog" where
  "sh_main n = open_console n (sh_loop n)"

subsection \<open>Descriptors of a pipeline\<close>

text \<open>
  The effect of \<open>close\<close> and \<open>dup\<close> on a descriptor table, as the kernel has it: \<open>dup\<close> takes the lowest free
  descriptor.
\<close>

fun fdcall :: "'f option list \<Rightarrow> uprog \<Rightarrow> ('f option list \<times> uprog) option" where
  "fdcall t (UClose fd k) =
     (if 0 \<le> fd \<and> nat fd < length t \<and> t ! nat fd \<noteq> None then Some (t[nat fd := None], k 0) else Some (t, k (- 1)))"
| "fdcall t (UDup fd k) =
     (if 0 \<le> fd \<and> nat fd < length t \<and> t ! nat fd \<noteq> None
      then case find_index (\<lambda>f. f = None) t of
        None \<Rightarrow> Some (t, k (- 1))
      | Some n \<Rightarrow> Some (t[n := t ! nat fd], k (int n))
      else Some (t, k (- 1)))"
| "fdcall t p = None"

fun fdcalls :: "nat \<Rightarrow> 'f option list \<Rightarrow> uprog \<Rightarrow> ('f option list \<times> uprog) option" where
  "fdcalls 0 t p = Some (t, p)"
| "fdcalls (Suc n) t p = (case fdcall t p of None \<Rightarrow> None | Some (t, p) \<Rightarrow> fdcalls n t p)"

lemma lowest_free:
  assumes "i < length t" "t ! i = None" "\<And>j. j < i \<Longrightarrow> t ! j \<noteq> None"
  shows "find_index (\<lambda>f. f = None) t = Some i"
  using assms by (simp add: find_index_Some)

lemma close_dup_close:
  assumes "i < 2" "i = 1 \<longrightarrow> T ! 0 \<noteq> None" "T ! i \<noteq> None" "p < length T" "q < length T" "2 \<le> p" "2 \<le> q" "p \<noteq> q"
    "x \<in> {p, q}" "T ! p \<noteq> None" "T ! q \<noteq> None"
  shows "fdcalls 4 T (UClose (int i) (\<lambda>_. UDup (int x) (\<lambda>_. UClose (int p) (\<lambda>_. UClose (int q) (\<lambda>_. k))))) =
    Some ((T[p := None, q := None])[i := T ! x], k)"
proof -
  have l: "i < length T" using assms(1,4,6) by simp
  have "j = 0 \<and> i = 1" if "j < i" for j using that assms(1) by linarith
  then have f: "find_index (\<lambda>f. f = None) (T[i := None]) = Some i"
    using l assms(2) by (intro lowest_free) auto
  have x: "x < length T" "x \<noteq> i" "T ! x \<noteq> None" using assms by auto
  have n: "T[i := None, i := T ! x, p := None, q := None] = T[p := None, q := None, i := T ! x]"
    using assms(1,6,7) by (metis list_update_overwrite list_update_swap not_less)
  show ?thesis
    using assms l f x by (auto simp: eval_nat_numeral simp flip: n)
qed

text \<open>
  C36. A pipeline is plumbed right. With descriptors 0 and 1 open and a pipe returned on two free
  descriptors, the left command starts with the write end as descriptor 1, the right one with the
  read end as descriptor 0, each with every other descriptor as it was before the pipe; the
  shell itself keeps neither end, and waits for both.
\<close>

theorem pipe_plumbing:
  assumes "t ! 0 \<noteq> None" "t ! 1 \<noteq> None" "p0 < length t" "p1 < length t" "t ! p0 = None" "t ! p1 = None" "p0 \<noteq> p1"
    and T: "T = t[p0 := Some R, p1 := Some W]"
  shows "\<exists>k k1 k2. runcmd m (PIPE l r) = UPipe k \<and> k (Some (int p0, int p1)) = UFork k1
    \<and> fdcalls 4 T (k1 0) = Some (t[1 := Some W], runcmd m l)
    \<and> (\<forall>pid>0. k1 pid = UFork k2)
    \<and> fdcalls 4 T (k2 0) = Some (t[0 := Some R], runcmd m r)
    \<and> (\<forall>pid>0. fdcalls 2 T (k2 pid) = Some (t, UWait (\<lambda>_. UWait (\<lambda>_. UExit))))"
proof -
  have p: "2 \<le> p0" "2 \<le> p1" using assms(1,2,5,6) by (metis One_nat_def less_2_cases not_less)+
  have T01: "T ! 0 \<noteq> None" "T ! 1 \<noteq> None" "length T = length t" "T ! p0 = Some R" "T ! p1 = Some W"
    using assms p by auto
  have rst: "T[p0 := None, p1 := None] = t"
    using assms(3-7) T by (metis list_update_id list_update_overwrite list_update_swap)
  note c = close_dup_close[of _ T p0 p1]
  let ?k2 = "\<lambda>p :: int. if p = - 1 then sh_panic (lit ''fork'') else if p = 0 then
         UClose 0 (\<lambda>_. UDup (int p0) (\<lambda>_. UClose (int p0) (\<lambda>_. UClose (int p1) (\<lambda>_. runcmd m r))))
       else UClose (int p0) (\<lambda>_. UClose (int p1) (\<lambda>_. UWait (\<lambda>_. UWait (\<lambda>_. UExit))))"
  have "fdcalls 4 T (UClose 1 (\<lambda>_. UDup (int p1) (\<lambda>_. UClose (int p0) (\<lambda>_. UClose (int p1) (\<lambda>_. runcmd m l))))) = Some (t[1 := Some W], runcmd m l)"
    using c[of 1 p1] T01 p assms(3,4,7) rst by simp
  moreover have "fdcalls 4 T (?k2 0) = Some (t[0 := Some R], runcmd m r)"
    using c[of 0 p0] T01 p assms(3,4,7) rst by simp
  moreover have "fdcalls 2 T (?k2 pid) = Some (t, UWait (\<lambda>_. UWait (\<lambda>_. UExit)))" if "pid > 0" for pid
    using that T01 assms(3,4,7) rst by (simp add: numeral_2_eq_2)
  ultimately show ?thesis by (simp add: fork1_def, intro exI[of _ ?k2]) simp
qed

theorem pipe_plumbing_witness:
  "\<exists>k k1 k2. runcmd [97, 0, 98, 0] (PIPE (EXEC [(0, 1)]) (EXEC [(2, 3)])) = UPipe k \<and> k (Some (3, 4)) = UFork k1
    \<and> fdcalls 4 [Some 7, Some 7, Some 7, Some 8, Some (9 :: nat), None] (k1 0) =
        Some ([Some 7, Some 9, Some 7, None, None, None], runcmd [97, 0, 98, 0] (EXEC [(0, 1)]))
    \<and> (\<forall>pid>0. k1 pid = UFork k2)"
  using pipe_plumbing[of "[Some 7, Some 7, Some 7, None, None, None]" 3 4 "[Some 7, Some 7, Some 7, Some 8, Some 9, None]" "8 :: nat" 9
      "[97, 0, 98, 0]" "EXEC [(0, 1)]" "EXEC [(2, 3)]"]
  by (simp only: ) fastforce

end
