(* ===== verification/Grep.thy ===== *)
theory Grep
  imports Uprog
begin

text \<open>
  \<^verbatim>\<open>src/grep.c\<close>: the matcher \<open>match\<close>, \<open>matchhere\<close>, \<open>matchstar\<close>, the loop \<open>grep\<close> over the blocks of a file, and \<open>main\<close>.
  A pattern and a text are byte lists without their terminating NUL; a pointer into one is what
  follows it. The matcher is shown equal to the meaning of the pattern as a language, and the loop to
  print exactly the matching lines.
\<close>

subsection \<open>The matcher\<close>

text \<open>\<open>matchstar\<close> runs along the text and calls \<open>matchhere\<close> with a shorter pattern.\<close>

function matchhere :: "u8 list \<Rightarrow> u8 list \<Rightarrow> bool"
  and matchstar :: "u8 \<Rightarrow> u8 list \<Rightarrow> u8 list \<Rightarrow> bool" where
  "matchhere [] w = True"
| "matchhere (c # re) w =
     (case re of
        d # re' \<Rightarrow>
          if d = 42 then matchstar c re' w
          else (case w of [] \<Rightarrow> False | t # ts \<Rightarrow> (c = 46 \<or> c = t) \<and> matchhere re ts)
      | [] \<Rightarrow>
          if c = 36 then w = []
          else (case w of [] \<Rightarrow> False | t # ts \<Rightarrow> (c = 46 \<or> c = t) \<and> matchhere re ts))"
| "matchstar c re w =
     (matchhere re w \<or> (case w of [] \<Rightarrow> False | t # ts \<Rightarrow> (t = c \<or> c = 46) \<and> matchstar c re ts))"
  by pat_completeness auto
termination
  by (relation "measures [\<lambda>x. case x of Inl (re, w) \<Rightarrow> length re | Inr (c, re, w) \<Rightarrow> Suc (length re),
      \<lambda>x. case x of Inl (re, w) \<Rightarrow> length w | Inr (c, re, w) \<Rightarrow> length w]") auto

declare matchhere.simps(2) [simp del] matchstar.simps [simp del]

fun match_any :: "u8 list \<Rightarrow> u8 list \<Rightarrow> bool" where
  "match_any re w = (matchhere re w \<or> (case w of [] \<Rightarrow> False | _ # ts \<Rightarrow> match_any re ts))"

declare match_any.simps [simp del]

definition gmatch :: "u8 list \<Rightarrow> u8 list \<Rightarrow> bool" where
  "gmatch re w = (case re of c # re' \<Rightarrow> if c = 94 then matchhere re' w else match_any re w | [] \<Rightarrow> match_any re w)"

subsection \<open>What a pattern means\<close>

text \<open>
  A pattern is a sequence of items: a character class, repeated or not, and at the end an anchor. The
  language of a pattern is the set of texts it matches from their first character on.
\<close>

datatype item = One "u8 set" | Many "u8 set" | Eol

definition cls :: "u8 \<Rightarrow> u8 set" where "cls c = (if c = 46 then UNIV else {c})"

fun items :: "u8 list \<Rightarrow> item list" where
  "items [] = []"
| "items [c] = (if c = 36 then [Eol] else [One (cls c)])"
| "items (c # d # re) = (if d = 42 then Many (cls c) # items re else One (cls c) # items (d # re))"

fun lang :: "item list \<Rightarrow> u8 list set" where
  "lang [] = UNIV"
| "lang (One A # is) = {t # ts | t ts. t \<in> A \<and> ts \<in> lang is}"
| "lang (Many A # is) = {us @ ts | us ts. set us \<subseteq> A \<and> ts \<in> lang is}"
| "lang (Eol # is) = {[]}"

definition matches :: "u8 list \<Rightarrow> u8 list \<Rightarrow> bool" where
  "matches re w \<longleftrightarrow>
     (case re of
        c # re' \<Rightarrow> if c = 94 then w \<in> lang (items re') else (\<exists>us ts. w = us @ ts \<and> ts \<in> lang (items re))
      | [] \<Rightarrow> True)"

lemma many_Cons: "w \<in> lang (Many A # is) \<longleftrightarrow> w \<in> lang is \<or> (\<exists>t ts. w = t # ts \<and> t \<in> A \<and> ts \<in> lang (Many A # is))"
proof
  assume "w \<in> lang (Many A # is)"
  then obtain us ts where u: "w = us @ ts" "set us \<subseteq> A" "ts \<in> lang is" by auto
  show "w \<in> lang is \<or> (\<exists>t ts. w = t # ts \<and> t \<in> A \<and> ts \<in> lang (Many A # is))"
  proof (cases us)
    case (Cons v vs)
    then show ?thesis using u by auto
  qed (use u in auto)
next
  assume "w \<in> lang is \<or> (\<exists>t ts. w = t # ts \<and> t \<in> A \<and> ts \<in> lang (Many A # is))"
  then show "w \<in> lang (Many A # is)"
  proof
    assume "\<exists>t ts. w = t # ts \<and> t \<in> A \<and> ts \<in> lang (Many A # is)"
    then obtain t us ts where "w = (t # us) @ ts" "set (t # us) \<subseteq> A" "ts \<in> lang is" by auto
    then show ?thesis by (simp only: lang.simps) blast
  next
    assume "w \<in> lang is"
    then have "w = [] @ w \<and> set [] \<subseteq> A \<and> w \<in> lang is" by simp
    then show ?thesis by (simp only: lang.simps) blast
  qed
qed

lemma cls_iff: "t \<in> cls c \<longleftrightarrow> c = 46 \<or> c = t"
  by (auto simp: cls_def)

lemma matchhere_lang:
  "matchhere re w \<longleftrightarrow> w \<in> lang (items re)"
  "matchstar c re w \<longleftrightarrow> w \<in> lang (Many (cls c) # items re)"
proof (induction re w and c re w rule: matchhere_matchstar.induct)
  case (2 c re w)
  then show ?case
    by (cases re; cases w) (auto simp: matchhere.simps(2) cls_iff simp del: lang.simps(3))
next
  case (3 c re w)
  then show ?case
    by (subst matchstar.simps, subst many_Cons) (auto simp: cls_iff simp del: lang.simps split: list.splits)
qed simp

lemma match_any_lang: "match_any re w \<longleftrightarrow> (\<exists>us ts. w = us @ ts \<and> ts \<in> lang (items re))"
proof (induction w)
  case (Cons t w)
  have "(\<exists>us ts. t # w = us @ ts \<and> ts \<in> L) \<longleftrightarrow> t # w \<in> L \<or> (\<exists>us ts. w = us @ ts \<and> ts \<in> L)" for L
    by (auto simp: Cons_eq_append_conv)
  then show ?case using Cons by (subst match_any.simps) (simp add: matchhere_lang)
qed (subst match_any.simps, simp add: matchhere_lang)

lemma gmatch_iff: "gmatch re w = matches re w"
  by (auto simp: gmatch_def matches_def matchhere_lang match_any_lang split: list.splits)

text \<open>
  C37. The matcher decides the language of the pattern: \<open>match\<close> accepts a text exactly when the pattern,
  read as a sequence of characters, dots, starred items and anchors, matches some part of it (its
  beginning if the pattern starts with \<^verbatim>\<open>^\<close>).
\<close>

theorem match_correct: "gmatch re w = matches re w"
  by (fact gmatch_iff)

subsection \<open>The loop over a file\<close>

text \<open>
  The inner loop: \<open>rest\<close> is what follows \<^verbatim>\<open>p\<close> in the filled part of the buffer; \<^verbatim>\<open>strchr\<close> does not look past a
  NUL. The continuation receives what is left.
\<close>

function grep_lines :: "u8 list \<Rightarrow> u8 list \<Rightarrow> (u8 list \<Rightarrow> uprog) \<Rightarrow> uprog" where
  "grep_lines pat rest k =
     (if 10 \<in> set (cstr rest) then
        (let line = takeWhile (\<lambda>c. c \<noteq> 10) rest; rest' = drop (length line + 1) rest
         in if gmatch pat line then UWrite 1 (line @ [10]) (\<lambda>_. grep_lines pat rest' k) else grep_lines pat rest' k)
      else k rest)"
  by pat_completeness auto
termination
  by (relation "measure (\<lambda>(pat, rest, k). length rest)") (auto simp: cstr_def intro!: diff_less dest: set_takeWhileD)

declare grep_lines.simps [simp del]

text \<open>
  The outer loop; \<open>carry\<close> is the start of the buffer, \<^verbatim>\<open>m\<close> bytes. When no line ended in the buffer, \<^verbatim>\<open>p == buf\<close>,
  all of it is thrown away.
\<close>

fun grep :: "nat \<Rightarrow> u8 list \<Rightarrow> int \<Rightarrow> u8 list \<Rightarrow> uprog \<Rightarrow> uprog" where
  "grep 0 pat fd carry k = URunning"
| "grep (Suc n) pat fd carry k =
     URead fd (1024 - length carry - 1) (\<lambda>r. case r of
       None \<Rightarrow> k
     | Some b \<Rightarrow>
         if b = [] then k
         else grep_lines pat (carry @ b) (\<lambda>rest.
           grep n pat fd (if length rest = length (carry @ b) then [] else rest) k))"

fun grep_files :: "nat \<Rightarrow> u8 list \<Rightarrow> u8 list list \<Rightarrow> uprog" where
  "grep_files n pat [] = UExit"
| "grep_files n pat (f # fs) =
     UOpen f 0 (\<lambda>fd.
       if fd < 0 then uprintf 1 ''grep: cannot open %s\<newline>'' [AStr (Some f)] UExit
       else grep n pat fd [] (UClose fd (\<lambda>_. grep_files n pat fs)))"

definition grep_main :: "nat \<Rightarrow> u8 list list \<Rightarrow> uprog" where
  "grep_main n argv =
     (case argv of
        _ # pat # files \<Rightarrow> if files = [] then grep n pat 0 [] UExit else grep_files n pat files
      | _ \<Rightarrow> uprintf 2 ''usage: grep pattern [file ...]\<newline>'' [] UExit)"

subsection \<open>The lines printed\<close>

definition unlines :: "u8 list list \<Rightarrow> u8 list" where "unlines ls = concat (map (\<lambda>l. l @ [10]) ls)"

lemma unlines_simps [simp]: "unlines [] = []" "unlines (l # ls) = l @ 10 # unlines ls"
  by (simp_all add: unlines_def)

text \<open>A line of a text file.\<close>

definition line_ok :: "u8 list \<Rightarrow> bool" where "line_ok l \<longleftrightarrow> 0 \<notin> set l \<and> 10 \<notin> set l"

lemma cstr_append: "0 \<notin> set xs \<Longrightarrow> cstr (xs @ ys) = xs @ cstr ys"
  by (induction xs) auto

lemma grep_lines_line:
  assumes "line_ok l"
  shows "grep_lines pat (l @ 10 # r) k =
    (if gmatch pat l then UWrite 1 (l @ [10]) (\<lambda>_. grep_lines pat r k) else grep_lines pat r k)"
proof -
  have t: "takeWhile (\<lambda>c. c \<noteq> 10) (l @ 10 # r) = l" using assms by (subst takeWhile_append2) (auto simp: line_ok_def)
  have "10 \<in> set (cstr (l @ 10 # r))" using assms by (simp add: line_ok_def cstr_append)
  then show ?thesis by (subst grep_lines.simps) (simp add: t Let_def)
qed

lemma grep_lines_run:
  "list_all line_ok ls \<Longrightarrow> line_ok r \<Longrightarrow>
   urun (grep_lines pat (unlines ls @ r) k) e = urun (k r) (e\<lparr>uoutput := uoutput e @ unlines (filter (gmatch pat) ls)\<rparr>)"
proof (induction ls arbitrary: e)
  case Nil
  then have "10 \<notin> set (cstr r)" by (auto simp: cstr_def line_ok_def dest: set_takeWhileD)
  then show ?case by (subst grep_lines.simps) simp
next
  case (Cons l ls)
  then show ?case by (simp add: grep_lines_line)
qed

text \<open>A prefix of a text is some of its lines and the start of the next.\<close>

lemma take_unlines:
  "list_all line_ok ls \<Longrightarrow> \<exists>i r s. take n (unlines ls) = unlines (take i ls) @ r \<and> line_ok r \<and> r @ s = unlines (drop i ls) \<and> drop n (unlines ls) = s
     \<and> (\<forall>l ls'. ls = l # ls' \<longrightarrow> length l < n \<longrightarrow> 0 < i)"
proof (induction ls arbitrary: n)
  case (Cons l ls)
  show ?case
  proof (cases "length l < n")
    case True
    then obtain k where n: "n = length l + 1 + k" by (metis Suc_eq_plus1 add_Suc less_iff_Suc_add)
    from Cons obtain i r s where "take k (unlines ls) = unlines (take i ls) @ r" "line_ok r" "r @ s = unlines (drop i ls)" "drop k (unlines ls) = s"
      by (metis list.pred_inject(2))
    then show ?thesis using n by (intro exI[of _ "Suc i"] exI[of _ r] exI[of _ s]) simp
  next
    case False
    then have "take n (unlines (l # ls)) = take n l" "drop n (unlines (l # ls)) = drop n l @ 10 # unlines ls" by simp_all
    moreover have "line_ok (take n l)" using Cons.prems by (auto simp: line_ok_def dest: in_set_takeD)
    ultimately show ?thesis using False
      by (intro exI[of _ 0] exI[of _ "take n l"] exI[of _ "drop n l @ 10 # unlines ls"]) simp
  qed
qed (simp add: line_ok_def)

lemma next_block_one: "0 < n \<Longrightarrow> next_block n (if d = [] then [] else [d]) = (take n d, if drop n d = [] then [] else [drop n d])"
  by auto

lemma grep_run:
  "list_all line_ok ls \<Longrightarrow> list_all (\<lambda>l. length l < 1023) ls \<Longrightarrow> carry @ d = unlines ls \<Longrightarrow> line_ok carry \<Longrightarrow> length carry < 1023 \<Longrightarrow>
   length (unlines ls) < n \<Longrightarrow> ufd e = fd \<Longrightarrow> uinput e = (if d = [] then [] else [d]) \<Longrightarrow>
   urun (grep n pat fd carry k) e = urun k (e\<lparr>uinput := [], uoutput := uoutput e @ unlines (filter (gmatch pat) ls)\<rparr>)"
proof (induction n arbitrary: ls carry d e)
  case (Suc n)
  show ?case
  proof (cases "d = []")
    case True
    have "ls = []"
    proof (rule ccontr)
      assume "ls \<noteq> []"
      then have "10 \<in> set carry" using Suc.prems(3) True by (cases ls) auto
      then show False using Suc.prems(4) by (simp add: line_ok_def)
    qed
    then show ?thesis using Suc.prems True by simp
  next
    case False
    let ?q = "1024 - length carry - 1"
    have q: "0 < ?q" "length carry + ?q = 1023" using Suc.prems(5) by simp_all
    obtain i r s where t: "take 1023 (unlines ls) = unlines (take i ls) @ r" "line_ok r" "r @ s = unlines (drop i ls)" "drop 1023 (unlines ls) = s"
        "\<forall>l ls'. ls = l # ls' \<longrightarrow> length l < 1023 \<longrightarrow> 0 < i"
      using take_unlines[OF Suc.prems(1), of 1023] by blast
    have ne: "ls \<noteq> []" using Suc.prems(3) False by auto
    have i: "0 < i" using t(5) ne Suc.prems(2) by (cases ls) auto
    have b: "carry @ take ?q d = unlines (take i ls) @ r" and s: "drop ?q d = s"
      using t(1,4) Suc.prems(3)[symmetric] q(2) Suc.prems(5) by simp_all
    have pos: "0 < length (unlines (take i ls))" using i ne by (cases ls; cases i) auto
    have len: "length (unlines (drop i ls)) < n"
    proof -
      have "unlines ls = unlines (take i ls) @ unlines (drop i ls)" by (simp add: unlines_def flip: concat_append map_append)
      then have "length (unlines ls) = length (unlines (take i ls)) + length (unlines (drop i ls))" by (metis length_append)
      then show ?thesis using Suc.prems(6) pos by linarith
    qed
    have lr: "length r < length (carry @ take ?q d)" using b pos by (metis length_append less_add_same_cancel2)
    then have r: "length r < 1023" using q(2) by simp
    have ok: "list_all line_ok (take i ls)" "list_all line_ok (drop i ls)" "list_all (\<lambda>l. length l < 1023) (drop i ls)"
      using Suc.prems(1,2) by (auto simp: list_all_iff dest: in_set_takeD in_set_dropD)
    let ?e = "e\<lparr>uinput := if s = [] then [] else [s], uoutput := uoutput e @ unlines (filter (gmatch pat) (take i ls))\<rparr>"
    have "urun (grep (Suc n) pat fd carry k) e = urun (grep n pat fd r k) ?e"
      using False q(1) Suc.prems(7,8) b s lr grep_lines_run[OF ok(1) t(2)] by (simp add: next_block_one)
    also have "\<dots> = urun k (?e\<lparr>uinput := [], uoutput := uoutput ?e @ unlines (filter (gmatch pat) (drop i ls))\<rparr>)"
      using Suc.prems(7) by (intro Suc.IH[OF ok(2,3) t(3,2) r len]) simp_all
    also have "uoutput ?e @ unlines (filter (gmatch pat) (drop i ls)) = uoutput e @ unlines (filter (gmatch pat) ls)"
      by (simp add: unlines_def flip: concat_append map_append filter_append)
    finally show ?thesis by simp
  qed
qed simp

text \<open>
  C38. \<open>grep\<close> on a file prints exactly the matching lines, in order, whatever the places at which the
  1024-byte buffer cuts the file: for a text whose lines are shorter than 1023 characters and which
  ends in a newline.
\<close>

theorem grep_correct:
  assumes "list_all line_ok ls" "list_all (\<lambda>l. length l < 1023) ls" "length (unlines ls) < n"
  shows "urun (grep_main n [prog, pat, name]) \<lparr>ufd = 3, uinput = (if ls = [] then [] else [unlines ls]), uoutput = []\<rparr> =
    Some \<lparr>ufd = 3, uinput = [], uoutput = unlines (filter (matches pat) ls)\<rparr>"
proof -
  have m: "matches pat = gmatch pat" by (rule ext) (simp add: gmatch_iff)
  have e: "unlines ls = [] \<longleftrightarrow> ls = []" by (cases ls) auto
  show ?thesis
    using grep_run[OF assms(1,2), of "[]" "unlines ls" n "\<lparr>ufd = 3, uinput = (if ls = [] then [] else [unlines ls]), uoutput = []\<rparr>" 3 pat "UClose 3 (\<lambda>_. UExit)"]
      assms(3) by (simp add: grep_main_def m line_ok_def e)
qed

theorem grep_correct_witness:
  "urun (grep_main 20 [[103], [97, 46, 42, 99], [102]]) \<lparr>ufd = 3, uinput = [unlines [[97, 98, 99], [99, 97], [120, 97, 99]]], uoutput = []\<rparr> =
    Some \<lparr>ufd = 3, uinput = [], uoutput = unlines (filter (matches [97, 46, 42, 99]) [[97, 98, 99], [99, 97], [120, 97, 99]])\<rparr>"
  using grep_correct[of "[[97, 98, 99], [99, 97], [120, 97, 99]]" 20 "[103]" "[97, 46, 42, 99]" "[102]"]
  by (simp add: line_ok_def)

text \<open>
  A line that arrives in two reads is lost: the first block holds no newline and is thrown away.
\<close>

lemma grep_loses_split_line:
  "gmatch [97] [97, 98] \<and>
   urun (grep_main 9 [[103], [97]]) \<lparr>ufd = 0, uinput = [[97], [98, 10]], uoutput = []\<rparr> = Some \<lparr>ufd = 0, uinput = [], uoutput = []\<rparr>"
  by code_simp

end
