(* ===== verification/Utils.thy ===== *)
theory Utils
  imports Uprog
begin

text \<open>
  The small user programs: \<^verbatim>\<open>src/cat.c\<close>, \<^verbatim>\<open>src/wc.c\<close>, \<^verbatim>\<open>src/echo.c\<close>, \<^verbatim>\<open>src/kill.c\<close>, \<^verbatim>\<open>src/ln.c\<close>, \<^verbatim>\<open>src/mkdir.c\<close>, \<^verbatim>\<open>src/rm.c\<close>,
  \<^verbatim>\<open>src/zombie.c\<close>, \<^verbatim>\<open>src/init.c\<close> and \<^verbatim>\<open>src/ls.c\<close>. \<open>argv\<close> is the list of the argument strings, the program's name
  first.
\<close>

subsection \<open>\<^verbatim>\<open>cat\<close>\<close>

fun cat :: "nat \<Rightarrow> int \<Rightarrow> uprog \<Rightarrow> uprog" where
  "cat 0 fd k = URunning"
| "cat (Suc n) fd k =
     URead fd 512 (\<lambda>r. case r of
       None \<Rightarrow> uprintf 1 ''cat: read error\<newline>'' [] UExit
     | Some b \<Rightarrow>
         if b = [] then k
         else UWrite 1 b (\<lambda>w. if w \<noteq> int (length b) then uprintf 1 ''cat: write error\<newline>'' [] UExit else cat n fd k))"

fun cat_files :: "nat \<Rightarrow> u8 list list \<Rightarrow> uprog" where
  "cat_files n [] = UExit"
| "cat_files n (f # fs) =
     UOpen f 0 (\<lambda>fd.
       if fd < 0 then uprintf 1 ''cat: cannot open %s\<newline>'' [AStr (Some f)] UExit
       else cat n fd (UClose fd (\<lambda>_. cat_files n fs)))"

definition cat_main :: "nat \<Rightarrow> u8 list list \<Rightarrow> uprog" where
  "cat_main n argv = (if length argv \<le> 1 then cat n 0 UExit else cat_files n (tl argv))"

subsection \<open>\<^verbatim>\<open>wc\<close>\<close>

text \<open>The counters \<^verbatim>\<open>l\<close>, \<^verbatim>\<open>w\<close>, \<^verbatim>\<open>c\<close> and the flag \<^verbatim>\<open>inword\<close>, and the body of the loop over the block.\<close>

definition wc_blanks :: "u8 list" where "wc_blanks = [32, 13, 9, 10, 11]"

fun wc_char :: "u8 \<Rightarrow> i32 \<times> i32 \<times> i32 \<times> bool \<Rightarrow> i32 \<times> i32 \<times> i32 \<times> bool" where
  "wc_char ch (l, w, c, inword) =
     (let c = c + 1; l = (if ch = 10 then l + 1 else l)
      in if ch \<in> set wc_blanks then (l, w, c, False)
         else if \<not> inword then (l, w + 1, c, True)
         else (l, w, c, inword))"

fun wc :: "nat \<Rightarrow> i32 \<times> i32 \<times> i32 \<times> bool \<Rightarrow> int \<Rightarrow> u8 list \<Rightarrow> uprog \<Rightarrow> uprog" where
  "wc 0 st fd name k = URunning"
| "wc (Suc n) st fd name k =
     URead fd 512 (\<lambda>r. case r of
       None \<Rightarrow> uprintf 1 ''wc: read error\<newline>'' [] UExit
     | Some b \<Rightarrow>
         if b = [] then (case st of (l, w, c, _) \<Rightarrow>
           uprintf 1 ''%d %d %d %s\<newline>'' [AInt l, AInt w, AInt c, AStr (Some name)] k)
         else wc n (fold wc_char b st) fd name k)"

fun wc_files :: "nat \<Rightarrow> u8 list list \<Rightarrow> uprog" where
  "wc_files n [] = UExit"
| "wc_files n (f # fs) =
     UOpen f 0 (\<lambda>fd.
       if fd < 0 then uprintf 1 ''wc: cannot open %s\<newline>'' [AStr (Some f)] UExit
       else wc n (0, 0, 0, False) fd f (UClose fd (\<lambda>_. wc_files n fs)))"

definition wc_main :: "nat \<Rightarrow> u8 list list \<Rightarrow> uprog" where
  "wc_main n argv = (if length argv \<le> 1 then wc n (0, 0, 0, False) 0 [] UExit else wc_files n (tl argv))"

subsection \<open>The programs that only make calls\<close>

fun echo_args :: "u8 list list \<Rightarrow> uprog" where
  "echo_args [] = UExit"
| "echo_args (a # as) = uprintf 1 ''%s%s'' [AStr (Some a), AStr (Some (if as \<noteq> [] then lit '' '' else [10]))] (echo_args as)"

definition echo_main :: "u8 list list \<Rightarrow> uprog" where "echo_main argv = echo_args (tl argv)"

text \<open>\<open>atoi\<close> of an argument, as a byte list.\<close>

definition atoi_str :: "u8 list \<Rightarrow> i32" where
  "atoi_str s = foldl (\<lambda>n c. n * 10 + ucast c - 48) 0 (takeWhile is_digit s)"

definition kill_main :: "u8 list list \<Rightarrow> uprog" where
  "kill_main argv =
     (if length argv < 2 then uprintf 2 ''usage: kill pid...\<newline>'' [] UExit
      else foldr (\<lambda>a k. UKill (atoi_str a) (\<lambda>_. k)) (tl argv) UExit)"

definition ln_main :: "u8 list list \<Rightarrow> uprog" where
  "ln_main argv = (case argv of
       [_, a, b] \<Rightarrow> ULink a b (\<lambda>r. if r < 0 then uprintf 2 ''link %s %s: failed\<newline>'' [AStr (Some a), AStr (Some b)] UExit else UExit)
     | _ \<Rightarrow> uprintf 2 ''Usage: ln old new\<newline>'' [] UExit)"

fun mkdir_args :: "u8 list list \<Rightarrow> uprog" where
  "mkdir_args [] = UExit"
| "mkdir_args (f # fs) = UMkdir f (\<lambda>r.
     if r < 0 then uprintf 2 ''mkdir: %s failed to create\<newline>'' [AStr (Some f)] UExit else mkdir_args fs)"

definition mkdir_main :: "u8 list list \<Rightarrow> uprog" where
  "mkdir_main argv = (if length argv < 2 then uprintf 2 ''Usage: mkdir files...\<newline>'' [] UExit else mkdir_args (tl argv))"

fun rm_args :: "u8 list list \<Rightarrow> uprog" where
  "rm_args [] = UExit"
| "rm_args (f # fs) = UUnlink f (\<lambda>r.
     if r < 0 then uprintf 2 ''rm: %s failed to delete\<newline>'' [AStr (Some f)] UExit else rm_args fs)"

definition rm_main :: "u8 list list \<Rightarrow> uprog" where
  "rm_main argv = (if length argv < 2 then uprintf 2 ''Usage: rm files...\<newline>'' [] UExit else rm_args (tl argv))"

definition zombie_main :: uprog where
  "zombie_main = UFork (\<lambda>p. if p > 0 then USleep 5 (\<lambda>_. UExit) else UExit)"

subsection \<open>\<^verbatim>\<open>init\<close>\<close>

fun init_wait :: "nat \<Rightarrow> int \<Rightarrow> uprog \<Rightarrow> uprog" where
  "init_wait 0 p k = URunning"
| "init_wait (Suc n) p k = UWait (\<lambda>wpid.
     if wpid \<ge> 0 \<and> wpid \<noteq> p then uprintf 1 ''zombie!\<newline>'' [] (init_wait n p k) else k)"

fun init_loop :: "nat \<Rightarrow> uprog" where
  "init_loop 0 = URunning"
| "init_loop (Suc n) =
     uprintf 1 ''init: starting sh\<newline>'' [] (
     UFork (\<lambda>p.
       if p < 0 then uprintf 1 ''init: fork failed\<newline>'' [] UExit
       else if p = 0 then UExec (lit ''sh'') [lit ''sh''] (\<lambda>_. uprintf 1 ''init: exec sh failed\<newline>'' [] UExit)
       else init_wait n p (init_loop n)))"

definition init_main :: "nat \<Rightarrow> uprog" where
  "init_main n =
     (let rest = UDup 0 (\<lambda>_. UDup 0 (\<lambda>_. init_loop n))
      in UOpen (lit ''console'') 0x002 (\<lambda>fd.
        if fd < 0 then UMknod (lit ''console'') 1 1 (\<lambda>_. UOpen (lit ''console'') 0x002 (\<lambda>_. rest)) else rest))"

subsection \<open>\<^verbatim>\<open>ls\<close>\<close>

text \<open>
  \<open>fmtname\<close>: what follows the last slash, padded with blanks to \<^verbatim>\<open>DIRSIZ\<close>. The blank-padded name is in a static
  buffer whose last byte is never written and is 0.
\<close>

definition fmtname :: "u8 list \<Rightarrow> u8 list" where
  "fmtname path =
     (let p = rev (takeWhile (\<lambda>c. c \<noteq> 47) (rev path))
      in if length p \<ge> 14 then p else p @ replicate (14 - length p) 32)"

text \<open>A directory entry as read: the inode number and the 14 bytes of the name.\<close>

definition dirent_inum :: "u8 list \<Rightarrow> u16" where
  "dirent_inum b = ucast (b ! 0) OR push_bit 8 (ucast (b ! 1))"

fun ls_print :: "int \<Rightarrow> u8 list \<Rightarrow> ustat \<Rightarrow> uprog \<Rightarrow> uprog" where
  "ls_print fd path (ty, ino, len) k =
     uprintf fd ''%s %d %d %d\<newline>'' [AStr (Some (fmtname path)), AInt ty, AInt ino, AInt len] k"

fun ls_dir :: "nat \<Rightarrow> int \<Rightarrow> u8 list \<Rightarrow> uprog \<Rightarrow> uprog" where
  "ls_dir 0 fd path k = URunning"
| "ls_dir (Suc n) fd path k =
     URead fd 16 (\<lambda>r. case r of
       None \<Rightarrow> k
     | Some b \<Rightarrow>
         if length b \<noteq> 16 then k
         else if dirent_inum b = 0 then ls_dir n fd path k
         else (let name = path @ [47] @ cstr (drop 2 b)
               in ulib_stat name (\<lambda>st. case st of
                 None \<Rightarrow> uprintf 1 ''ls: cannot stat %s\<newline>'' [AStr (Some name)] (ls_dir n fd path k)
               | Some st \<Rightarrow> ls_print 1 name st (ls_dir n fd path k))))"

definition ls :: "nat \<Rightarrow> u8 list \<Rightarrow> uprog \<Rightarrow> uprog" where
  "ls n path k =
     UOpen path 0 (\<lambda>fd.
       if fd < 0 then uprintf 2 ''ls: cannot open %s\<newline>'' [AStr (Some path)] k
       else UFstat fd (\<lambda>r. case r of
         None \<Rightarrow> uprintf 2 ''ls: cannot stat %s\<newline>'' [AStr (Some path)] (UClose fd (\<lambda>_. k))
       | Some (ty, ino, len) \<Rightarrow>
           if ty = 2 then ls_print 1 path (ty, ino, len) (UClose fd (\<lambda>_. k))
           else if ty = 1 then
             (if length path + 1 + 14 + 1 > 512 then uprintf 1 ''ls: path too long\<newline>'' [] (UClose fd (\<lambda>_. k))
              else ls_dir n fd path (UClose fd (\<lambda>_. k)))
           else UClose fd (\<lambda>_. k)))"

definition ls_main :: "nat \<Rightarrow> u8 list list \<Rightarrow> uprog" where
  "ls_main n argv = (if length argv < 2 then ls n (lit ''.'') UExit else foldr (ls n) (tl argv) UExit)"

subsection \<open>What \<^verbatim>\<open>cat\<close> and \<^verbatim>\<open>wc\<close> compute\<close>

text \<open>Reading a block takes at least one byte of a non-empty input.\<close>

lemma next_block_split:
  assumes "[] \<notin> set bs" "0 < n" "next_block n bs = (b, bs')"
  shows "concat bs = b @ concat bs'" "[] \<notin> set bs'" "b = [] \<longleftrightarrow> bs = []" "bs = [] \<Longrightarrow> bs' = []"
  using assms by (cases bs; auto split: if_splits)+

lemma urun_uprintf:
  "uformat False (lit fmt) args = Some out \<Longrightarrow>
   urun (uprintf fd fmt args k) e = urun k (if fd = 1 then e\<lparr>uoutput := uoutput e @ out\<rparr> else e)"
  by (simp add: uprintf_def urun_uputs)

lemma cat_run:
  "[] \<notin> set (uinput e) \<Longrightarrow> length (concat (uinput e)) < n \<Longrightarrow> ufd e = fd \<Longrightarrow>
   urun (cat n fd k) e = urun k (e\<lparr>uinput := [], uoutput := uoutput e @ concat (uinput e)\<rparr>)"
proof (induction n arbitrary: e)
  case (Suc n)
  obtain b bs where nb: "next_block 512 (uinput e) = (b, bs)" by (cases "next_block 512 (uinput e)")
  note sp = next_block_split[OF Suc.prems(1) _ nb, simplified]
  show ?case
  proof (cases "b = []")
    case True
    then have "uinput e = []" "bs = []" using sp by auto
    then show ?thesis using True nb Suc.prems(3) by simp
  next
    case False
    have "urun (cat (Suc n) fd k) e = urun (cat n fd k) (e\<lparr>uinput := bs, uoutput := uoutput e @ b\<rparr>)"
      using False nb Suc.prems(3) by simp
    also have "\<dots> = urun k (e\<lparr>uinput := [], uoutput := uoutput e @ b @ concat bs\<rparr>)"
      using Suc.IH[of "e\<lparr>uinput := bs, uoutput := uoutput e @ b\<rparr>"] sp(1,2) Suc.prems(2,3) False
      by (cases b) simp_all
    finally show ?thesis using sp(1) by simp
  qed
qed simp

text \<open>The number of words of a text: a word starts at a character that is no blank and follows a blank or nothing. Space, tab,
  newline, carriage return and vertical tab are blanks.\<close>

definition blank :: "u8 \<Rightarrow> bool" where "blank c \<longleftrightarrow> c = 32 \<or> 9 \<le> c \<and> c \<le> 11 \<or> c = 13"

fun word_count :: "bool \<Rightarrow> u8 list \<Rightarrow> nat" where
  "word_count inword [] = 0"
| "word_count inword (c # cs) =
     (if blank c then word_count False cs else if inword then word_count True cs else Suc (word_count True cs))"

lemma wc_blanks_blank: "c \<in> set wc_blanks \<longleftrightarrow> blank c"
proof -
  have "\<forall>n \<in> set [0..<256]. (of_nat n \<in> set wc_blanks) = blank (of_nat n)" by code_simp
  moreover have "unat c \<in> set [0..<256]" using unsigned_less[of c, where 'a = nat] by simp
  ultimately have "(of_nat (unat c) \<in> set wc_blanks) = blank (of_nat (unat c))" by blast
  then show ?thesis by simp
qed

lemma fold_wc_char:
  "\<exists>inword'. fold wc_char xs (l, w, c, inword) =
     (l + of_nat (count_list xs 10), w + of_nat (word_count inword xs), c + of_nat (length xs), inword')"
proof (induction xs arbitrary: l w c inword)
  case (Cons x xs)
  show ?case
    using Cons[of "if x = 10 then l + 1 else l" "if x \<in> set wc_blanks \<or> inword then w else w + 1" "c + 1" "x \<notin> set wc_blanks"]
    by (cases "x \<in> set wc_blanks"; cases inword) (auto simp: algebra_simps wc_blanks_blank[symmetric])
qed simp

lemma wc_run:
  "[] \<notin> set (uinput e) \<Longrightarrow> length (concat (uinput e)) < n \<Longrightarrow> ufd e = fd \<Longrightarrow> fold wc_char (concat (uinput e)) st = (l, w, c, i) \<Longrightarrow>
   uformat False (lit ''%d %d %d %s\<newline>'') [AInt l, AInt w, AInt c, AStr (Some name)] = Some out \<Longrightarrow>
   urun (wc n st fd name k) e = urun k (e\<lparr>uinput := [], uoutput := uoutput e @ out\<rparr>)"
proof (induction n arbitrary: e st)
  case (Suc n)
  obtain b bs where nb: "next_block 512 (uinput e) = (b, bs)" by (cases "next_block 512 (uinput e)")
  note sp = next_block_split[OF Suc.prems(1) _ nb, simplified]
  show ?case
  proof (cases "b = []")
    case True
    then have "uinput e = []" "bs = []" using sp by auto
    then show ?thesis using True nb Suc.prems(3,4,5) by (simp add: urun_uprintf)
  next
    case False
    have "urun (wc (Suc n) st fd name k) e = urun (wc n (fold wc_char b st) fd name k) (e\<lparr>uinput := bs\<rparr>)"
      using False nb Suc.prems(3) by simp
    also have "\<dots> = urun k (e\<lparr>uinput := [], uoutput := uoutput e @ out\<rparr>)"
      using Suc.IH[of "e\<lparr>uinput := bs\<rparr>"] sp(1,2) Suc.prems(2-5) False by (cases b) simp_all
    finally show ?thesis .
  qed
qed simp

lemma uformat_lit:
  "uformat False (lit ''%d %d %d %s\<newline>'') [AInt l, AInt w, AInt c, AStr (Some name)] =
   Some (uprintint l 10 True @ [32] @ uprintint w 10 True @ [32] @ uprintint c 10 True @ [32] @ cstr name @ [10])"
  by (simp add: lit_def)

text \<open>
  C40. \<open>wc\<close> prints the number of newlines, of words and of characters of its input, and \<open>cat\<close> prints its
  input, however the input is cut into blocks by the reads.
\<close>

theorem cat_wc_correct:
  assumes "[] \<notin> set bs" "length (concat bs) < n"
  shows "urun (cat_main n [prog]) \<lparr>ufd = 0, uinput = bs, uoutput = []\<rparr> = Some \<lparr>ufd = 0, uinput = [], uoutput = concat bs\<rparr>
    \<and> urun (wc_main n [prog]) \<lparr>ufd = 0, uinput = bs, uoutput = []\<rparr> = Some \<lparr>ufd = 0, uinput = [], uoutput =
        uprintint (of_nat (count_list (concat bs) 10)) 10 True @ [32] @
        uprintint (of_nat (word_count False (concat bs))) 10 True @ [32] @
        uprintint (of_nat (length (concat bs))) 10 True @ [32, 10]\<rparr>"
proof -
  let ?e = "\<lparr>ufd = 0, uinput = bs, uoutput = []\<rparr> :: uenv"
  obtain i where f: "fold wc_char (concat bs) (0, 0, 0, False) =
      (of_nat (count_list (concat bs) 10), of_nat (word_count False (concat bs)), of_nat (length (concat bs)), i)"
    using fold_wc_char[of "concat bs" 0 0 0 False] by auto
  have "urun (cat_main n [prog]) ?e = Some \<lparr>ufd = 0, uinput = [], uoutput = concat bs\<rparr>"
    using cat_run[of ?e n 0 UExit] assms by (simp add: cat_main_def)
  then show ?thesis
    using wc_run[where e = ?e and n = n and st = "(0, 0, 0, False)" and name = "[]" and k = UExit, OF _ _ _ _ uformat_lit] assms f
    by (simp add: wc_main_def)
qed

theorem cat_wc_correct_witness:
  "[] \<notin> set [[104, 105, 32], [121 :: u8, 111, 10]] \<and>
   urun (cat_main 9 [[99]]) \<lparr>ufd = 0, uinput = [[104, 105, 32], [121, 111, 10]], uoutput = []\<rparr> =
     Some \<lparr>ufd = 0, uinput = [], uoutput = [104, 105, 32, 121, 111, 10]\<rparr>"
  using cat_wc_correct[of "[[104, 105, 32], [121, 111, 10]]" 9 "[99]"] by simp

end
