(* ===== verification/Spec2Isabelle.thy ===== *)
theory Spec2Isabelle
  imports Rand Paging Fsblock Pipes Args Reaping Syscall Shellround Shellrun Grep Utils
begin

text \<open>
  A verification development for the system of \<^verbatim>\<open>src/\<close>: the x86 teaching kernel xv6 with a
  lottery scheduler (\<^verbatim>\<open>rand.c\<close>, \<^verbatim>\<open>proc.c\<close>) and kernel mailboxes (\<^verbatim>\<open>mailbox.c\<close>), its user library, shell
  and user programs.

  \<^bold>\<open>The program.\<close>  A trap (\<^verbatim>\<open>trap.c\<close>) enters the kernel; a system call is dispatched by
  \<^verbatim>\<open>syscall.c\<close> to \<^verbatim>\<open>sysproc.c\<close> or \<^verbatim>\<open>sysfile.c\<close>.  Processes live in the table of \<^verbatim>\<open>proc.c\<close>, sleep
  on channels and are woken there, and own page tables built by \<^verbatim>\<open>vm.c\<close> out of the pages of
  \<^verbatim>\<open>kalloc.c\<close>.  Files (\<^verbatim>\<open>file.c\<close>) are pipes (\<^verbatim>\<open>pipe.c\<close>), devices (\<^verbatim>\<open>console.c\<close>) or inodes (\<^verbatim>\<open>fs.c\<close>);
  inodes are stored through the write-ahead log (\<^verbatim>\<open>log.c\<close>), the buffer cache (\<^verbatim>\<open>bio.c\<close>) and the
  disk.  Spinlocks (\<^verbatim>\<open>spinlock.c\<close>) and sleep locks (\<^verbatim>\<open>sleeplock.c\<close>) protect all of it.  User programs
  reach the kernel through the calls of \<^verbatim>\<open>user.h\<close>; \<^verbatim>\<open>init.c\<close> starts the shell \<^verbatim>\<open>sh.c\<close>, which parses command
  lines and runs the others.

  \<^bold>\<open>The shape of the model.\<close>  A kernel function is a function from a state to an outcome
  (\<^verbatim>\<open>Prelude\<close>): \<^term>\<open>Ok\<close> with a result and a new state, \<^term>\<open>Panic\<close> with the message the code
  gives to \<^verbatim>\<open>panic\<close> (a C access with no meaning, such as a null dereference, is the panic
  \<^verbatim>\<open>trap\<close>), \<^term>\<open>Sleep\<close> with a channel and the state at the moment the process gives up the CPU,
  or \<^term>\<open>Diverge\<close> for a loop that does not end.  A loop around \<^verbatim>\<open>sleep\<close> is a definition of its own
  (\<^verbatim>\<open>ksend_loop\<close>, \<^verbatim>\<open>piperead_loop\<close>, \<^verbatim>\<open>wait_loop\<close>): it is what the process runs once it has been
  woken and \<^verbatim>\<open>sleep_resume\<close> has returned.  The state is a chain of records, one per component in
  the order of the theories, so that each component's operations are polymorphic in the state of
  the components above it.  Each kernel operation runs to its end or to its first \<^term>\<open>Sleep\<close>: a
  \<^term>\<open>Sleep\<close> inside a nested call (a buffer or an inode locked by another process) ends the modelled run,
  and the properties of the file system layers are about runs in which the locks are free.  Machine integers are words of their width and memory is a map from
  32-bit addresses to bytes.

  \<^bold>\<open>Theories.\<close>
  \<^item> \<^verbatim>\<open>Prelude\<close>: word types, the outcome monad, its loops and its weakest preconditions.
  \<^item> \<^verbatim>\<open>Rand\<close> (\<^verbatim>\<open>rand.c\<close>): the shift register and the rejection sampling; sampling is unbiased and
    returns after at most 17 draws for every bound below 65536.
  \<^item> \<^verbatim>\<open>Spinlock\<close> (\<^verbatim>\<open>spinlock.c\<close>, \<^verbatim>\<open>mycpu\<close>, the instructions of \<^verbatim>\<open>x86.h\<close>): the locks on a machine of
    several CPUs, mutual exclusion over all interleavings, and the refinement to the list of held
    locks (\<^verbatim>\<open>lk_acquire\<close>, \<^verbatim>\<open>lk_release\<close>) that all other theories use.  The locale \<^verbatim>\<open>lock_iface\<close> is the
    contract, interpreted on both levels.
  \<^item> \<^verbatim>\<open>Cstring\<close> (\<^verbatim>\<open>string.c\<close>): byte-wise specifications of the memory and string functions.
  \<^item> \<^verbatim>\<open>Kalloc\<close> (\<^verbatim>\<open>kalloc.c\<close>): the free list threaded through memory refines a set of pages; the
    locale \<^verbatim>\<open>page_allocator\<close> is the contract of its clients.
  \<^item> \<^verbatim>\<open>Layout\<close> and \<^verbatim>\<open>Vm\<close> (\<^verbatim>\<open>param.h\<close>, \<^verbatim>\<open>memlayout.h\<close>, \<^verbatim>\<open>mmu.h\<close>, \<^verbatim>\<open>proc.h\<close>, \<^verbatim>\<open>vm.c\<close>): constants, records and
    the page tables in memory.  \<^verbatim>\<open>Paging\<close> shows that \<^verbatim>\<open>mappages\<close> maps exactly the range asked for.
  \<^item> \<^verbatim>\<open>Proc\<close> (\<^verbatim>\<open>proc.c\<close>): the process table and the lottery; a drawn ticket selects each runnable
    process in proportion to its tickets, with between 1 and 65536 tickets in all the scheduler picks
    a runnable process, and with more it never returns.
  \<^item> \<^verbatim>\<open>Mailbox\<close> (\<^verbatim>\<open>mailbox.c\<close>): exactly-once delivery in order and the absence of lost wakeups, by
    rule induction over a step relation of all processes.
  \<^item> \<^verbatim>\<open>Bytes\<close>, \<^verbatim>\<open>Sleeplock\<close>, \<^verbatim>\<open>Bio\<close> (\<^verbatim>\<open>sleeplock.c\<close>, \<^verbatim>\<open>bio.c\<close>, \<^verbatim>\<open>memide.c\<close>): little-endian fields, sleep
    locks, and the buffer cache with its doubly linked list.  The locale \<^verbatim>\<open>buffer_cache\<close> states what
    the layers above rely on.
  \<^item> \<^verbatim>\<open>Log\<close>, \<^verbatim>\<open>Recovery\<close> (\<^verbatim>\<open>log.c\<close>): the log, and that a crash at any point of a commit followed by
    recovery leaves all or none of the transaction.
  \<^item> \<^verbatim>\<open>Fs\<close> (\<^verbatim>\<open>fs.c\<close>): bitmap, inodes, file contents, directories, paths.  \<^verbatim>\<open>Fsblock\<close> gives the contract of
    \<^verbatim>\<open>balloc\<close> and \<^verbatim>\<open>bfree\<close> on the contents of the blocks, in a transaction and with other buffers held.
  \<^item> \<^verbatim>\<open>File\<close> (\<^verbatim>\<open>file.c\<close>, \<^verbatim>\<open>pipe.c\<close>): the file table and pipes.  \<^verbatim>\<open>Pipes\<close> shows over all interleavings that
    a pipe delivers the bytes written, in order, and exhibits a lost wakeup.
  \<^item> \<^verbatim>\<open>Usermem\<close> (the argument functions of \<^verbatim>\<open>syscall.c\<close>): reading and writing user memory through the
    page table of the process.  \<^verbatim>\<open>Args\<close> shows that accepted arguments lie inside the process.
  \<^item> \<^verbatim>\<open>Lifecycle\<close> (the rest of \<^verbatim>\<open>proc.c\<close>): \<^verbatim>\<open>userinit\<close>, \<^verbatim>\<open>fork\<close>, \<^verbatim>\<open>exit\<close>, \<^verbatim>\<open>wait\<close>, \<^verbatim>\<open>forkret\<close>.
    \<^verbatim>\<open>Reaping\<close> shows that a process asleep in \<^verbatim>\<open>wait\<close> never has a zombie child.
  \<^item> \<^verbatim>\<open>Exec\<close>, \<^verbatim>\<open>Sysfile\<close> (\<^verbatim>\<open>exec.c\<close>, \<^verbatim>\<open>sysfile.c\<close>): program loading and the file system calls.
  \<^item> \<^verbatim>\<open>Kbd\<close>, \<^verbatim>\<open>Console\<close> (\<^verbatim>\<open>kbd.c\<close>, \<^verbatim>\<open>console.c\<close>, \<^verbatim>\<open>uart.c\<close>, \<^verbatim>\<open>procdump\<close>): scan codes, the line editor,
    formatted output and the screen.
  \<^item> \<^verbatim>\<open>Syscall\<close> (\<^verbatim>\<open>sysproc.c\<close>, \<^verbatim>\<open>syscall\<close>, \<^verbatim>\<open>trap.c\<close>): the system call table and the trap handler.
  \<^item> \<^verbatim>\<open>Userlib\<close> (\<^verbatim>\<open>ulib.c\<close>, \<^verbatim>\<open>printf.c\<close>): strings, \<^verbatim>\<open>gets\<close>, \<^verbatim>\<open>atoi\<close> and \<^verbatim>\<open>printf\<close>; \<^verbatim>\<open>atoi\<close> reads back what \<^verbatim>\<open>printf\<close> prints.
  \<^item> \<^verbatim>\<open>Uprog\<close> (\<^verbatim>\<open>user.h\<close>): user programs as trees of system calls, and a run of one on a given input.
  \<^item> \<^verbatim>\<open>Shell\<close>, \<^verbatim>\<open>Shellprop\<close>, \<^verbatim>\<open>Shellround\<close>, \<^verbatim>\<open>Shellrun\<close> (\<^verbatim>\<open>sh.c\<close>): the parser ends, yields whole words, damages
    none of them and inverts printing; a pipeline is connected as intended.
  \<^item> \<^verbatim>\<open>Grep\<close> (\<^verbatim>\<open>grep.c\<close>): the matcher decides the language of the pattern, and a file's matching lines are printed.
  \<^item> \<^verbatim>\<open>Utils\<close> (\<^verbatim>\<open>cat.c\<close>, \<^verbatim>\<open>wc.c\<close>, \<^verbatim>\<open>echo.c\<close>, \<^verbatim>\<open>kill.c\<close>, \<^verbatim>\<open>ln.c\<close>, \<^verbatim>\<open>mkdir.c\<close>, \<^verbatim>\<open>rm.c\<close>, \<^verbatim>\<open>zombie.c\<close>, \<^verbatim>\<open>init.c\<close>, \<^verbatim>\<open>ls.c\<close>): the
    other programs; \<^verbatim>\<open>cat\<close> and \<^verbatim>\<open>wc\<close> are right however the reads cut the input.

  \<^bold>\<open>Bounds.\<close>  The page loops of \<^verbatim>\<open>vm.c\<close> stop on an equality or comparison of wrapping addresses;
  they carry a fuel of \<open>2 ^ 20\<close>, the number of pages of the address space, after which every page
  has been visited; \<^verbatim>\<open>Paging\<close> proves for \<^verbatim>\<open>mappages\<close> that it is enough.  The list scans of \<^verbatim>\<open>bio.c\<close> carry a
  fuel of \<open>NBUF + 1\<close>, one more than the number of buffers; \<^verbatim>\<open>Bio\<close> proves that under the invariant the scan
  ends within it.  The mutually recursive parser of the shell carries a fuel of four times the length of
  the line plus four, which \<^verbatim>\<open>Shellprop\<close> proves to be enough for every line.  The loops of the user programs
  that go on as long as there is input (\<^verbatim>\<open>cat\<close>, \<^verbatim>\<open>wc\<close>, \<^verbatim>\<open>grep\<close>, \<^verbatim>\<open>ls\<close>, \<^verbatim>\<open>sh\<close>, \<^verbatim>\<open>init\<close>) take the number of rounds as an
  argument and end in \<^verbatim>\<open>URunning\<close> when it is used up; the theorems about \<^verbatim>\<open>cat\<close>, \<^verbatim>\<open>wc\<close> and \<^verbatim>\<open>grep\<close> show that
  more rounds than input bytes suffice.  Loops over memory that may not end (\<^verbatim>\<open>strlen\<close> and its like, the
  sampling loop of \<^verbatim>\<open>rand.c\<close>) are \<open>option\<close>-valued partial functions.  The other loops are total functions with
  their termination proved.

  \<^bold>\<open>Parameters.\<close>  The contents of the disk image, the generated interrupt vectors and
  \<^verbatim>\<open>initcode\<close>, and what the devices deliver are arguments.  The device switch table is an argument of
  \<^verbatim>\<open>readi\<close> and \<^verbatim>\<open>writei\<close>, instantiated in \<^verbatim>\<open>Console\<close>.

  \<^bold>\<open>Not modelled.\<close>  The assembly files and the switch of stacks (its effect is the outcome
  \<^term>\<open>Sleep\<close>), the IDE driver (the disk is the one of \<^verbatim>\<open>memide.c\<close>), the interrupt controllers and
  multiprocessor tables, which only program device registers, the boot sequence, the user-level memory
  allocator of \<^verbatim>\<open>umalloc.c\<close>, the test programs and the image builder.
\<close>

end
